(* ===== verification/Prelude.thy ===== *)
theory Prelude
  imports Main "HOL-Library.Word"
begin

text \<open>
  Shared vocabulary of the development: the machine types of the runtime on
  a 64-bit little-endian platform (\<^verbatim>\<open>ARCH_SIXTYFOUR\<close>), the word memory
  that the C code reads and writes through pointers, and the generic lemmas
  on words and memories that the component theories rely on.

  A memory maps the index of a machine word to its content: the word at
  byte address \<open>8 * p\<close> has index \<open>p\<close>, and a C pointer
  to a word-aligned object is that index. C pointer arithmetic
  \<^verbatim>\<open>a + 1\<close> on a \<^verbatim>\<open>value *\<close> or a \<^verbatim>\<open>bngdigit *\<close> is then addition of
  indices. Two pointers that alias are two equal indices of the same memory.
\<close>

unbundle bit_operations_syntax

type_synonym u8 = "8 word"
type_synonym u16 = "16 word"
type_synonym u32 = "32 word"
type_synonym u64 = "64 word"
type_synonym ptr = nat
type_synonym memory = "ptr \<Rightarrow> u64"

named_theorems frame_simps \<open>what an operation leaves unchanged\<close>
named_theorems unat_simps \<open>exact natural-number readings of word operations\<close>

subsection \<open>Regions of a memory\<close>

text \<open>\<open>eq_outside a n m m'\<close>: at most the words \<open>a\<close>, ..., \<open>a + n - 1\<close> differ.\<close>

definition eq_outside :: "ptr \<Rightarrow> nat \<Rightarrow> memory \<Rightarrow> memory \<Rightarrow> bool" where
  "eq_outside a n m m' \<longleftrightarrow> (\<forall>p. p \<notin> {a..<a + n} \<longrightarrow> m' p = m p)"

definition disjoint_regions :: "ptr \<Rightarrow> nat \<Rightarrow> ptr \<Rightarrow> nat \<Rightarrow> bool" where
  "disjoint_regions a n b k \<longleftrightarrow> n = 0 \<or> k = 0 \<or> a + n \<le> b \<or> b + k \<le> a"

lemma eq_outside_refl [simp]: "eq_outside a n m m"
  by (simp add: eq_outside_def)

lemma eq_outside_trans:
  "eq_outside a n m m1 \<Longrightarrow> eq_outside a n m1 m2 \<Longrightarrow> eq_outside a n m m2"
  by (simp add: eq_outside_def)

lemma eq_outside_mono:
  assumes "eq_outside a n m m'" and "b \<le> a" and "a + n \<le> b + k"
  shows "eq_outside b k m m'"
proof -
  have "{a..<a + n} \<subseteq> {b..<b + k}" using assms(2,3) by auto
  then show ?thesis using assms(1) by (auto simp: eq_outside_def)
qed

lemma eq_outside_upd [simp]: "a \<le> p \<Longrightarrow> p < a + n \<Longrightarrow> eq_outside a n m (m(p := v))"
  by (simp add: eq_outside_def)

lemma eq_outsideD: "eq_outside a n m m' \<Longrightarrow> p < a \<or> a + n \<le> p \<Longrightarrow> m' p = m p"
  by (auto simp: eq_outside_def)

lemma disjoint_regions_sym: "disjoint_regions a n b k \<longleftrightarrow> disjoint_regions b k a n"
  by (auto simp: disjoint_regions_def)

subsection \<open>Word arithmetic read as natural numbers\<close>

lemma unat_less_2_64 [simp]: "unat (x :: u64) < 18446744073709551616"
  using unsigned_less [of x] by simp

lemma unat_le_max_u64 [simp]: "unat (x :: u64) \<le> 18446744073709551615"
  using unat_less_2_64 [of x] by linarith

lemma unat_add_u64: "unat ((x :: u64) + y) = (unat x + unat y) mod 2 ^ 64"
  by (simp add: unat_word_ariths)

lemma unat_mult_u64: "unat ((x :: u64) * y) = (unat x * unat y) mod 2 ^ 64"
  by (simp add: unat_word_ariths)

lemma unat_sub_u64:
  "unat ((x :: u64) - y) =
     (if unat y \<le> unat x then unat x - unat y else 2 ^ 64 + unat x - unat y)"
  by (auto simp: unat_sub_if_size word_size)

lemma unat_of_bool_u64 [simp]: "unat (of_bool b :: u64) = of_bool b"
  by (cases b) simp_all

lemma unat_of_bool_u32 [simp]: "unat (of_bool b :: u32) = of_bool b"
  by (cases b) simp_all

lemma unat_drop_bit_u64: "unat (drop_bit k (x :: u64)) = unat x div 2 ^ k"
  by (subst unat_drop_bit_eq) (simp add: drop_bit_eq_div)

lemma unat_push_bit_u64: "unat (push_bit k (x :: u64)) = (unat x * 2 ^ k) mod 2 ^ 64"
  by (simp only: unsigned_push_bit_eq take_bit_eq_mod) (simp add: push_bit_eq_mult)

lemma unat_ucast_32_64 [simp]: "unat (ucast (x :: u32) :: u64) = unat x"
  by (simp add: unsigned_ucast_eq take_bit_nat_eq_self order_less_trans [OF unsigned_less])

lemma unat_ucast_64_32: "unat (ucast (x :: u64) :: u32) = unat x mod 2 ^ 32"
  by (simp add: unsigned_ucast_eq take_bit_eq_mod)

text \<open>
  \<^verbatim>\<open>(x << k) | y\<close> is a sum when \<open>y\<close> fits the \<open>k\<close> bits that the shift cleared.
\<close>

lemma take_bit_u64_self: "unat (y :: u64) < 2 ^ k \<Longrightarrow> take_bit k y = y"
  by (intro word_unat_eq_iff [THEN iffD2])
    (simp only: unsigned_take_bit_eq, simp add: take_bit_eq_mod)

lemma unat_push_bit_or:
  assumes "unat (y :: u64) < 2 ^ k"
  shows "unat (push_bit k x OR y) = unat (push_bit k x) + unat y"
proof -
  have "push_bit k x AND y = 0"
  proof (rule bit_word_eqI)
    fix n
    have "n < k" if "bit y n"
      using that by (subst (asm) take_bit_u64_self [OF assms, symmetric]) (simp add: bit_take_bit_iff)
    then show "bit (push_bit k x AND y) n = bit 0 n"
      by (auto simp: bit_and_iff bit_push_bit_iff)
  qed
  then have "unat (push_bit k x) AND unat y = 0"
    by (simp only: unsigned_and_eq [symmetric] unsigned_0)
  then show ?thesis
    by (simp only: unsigned_or_eq disjunctive_add_eq_or)
qed

lemma unat_or_push_bit:
  assumes "unat (y :: u64) < 2 ^ k"
  shows "unat (y OR push_bit k x) = unat y + unat (push_bit k x)"
  using unat_push_bit_or [OF assms, of x] by (simp add: or.commute)

subsection \<open>Words as numbers below a fixed base\<close>

text \<open>The number of values of a word and of a half word, kept opaque in proofs.\<close>

definition BASE :: nat where "BASE = 2 ^ 64"

lemma BASE_pos [simp]: "0 < BASE" and BASE_gt_1 [simp]: "1 < BASE" and BASE_neq_0 [simp]: "BASE \<noteq> 0"
  by (simp_all add: BASE_def)

lemma unat_lt_BASE: "unat (d :: u64) < BASE"
  by (simp add: BASE_def)

text \<open>
  Sums and differences of words, with the base kept opaque: the two cases
  are without and with a wrap-around.
\<close>

lemma unat_add_BASE:
  "unat ((x :: u64) + y) =
     (if unat x + unat y < BASE then unat x + unat y else unat x + unat y - BASE)"
  by (simp add: unat_plus_if' BASE_def)

lemma unat_add_exact:
  "unat x + unat y < BASE \<Longrightarrow> unat ((x :: u64) + y) = unat x + unat y"
  by (simp add: unat_add_BASE)

lemma unat_sub_BASE:
  "unat ((x :: u64) - y) =
     (if unat y \<le> unat x then unat x - unat y else BASE + unat x - unat y)"
  by (simp add: unat_sub_u64 BASE_def)

lemma carry_out_iff: "(x :: u64) + y < x \<longleftrightarrow> BASE \<le> unat x + unat y"
  using unat_lt_BASE [of x] unat_lt_BASE [of y] by (auto simp: word_less_nat_alt unat_add_BASE)

definition HALF :: nat where "HALF = 2 ^ 32"

lemma HALF_pos [simp]: "0 < HALF" and HALF_gt_1 [simp]: "1 < HALF"
  by (simp_all add: HALF_def)

lemma BASE_eq: "BASE = HALF * HALF"
  by (simp add: BASE_def HALF_def)

lemma unat_mult_exact:
  "unat x * unat y < BASE \<Longrightarrow> unat ((x :: u64) * y) = unat x * unat y"
  by (simp add: unat_mult_u64 BASE_def)

lemma BASE_twice: "BASE = 2 * 2 ^ 63"
  by (simp add: BASE_def)

lemma unat_of_nat_small: "n < 2 ^ 64 \<Longrightarrow> unat (of_nat n :: u64) = n"
  by (simp add: unsigned_of_nat take_bit_nat_eq_self)

lemma sint_u64: "sint (w :: u64) = (if unat w < 2 ^ 63 then int (unat w) else int (unat w) - 2 ^ 64)"
proof -
  have "sint w = (uint w + 2 ^ 63) mod 2 ^ 64 - 2 ^ 63"
    using int_word_sint [of "uint w", where 'a = 64] by simp
  moreover have "(uint w + 2 ^ 63) mod 2 ^ 64 = (if uint w < 2 ^ 63 then uint w + 2 ^ 63 else uint w + 2 ^ 63 - 2 ^ 64)"
  proof (cases "uint w < 2 ^ 63")
    case True
    then show ?thesis by simp
  next
    case False
    have "(uint w + 2 ^ 63) mod 2 ^ 64 = (uint w + 2 ^ 63 - 2 ^ 64) mod 2 ^ 64" by (simp only: minus_mod_self2)
    also have "\<dots> = uint w + 2 ^ 63 - 2 ^ 64"
      using False unsigned_less [of w, where 'a = int] by (intro mod_pos_pos_trivial) simp_all
    finally show ?thesis using False by simp
  qed
  moreover have "unat w < 2 ^ 63 \<longleftrightarrow> int (unat w) < int (2 ^ 63)" by (simp only: of_nat_less_iff)
  ultimately show ?thesis by simp
qed

end
