(* ===== verification/Bng_Digit.thy ===== *)
theory Bng_Digit
  imports Prelude
begin

text \<open>
  The digit level of the bignum library, \<^verbatim>\<open>otherlibs/num/bng_digit.c\<close>: the
  generic C macros for addition, subtraction, multiplication and division
  of single digits, on a 64-bit platform. A macro with several result
  arguments is a function that returns the tuple of what it stores, in the
  order of the macro's parameters; an accumulating parameter is passed in.
\<close>

type_synonym bngdigit = u64
type_synonym bngcarry = u32

abbreviation (input) BNG_BITS_PER_DIGIT :: nat where "BNG_BITS_PER_DIGIT \<equiv> 64"
abbreviation (input) BNG_BITS_PER_HALF_DIGIT :: nat where "BNG_BITS_PER_HALF_DIGIT \<equiv> 32"

definition BngAdd2 :: "bngdigit \<Rightarrow> bngdigit \<Rightarrow> bngdigit \<times> bngcarry" where
  "BngAdd2 arg1 arg2 =
     (let tmp1 = arg1; tmp2 = tmp1 + arg2
      in (tmp2, of_bool (tmp2 < tmp1)))"

definition BngAdd2Carry :: "bngdigit \<Rightarrow> bngdigit \<Rightarrow> bngcarry \<Rightarrow> bngdigit \<times> bngcarry" where
  "BngAdd2Carry arg1 arg2 carryin =
     (let tmp1 = arg1; tmp2 = tmp1 + arg2; tmp3 = tmp2 + ucast carryin
      in (tmp3, of_bool (tmp2 < tmp1) + of_bool (tmp3 < tmp2)))"

definition BngAdd3 :: "bngdigit \<Rightarrow> bngdigit \<Rightarrow> bngdigit \<Rightarrow> bngdigit \<Rightarrow> bngdigit \<times> bngdigit" where
  "BngAdd3 carryaccu arg1 arg2 arg3 =
     (let tmp1 = arg1; tmp2 = tmp1 + arg2;
          carryaccu1 = carryaccu + of_bool (tmp2 < tmp1);
          tmp3 = tmp2 + arg3;
          carryaccu2 = carryaccu1 + of_bool (tmp3 < tmp2)
      in (tmp3, carryaccu2))"

definition BngSub2 :: "bngdigit \<Rightarrow> bngdigit \<Rightarrow> bngdigit \<times> bngcarry" where
  "BngSub2 arg1 arg2 =
     (let tmp1 = arg1; tmp2 = arg2
      in (tmp1 - tmp2, of_bool (tmp1 < tmp2)))"

definition BngSub2Carry :: "bngdigit \<Rightarrow> bngdigit \<Rightarrow> bngcarry \<Rightarrow> bngdigit \<times> bngcarry" where
  "BngSub2Carry arg1 arg2 carryin =
     (let tmp1 = arg1; tmp2 = arg2; tmp3 = tmp1 - tmp2
      in (tmp3 - ucast carryin, of_bool (tmp1 < tmp2) + of_bool (tmp3 < ucast carryin)))"

definition BngSub3 :: "bngdigit \<Rightarrow> bngdigit \<Rightarrow> bngdigit \<Rightarrow> bngdigit \<Rightarrow> bngdigit \<times> bngdigit" where
  "BngSub3 carryaccu arg1 arg2 arg3 =
     (let tmp1 = arg1; tmp2 = arg2; tmp3 = arg3; tmp4 = tmp1 - tmp2
      in (tmp4 - tmp3, carryaccu + (of_bool (tmp1 < tmp2) + of_bool (tmp4 < tmp3))))"

definition BngLowHalf :: "bngdigit \<Rightarrow> bngdigit" where
  "BngLowHalf d = d AND (push_bit BNG_BITS_PER_HALF_DIGIT 1 - 1)"

definition BngHighHalf :: "bngdigit \<Rightarrow> bngdigit" where
  "BngHighHalf d = drop_bit BNG_BITS_PER_HALF_DIGIT d"

text \<open>\<open>BngMult\<close> returns (\<^verbatim>\<open>resh\<close>, \<^verbatim>\<open>resl\<close>).\<close>

definition BngMult :: "bngdigit \<Rightarrow> bngdigit \<Rightarrow> bngdigit \<times> bngdigit" where
  "BngMult arg1 arg2 =
     (let p11 = BngLowHalf arg1 * BngLowHalf arg2;
          p12 = BngLowHalf arg1 * BngHighHalf arg2;
          p21 = BngHighHalf arg1 * BngLowHalf arg2;
          p22 = BngHighHalf arg1 * BngHighHalf arg2;
          resh = p22 + drop_bit BNG_BITS_PER_HALF_DIGIT p12
                     + drop_bit BNG_BITS_PER_HALF_DIGIT p21;
          (resl, resh') = BngAdd3 resh p11
             (push_bit BNG_BITS_PER_HALF_DIGIT p12) (push_bit BNG_BITS_PER_HALF_DIGIT p21)
      in (resh', resl))"

text \<open>
  The adjustment loop of \<open>bng_div_aux\<close>, used twice with the two halves of the
  quotient: while the partial remainder \<open>nh:nl\<close> is at least \<open>d\<close>, subtract \<open>d\<close>
  and increment the estimate \<open>q\<close>. It does not end for \<open>d = 0\<close>.
\<close>

partial_function (option) bng_div_adjust ::
    "bngdigit \<Rightarrow> bngdigit \<Rightarrow> bngdigit \<Rightarrow> bngdigit \<Rightarrow> (bngdigit \<times> bngdigit \<times> bngdigit) option" where
  "bng_div_adjust d nh nl q =
     (if nh \<noteq> 0 \<or> nl \<ge> d
      then bng_div_adjust d (nh - of_bool (nl < d)) (nl - d) (q + 1)
      else Some (nh, nl, q))"

text \<open>\<open>bng_div_aux\<close> returns (\<^verbatim>\<open>*quo\<close>, \<^verbatim>\<open>*rem\<close>).\<close>

definition bng_div_aux :: "bngdigit \<Rightarrow> bngdigit \<Rightarrow> bngdigit \<Rightarrow> (bngdigit \<times> bngdigit) option" where
  "bng_div_aux nh nl d =
     (let dl = BngLowHalf d; dh = BngHighHalf d;
          qh = nh div (dh + 1);
          nsaved = BngLowHalf nl;
          ph = qh * dh; pl = qh * dl;
          nh1 = nh - ph;
          nl1 = drop_bit BNG_BITS_PER_HALF_DIGIT nl OR push_bit BNG_BITS_PER_HALF_DIGIT nh1;
          nh2 = drop_bit BNG_BITS_PER_HALF_DIGIT nh1;
          nh3 = nh2 - of_bool (nl1 < pl);
          nl2 = nl1 - pl
      in case bng_div_adjust d nh3 nl2 qh of None \<Rightarrow> None
         | Some (nh4, nl3, qh1) \<Rightarrow>
     (let ql = nl3 div (dh + 1);
          ph = ql * dh; pl = ql * dl;
          nl4 = nl3 - ph;
          nh5 = drop_bit BNG_BITS_PER_HALF_DIGIT nl4;
          nl5 = push_bit BNG_BITS_PER_HALF_DIGIT nl4 OR nsaved;
          nh6 = nh5 - of_bool (nl5 < pl);
          nl6 = nl5 - pl
      in case bng_div_adjust d nh6 nl6 ql of None \<Rightarrow> None
         | Some (nh7, nl7, ql1) \<Rightarrow>
             Some (push_bit BNG_BITS_PER_HALF_DIGIT qh1 OR ql1, nl7)))"

abbreviation BngDiv :: "bngdigit \<Rightarrow> bngdigit \<Rightarrow> bngdigit \<Rightarrow> (bngdigit \<times> bngdigit) option" where
  "BngDiv nh nl d \<equiv> bng_div_aux nh nl d"

subsection \<open>The digit operations on natural numbers\<close>

lemma unat_carry_sum [simp]:
  "unat (of_bool p + of_bool q :: u32) = of_bool p + of_bool q"
  by (cases p; cases q) simp_all

lemma unat_carry_sum64 [simp]:
  "unat (of_bool p + of_bool q :: u64) = of_bool p + of_bool q"
  by (cases p; cases q) simp_all

lemma BngAdd2_exact:
  assumes "BngAdd2 x y = (r, c)"
  shows "unat r + unat c * BASE = unat x + unat y" and "unat c \<le> 1"
proof -
  have r: "r = x + y" and c: "c = of_bool (x + y < x)"
    using assms by (auto simp: BngAdd2_def Let_def)
  show "unat r + unat c * BASE = unat x + unat y"
    using unat_lt_BASE [of x] unat_lt_BASE [of y] by (simp add: r c carry_out_iff unat_add_BASE)
  show "unat c \<le> 1" by (simp add: c)
qed

lemma BngSub2_exact:
  assumes "BngSub2 x y = (r, c)"
  shows "unat r + unat y = unat x + unat c * BASE" and "unat c \<le> 1"
proof -
  have r: "r = x - y" and c: "c = of_bool (x < y)"
    using assms by (auto simp: BngSub2_def Let_def)
  show "unat r + unat y = unat x + unat c * BASE"
    using unat_lt_BASE [of y] by (simp add: r c word_less_nat_alt unat_sub_BASE)
  show "unat c \<le> 1" by (simp add: c)
qed

text \<open>With a carry of at most one, the two partial carries cannot both be set.\<close>

lemma BngAdd2Carry_exact:
  assumes "BngAdd2Carry x y cin = (r, c)" and "unat cin \<le> 1"
  shows "unat r + unat c * BASE = unat x + unat y + unat cin" and "unat c \<le> 1"
proof -
  let ?t = "x + y"
  have r: "r = ?t + ucast cin"
    and c: "c = of_bool (?t < x) + of_bool (?t + ucast cin < ?t)"
    using assms(1) by (auto simp: BngAdd2Carry_def Let_def)
  have cx: "unat c = of_bool (BASE \<le> unat x + unat y) + of_bool (BASE \<le> unat ?t + unat cin)"
    by (simp only: c unat_carry_sum carry_out_iff unat_ucast_32_64)
  have rx: "unat r = (if unat ?t + unat cin < BASE then unat ?t + unat cin else unat ?t + unat cin - BASE)"
    by (simp add: r unat_add_BASE)
  show "unat r + unat c * BASE = unat x + unat y + unat cin" "unat c \<le> 1"
    using assms(2) unat_lt_BASE [of x] unat_lt_BASE [of y]
    by (auto simp: cx rx unat_add_BASE of_bool_def)
qed

lemma BngSub2Carry_exact:
  assumes "BngSub2Carry x y cin = (r, c)" and "unat cin \<le> 1"
  shows "unat r + unat y + unat cin = unat x + unat c * BASE" and "unat c \<le> 1"
proof -
  let ?t = "x - y"
  have r: "r = ?t - ucast cin" and c: "c = of_bool (x < y) + of_bool (?t < ucast cin)"
    using assms(1) by (auto simp: BngSub2Carry_def Let_def)
  have cx: "unat c = of_bool (unat x < unat y) + of_bool (unat ?t < unat cin)"
    by (simp only: c unat_carry_sum word_less_nat_alt unat_ucast_32_64)
  have rx: "unat r = (if unat cin \<le> unat ?t then unat ?t - unat cin else BASE + unat ?t - unat cin)"
    by (simp add: r unat_sub_BASE)
  show "unat r + unat y + unat cin = unat x + unat c * BASE" "unat c \<le> 1"
    using assms(2) unat_lt_BASE [of x] unat_lt_BASE [of y] BASE_gt_1
    by (auto simp: cx rx unat_sub_BASE of_bool_def)
qed

text \<open>
  The three-operand macros add their carries to an accumulator. As long as
  the whole sum fits two digits, the accumulator does not wrap.
\<close>

lemma BngAdd3_exact:
  assumes eq: "BngAdd3 acc x y z = (r, acc')"
    and fits: "unat acc * BASE + (unat x + unat y + unat z) < BASE * BASE"
  shows "unat acc' * BASE + unat r = unat acc * BASE + (unat x + unat y + unat z)"
proof -
  let ?t = "x + y"
  define k where "k = (of_bool (BASE \<le> unat x + unat y) + of_bool (BASE \<le> unat ?t + unat z) :: nat)"
  define w where "w = (of_bool (?t < x) + of_bool (?t + z < ?t) :: bngdigit)"
  have r: "r = ?t + z" and a: "acc' = acc + w"
    using eq by (auto simp: BngAdd3_def Let_def add.assoc w_def)
  have kk: "unat w = k"
    by (simp only: w_def unat_carry_sum64 carry_out_iff k_def)
  have rk: "unat r + k * BASE = unat x + unat y + unat z"
    using unat_lt_BASE [of x] unat_lt_BASE [of y] unat_lt_BASE [of z]
    by (auto simp: r k_def unat_add_BASE of_bool_def)
  have "(unat acc + k) * BASE < BASE * BASE"
    using fits rk by (simp add: algebra_simps)
  then have "unat acc + k < BASE" by simp
  then have "unat acc' = unat acc + k"
    by (simp add: a unat_add_exact kk)
  then show ?thesis using rk by (simp add: algebra_simps)
qed

lemma BngSub3_exact:
  assumes eq: "BngSub3 acc x y z = (r, acc')"
    and fits: "unat acc * BASE + (unat y + unat z) + BASE \<le> BASE * BASE"
  shows "unat r + (unat acc * BASE + (unat y + unat z)) = unat x + unat acc' * BASE"
proof -
  let ?t = "x - y"
  define k where "k = (of_bool (unat x < unat y) + of_bool (unat ?t < unat z) :: nat)"
  define w where "w = (of_bool (x < y) + of_bool (?t < z) :: bngdigit)"
  have r: "r = ?t - z" and a: "acc' = acc + w"
    using eq by (auto simp: BngSub3_def Let_def w_def)
  have kk: "unat w = k"
    by (simp only: w_def unat_carry_sum64 word_less_nat_alt k_def)
  have rk: "unat r + (unat y + unat z) = unat x + k * BASE"
    using unat_lt_BASE [of x] unat_lt_BASE [of y] unat_lt_BASE [of z]
    by (auto simp: r k_def unat_sub_BASE of_bool_def)
  have "(unat acc + k) * BASE < BASE * BASE"
    using fits rk unat_lt_BASE [of r] by (simp add: algebra_simps)
  then have "unat acc + k < BASE" by simp
  then have "unat acc' = unat acc + k"
    by (simp add: a unat_add_exact kk)
  then show ?thesis using rk by (simp add: algebra_simps)
qed

subsection \<open>Half digits\<close>

lemma unat_BngLowHalf: "unat (BngLowHalf d) = unat d mod HALF"
proof -
  have "BngLowHalf d = take_bit 32 d"
    by (simp add: BngLowHalf_def take_bit_eq_mask mask_eq_exp_minus_1)
  then have "unat (BngLowHalf d) = take_bit 32 (unat d)"
    by (simp only: unsigned_take_bit_eq)
  then show ?thesis by (simp add: take_bit_eq_mod HALF_def)
qed

lemma unat_BngHighHalf: "unat (BngHighHalf d) = unat d div HALF"
  by (simp only: BngHighHalf_def unat_drop_bit_u64 HALF_def)

lemma unat_shift_right_half: "unat (drop_bit BNG_BITS_PER_HALF_DIGIT (d :: bngdigit)) = unat d div HALF"
  by (simp only: unat_drop_bit_u64 HALF_def)

lemma unat_shift_left_half:
  "unat (push_bit BNG_BITS_PER_HALF_DIGIT (d :: bngdigit)) = unat d mod HALF * HALF"
proof -
  have "unat (push_bit BNG_BITS_PER_HALF_DIGIT d) = unat d * HALF mod (HALF * HALF)"
    by (simp only: unat_push_bit_u64 HALF_def flip: power_add) simp
  then show ?thesis by (simp only: mult_mod_left)
qed

lemma unat_half_or:
  "unat (y :: bngdigit) < HALF \<Longrightarrow>
    unat (push_bit BNG_BITS_PER_HALF_DIGIT x OR y) = unat x mod HALF * HALF + unat y"
  using unat_push_bit_or [of y BNG_BITS_PER_HALF_DIGIT x]
  by (simp only: unat_shift_left_half HALF_def)

lemma half_lt: "unat (BngLowHalf d) < HALF" "unat (BngHighHalf d) < HALF"
  using unat_lt_BASE [of d] by (simp_all add: unat_BngLowHalf unat_BngHighHalf BASE_eq less_mult_imp_div_less)

lemma digit_halves: "unat d = unat (BngHighHalf d) * HALF + unat (BngLowHalf d)"
  by (simp add: unat_BngHighHalf unat_BngLowHalf)

lemma half_mult_lt: "a < HALF \<Longrightarrow> b < HALF \<Longrightarrow> a * b < BASE"
  by (simp add: BASE_eq mult_strict_mono)

lemma half_split: "n div HALF * BASE + n mod HALF * HALF = n * HALF"
proof -
  have "n * HALF = (n div HALF * HALF + n mod HALF) * HALF" by simp
  also have "\<dots> = n div HALF * BASE + n mod HALF * HALF"
    by (simp only: distrib_right BASE_eq mult.assoc)
  finally show ?thesis by simp
qed

text \<open>
  The schoolbook product of two digits: \<open>resh:resl\<close> is the exact
  double-digit product.
\<close>

lemma BngMult_exact:
  assumes "BngMult x y = (resh, resl)"
  shows "unat resh * BASE + unat resl = unat x * unat y"
proof -
  define xl xh yl yh where
    "xl = BngLowHalf x" and "xh = BngHighHalf x" and "yl = BngLowHalf y" and "yh = BngHighHalf y"
  have lt: "unat xl < HALF" "unat xh < HALF" "unat yl < HALF" "unat yh < HALF"
    by (simp_all add: xl_def xh_def yl_def yh_def half_lt)
  define p11 p12 p21 p22 where
    "p11 = xl * yl" and "p12 = xl * yh" and "p21 = xh * yl" and "p22 = xh * yh"
  have p: "unat p11 = unat xl * unat yl" "unat p12 = unat xl * unat yh"
    "unat p21 = unat xh * unat yl" "unat p22 = unat xh * unat yh"
    by (simp_all add: p11_def p12_def p21_def p22_def unat_mult_exact half_mult_lt lt)
  define s12 s21 where "s12 = push_bit BNG_BITS_PER_HALF_DIGIT p12" and
    "s21 = push_bit BNG_BITS_PER_HALF_DIGIT p21"
  define h where "h = p22 + drop_bit BNG_BITS_PER_HALF_DIGIT p12 + drop_bit BNG_BITS_PER_HALF_DIGIT p21"
  have eq: "BngAdd3 h p11 s12 s21 = (resl, resh)"
    using assms
    by (simp add: BngMult_def Let_def p11_def p12_def p21_def p22_def xl_def xh_def yl_def yh_def
        h_def s12_def s21_def split: prod.splits)
  have xy: "unat x = unat xh * HALF + unat xl" "unat y = unat yh * HALF + unat yl"
    by (simp_all only: xl_def xh_def yl_def yh_def digit_halves [symmetric])
  have prod: "unat x * unat y = unat p22 * BASE + (unat p12 + unat p21) * HALF + unat p11"
    by (simp add: xy p BASE_eq algebra_simps)
  have tot: "(unat p22 + unat p12 div HALF + unat p21 div HALF) * BASE
      + (unat p11 + unat p12 mod HALF * HALF + unat p21 mod HALF * HALF) = unat x * unat y"
    using half_split [of "unat p12"] half_split [of "unat p21"] by (simp add: prod algebra_simps)
  have bound: "unat x * unat y < BASE * BASE"
    by (simp add: mult_strict_mono unat_lt_BASE)
  have "(unat p22 + unat p12 div HALF + unat p21 div HALF) * BASE < BASE * BASE"
    using tot bound by linarith
  then have hb: "unat p22 + unat p12 div HALF + unat p21 div HALF < BASE" by simp
  have hu: "unat h = unat p22 + unat p12 div HALF + unat p21 div HALF"
    using hb by (simp add: h_def unat_add_exact unat_shift_right_half)
  have "unat resh * BASE + unat resl = unat h * BASE + (unat p11 + unat s12 + unat s21)"
    using eq by (rule BngAdd3_exact)
      (use tot bound in \<open>simp add: hu s12_def s21_def unat_shift_left_half\<close>)
  then show ?thesis
    using tot by (simp add: hu s12_def s21_def unat_shift_left_half)
qed

subsection \<open>Division of two digits by one\<close>

text \<open>
  A double digit \<open>nh:nl\<close> that is at least \<open>d\<close> loses one \<open>d\<close> per round, and
  the borrow out of \<open>nl\<close> is exactly what the code takes from \<open>nh\<close>.
\<close>

lemma double_digit_ge_iff:
  "(nh \<noteq> 0 \<or> (nl :: bngdigit) \<ge> d) \<longleftrightarrow> unat d \<le> unat nh * BASE + unat nl"
proof (cases "nh = 0")
  case True
  then show ?thesis by (simp add: word_le_nat_alt)
next
  case False
  then have "1 \<le> unat nh" by (simp add: Suc_le_eq unat_gt_0)
  then have "BASE \<le> unat nh * BASE" by simp
  then show ?thesis using False unat_lt_BASE [of d] by linarith
qed

lemma double_digit_sub:
  assumes "unat d \<le> unat nh * BASE + unat nl"
  shows "unat ((nh :: bngdigit) - of_bool ((nl :: bngdigit) < d)) * BASE + unat (nl - d) + unat d
    = unat nh * BASE + unat nl"
proof (cases "nl < d")
  case True
  then have "unat nh \<noteq> 0" using assms by (intro notI) (simp add: word_less_nat_alt)
  then obtain k where "unat nh = Suc k" by (cases "unat nh") auto
  then show ?thesis
    using True unat_lt_BASE [of d] by (simp add: unat_sub_BASE word_less_nat_alt)
next
  case False
  then show ?thesis by (simp add: unat_sub_BASE word_less_nat_alt)
qed

lemma bng_div_adjust_exact:
  assumes "d \<noteq> 0" and "unat q + (unat nh * BASE + unat nl) div unat d < BASE"
  shows "\<exists>nl' q'. bng_div_adjust d nh nl q = Some (0, nl', q')
    \<and> unat nl' = (unat nh * BASE + unat nl) mod unat d
    \<and> unat q' = unat q + (unat nh * BASE + unat nl) div unat d"
  using assms(2)
proof (induction "unat nh * BASE + unat nl" arbitrary: nh nl q rule: less_induct)
  case less
  let ?N = "unat nh * BASE + unat nl"
  have d0: "0 < unat d" using assms(1) by (simp add: unat_gt_0)
  show ?case
  proof (cases "unat d \<le> ?N")
    case True
    let ?nh = "nh - of_bool (nl < d)" and ?nl = "nl - d"
    have N: "unat ?nh * BASE + unat ?nl = ?N - unat d"
      using double_digit_sub [OF True] by linarith
    have dv: "?N div unat d = Suc ((?N - unat d) div unat d)"
      using True d0 by (simp add: le_div_geq)
    have q1: "unat (q + 1) = unat q + 1"
      using less.prems dv by (simp add: unat_add_exact)
    have lt: "?N - unat d < ?N" using True d0 by linarith
    obtain nl' q' where rec: "bng_div_adjust d ?nh ?nl (q + 1) = Some (0, nl', q')"
      and nl': "unat nl' = (?N - unat d) mod unat d"
      and q': "unat q' = unat (q + 1) + (?N - unat d) div unat d"
      unfolding N [symmetric]
      using less.hyps [of ?nh ?nl "q + 1"] lt less.prems dv q1 by (auto simp: N)
    have "bng_div_adjust d nh nl q = Some (0, nl', q')"
      using True rec by (subst bng_div_adjust.simps) (simp only: double_digit_ge_iff if_True)
    then show ?thesis
      using nl' q' True by (simp add: dv q1 le_mod_geq)
  next
    case False
    then have "\<not> (nh \<noteq> 0 \<or> nl \<ge> d)" by (simp only: double_digit_ge_iff not_False_eq_True)
    then have "nh = 0" "\<not> nl \<ge> d" by blast+
    then show ?thesis
      using False by (subst bng_div_adjust.simps) simp
  qed
qed

text \<open>
  One half step of the division: with \<open>hi < d\<close>, dividing \<open>hi * HALF + lo\<close>
  by \<open>d\<close> through the estimate \<open>hi div (dh + 1)\<close>. The estimate is never too big,
  and none of the products overflows.
\<close>

lemma half_estimate:
  fixes hi lo D :: nat
  assumes "hi < D" and "D < BASE" and "lo < HALF"
  defines "q \<equiv> hi div (D div HALF + 1)"
  shows "q * (D div HALF) \<le> hi" and "q < HALF"
    and "q * D \<le> hi * HALF + lo"
    and "(hi - q * (D div HALF)) * HALF + lo - q * (D mod HALF) = hi * HALF + lo - q * D"
    and "q * (D mod HALF) \<le> (hi - q * (D div HALF)) * HALF + lo"
    and "(hi * HALF + lo) div D < HALF"
proof -
  have DH: "D = D div HALF * HALF + D mod HALF" by simp
  have est: "q * (D div HALF + 1) \<le> hi"
    by (simp only: q_def div_times_less_eq_dividend)
  then show le: "q * (D div HALF) \<le> hi" by simp
  have "D < (D div HALF + 1) * HALF" using dividend_less_div_times [OF HALF_pos, of D] by (simp add: algebra_simps)
  then have Dlt: "D \<le> (D div HALF + 1) * HALF" by simp
  have "q * (D div HALF + 1) < HALF * (D div HALF + 1)"
    using est assms(1) Dlt by (simp add: algebra_simps)
  then show "q < HALF" by (simp only: mult_less_cancel2)
  have "q * D \<le> q * ((D div HALF + 1) * HALF)" using Dlt by simp
  also have "\<dots> = q * (D div HALF + 1) * HALF" by (simp only: mult.assoc)
  also have "\<dots> \<le> hi * HALF" using est by (rule mult_right_mono) simp
  finally have qD: "q * D \<le> hi * HALF" .
  then show "q * D \<le> hi * HALF + lo" by simp
  have e: "q * D = q * (D div HALF) * HALF + q * (D mod HALF)"
    by (subst DH) (simp only: distrib_left mult.assoc)
  have s: "(hi - q * (D div HALF)) * HALF = hi * HALF - q * (D div HALF) * HALF" by (simp add: diff_mult_distrib)
  show "(hi - q * (D div HALF)) * HALF + lo - q * (D mod HALF) = hi * HALF + lo - q * D"
    using qD e s by linarith
  show "q * (D mod HALF) \<le> (hi - q * (D div HALF)) * HALF + lo"
    using qD e s by linarith
  have "hi * HALF + lo < (hi + 1) * HALF" using assms(3) by simp
  also have "\<dots> \<le> D * HALF" using assms(1) by (intro mult_right_mono) simp_all
  finally show "(hi * HALF + lo) div D < HALF" by (simp add: less_mult_imp_div_less mult.commute)
qed

text \<open>
  The same step as the code runs it: \<open>hi\<close> loses the high product, is shifted
  by half a digit with \<open>lo\<close> filled in, loses the low product with its borrow,
  and the estimate is adjusted.
\<close>

lemma shifted_sub:
  fixes hi' lo pl :: bngdigit
  assumes "unat lo < HALF" and "unat pl \<le> unat hi' * HALF + unat lo"
  defines "nl \<equiv> push_bit BNG_BITS_PER_HALF_DIGIT hi' OR lo"
  shows "unat (drop_bit BNG_BITS_PER_HALF_DIGIT hi' - of_bool (nl < pl)) * BASE + unat (nl - pl)
    = unat hi' * HALF + unat lo - unat pl"
proof -
  have nl: "unat nl = unat hi' mod HALF * HALF + unat lo"
    using assms(1) by (simp add: nl_def unat_half_or)
  have whole: "unat hi' * HALF + unat lo = unat (drop_bit BNG_BITS_PER_HALF_DIGIT hi') * BASE + unat nl"
    using half_split [of "unat hi'"] by (simp add: nl unat_shift_right_half)
  show ?thesis
    using double_digit_sub [of pl "drop_bit BNG_BITS_PER_HALF_DIGIT hi'" nl] assms(2)
    by (simp add: whole)
qed

text \<open>
  Both halves of \<open>bng_div_aux\<close> run the same computation: once on the high
  digit of the numerator with the high half of the low digit, once on the
  first remainder with the saved low half.
\<close>

definition bng_div_half ::
    "bngdigit \<Rightarrow> bngdigit \<Rightarrow> bngdigit \<Rightarrow> (bngdigit \<times> bngdigit \<times> bngdigit) option" where
  "bng_div_half d hi lo =
     (let q = hi div (BngHighHalf d + 1); n = hi - q * BngHighHalf d;
          nl = push_bit BNG_BITS_PER_HALF_DIGIT n OR lo; pl = q * BngLowHalf d
      in bng_div_adjust d (drop_bit BNG_BITS_PER_HALF_DIGIT n - of_bool (nl < pl)) (nl - pl) q)"

lemma bng_div_aux_halves:
  "bng_div_aux nh nl d =
     (case bng_div_half d nh (drop_bit BNG_BITS_PER_HALF_DIGIT nl) of None \<Rightarrow> None
      | Some (_, r, qh) \<Rightarrow>
        (case bng_div_half d r (BngLowHalf nl) of None \<Rightarrow> None
         | Some (_, r', ql) \<Rightarrow> Some (push_bit BNG_BITS_PER_HALF_DIGIT qh OR ql, r')))"
  unfolding bng_div_aux_def bng_div_half_def Let_def
  by (simp only: or.commute [of "drop_bit BNG_BITS_PER_HALF_DIGIT nl"])

lemma bng_div_half_exact:
  assumes d: "d \<noteq> 0" and hi: "hi < d" and lo: "unat lo < HALF"
  shows "\<exists>r q. bng_div_half d hi lo = Some (0, r, q)
    \<and> unat r = (unat hi * HALF + unat lo) mod unat d
    \<and> unat q = (unat hi * HALF + unat lo) div unat d \<and> unat q < HALF"
proof -
  define dl dh where "dl = BngLowHalf d" and "dh = BngHighHalf d"
  have dlh: "unat dl = unat d mod HALF" "unat dh = unat d div HALF"
    by (simp_all add: dl_def dh_def unat_BngLowHalf unat_BngHighHalf)
  have "unat dh + unat (1 :: bngdigit) < BASE"
    using half_lt(2) [of d] unfolding dh_def by (simp add: BASE_def HALF_def)
  then have dh1: "unat (dh + 1) = unat d div HALF + 1" by (simp add: unat_add_exact dlh)
  define q where "q = hi div (dh + 1)"
  have q: "unat q = unat hi div (unat d div HALF + 1)"
    by (simp only: q_def unat_div_distrib dh1)
  note est = half_estimate [OF hi [unfolded word_less_nat_alt] unat_lt_BASE lo, folded q]
  have "unat q * unat dh < BASE" using est(1) unat_lt_BASE [of hi] by (simp add: dlh)
  then have ph: "unat (q * dh) = unat q * (unat d div HALF)" by (simp add: unat_mult_exact dlh)
  have "unat q * unat dl < BASE" using est(2) half_lt(1) [of d] by (simp add: half_mult_lt dl_def)
  then have pl: "unat (q * dl) = unat q * (unat d mod HALF)" by (simp add: unat_mult_exact dlh)
  have hi': "unat (hi - q * dh) = unat hi - unat q * (unat d div HALF)"
    using est(1) by (simp add: unat_sub_BASE ph)
  let ?N = "unat hi * HALF + unat lo"
  let ?nl = "push_bit BNG_BITS_PER_HALF_DIGIT (hi - q * dh) OR lo"
  let ?nh = "drop_bit BNG_BITS_PER_HALF_DIGIT (hi - q * dh) - of_bool (?nl < q * dl)"
  have N: "unat ?nh * BASE + unat (?nl - q * dl) = ?N - unat q * unat d"
    using shifted_sub [OF lo, of "q * dl" "hi - q * dh"] est(4,5) by (simp only: hi' pl)
  have dv: "unat q + (?N - unat q * unat d) div unat d = ?N div unat d"
    and md: "(?N - unat q * unat d) mod unat d = ?N mod unat d"
    using est(3) d
    by (metis add.commute div_mult_self1 le_add_diff_inverse unat_eq_zero,
        metis le_add_diff_inverse mod_mult_self3)
  have "?N div unat d < BASE" using est(6) by (simp add: BASE_def HALF_def)
  then have "\<exists>r q'. bng_div_adjust d ?nh (?nl - q * dl) q = Some (0, r, q')
      \<and> unat r = (unat ?nh * BASE + unat (?nl - q * dl)) mod unat d
      \<and> unat q' = unat q + (unat ?nh * BASE + unat (?nl - q * dl)) div unat d"
    by (intro bng_div_adjust_exact d) (simp only: N dv)
  then show ?thesis
    unfolding bng_div_half_def Let_def dl_def [symmetric] dh_def [symmetric] q_def [symmetric]
    using est(6) by (simp only: N dv md) auto
qed

lemma bng_div_aux_exact:
  assumes d: "d \<noteq> 0" and nh: "nh < d"
  shows "\<exists>quo rem. bng_div_aux nh nl d = Some (quo, rem)
    \<and> unat quo = (unat nh * BASE + unat nl) div unat d
    \<and> unat rem = (unat nh * BASE + unat nl) mod unat d"
proof -
  obtain r qh where 1: "bng_div_half d nh (drop_bit BNG_BITS_PER_HALF_DIGIT nl) = Some (0, r, qh)"
    and r: "unat r = (unat nh * HALF + unat nl div HALF) mod unat d"
    and qh: "unat qh = (unat nh * HALF + unat nl div HALF) div unat d" "unat qh < HALF"
    using bng_div_half_exact [OF d nh, of "drop_bit BNG_BITS_PER_HALF_DIGIT nl"] half_lt(2) [of nl]
    by (auto simp: unat_shift_right_half BngHighHalf_def)
  have rd: "r < d" using d by (simp add: word_less_nat_alt r unat_gt_0)
  obtain r' ql where 2: "bng_div_half d r (BngLowHalf nl) = Some (0, r', ql)"
    and r': "unat r' = (unat r * HALF + unat nl mod HALF) mod unat d"
    and ql: "unat ql = (unat r * HALF + unat nl mod HALF) div unat d" "unat ql < HALF"
    using bng_div_half_exact [OF d rd half_lt(1) [of nl]] by (auto simp: unat_BngLowHalf)
  have run: "bng_div_aux nh nl d = Some (push_bit BNG_BITS_PER_HALF_DIGIT qh OR ql, r')"
    by (simp add: bng_div_aux_halves 1 2)
  have "unat nh * BASE + unat nl = (unat nh * HALF + unat nl div HALF) * HALF + unat nl mod HALF"
    by (simp add: BASE_eq algebra_simps)
  also have "\<dots> = (unat qh * unat d + unat r) * HALF + unat nl mod HALF"
    by (simp only: qh(1) r div_mult_mod_eq)
  also have "\<dots> = unat qh * HALF * unat d + (unat r * HALF + unat nl mod HALF)"
    by (simp add: algebra_simps)
  finally have N: "unat nh * BASE + unat nl = unat qh * HALF * unat d + (unat r * HALF + unat nl mod HALF)" .
  have quo: "unat (push_bit BNG_BITS_PER_HALF_DIGIT qh OR ql) = unat qh * HALF + unat ql"
    using ql(2) qh(2) by (simp add: unat_half_or)
  show ?thesis using d by (simp add: run quo N r' ql(1) unat_gt_0)
qed

end
