(* ===== verification/Bng.thy ===== *)
theory Bng
  imports Bng_Digit
begin

text \<open>
  The bignum library \<^verbatim>\<open>otherlibs/num/bng.c\<close>: operations in place on runs
  \<open>{a,alen}\<close> of digits in memory, least significant digit first. The digit macros are
  the generic ones of \<^verbatim>\<open>Bng_Digit\<close>. A run is a pointer and a length; lengths
  (\<^verbatim>\<open>bngsize\<close>) are natural numbers, and each function that returns a carry
  or a remainder and writes the memory returns the pair.
  Loops count the remaining digits down, as the code does.
\<close>

section \<open>Operations that cannot be overridden\<close>

definition bng_leading_zero_bits :: "bngdigit \<Rightarrow> int" where
  "bng_leading_zero_bits d0 =
     (let (n, d) = (int BNG_BITS_PER_DIGIT, d0);
          (n, d) = (if d AND 0xFFFFFFFF00000000 \<noteq> 0 then (n - 32, drop_bit 32 d) else (n, d));
          (n, d) = (if d AND 0xFFFF0000 \<noteq> 0 then (n - 16, drop_bit 16 d) else (n, d));
          (n, d) = (if d AND 0xFF00 \<noteq> 0 then (n - 8, drop_bit 8 d) else (n, d));
          (n, d) = (if d AND 0xF0 \<noteq> 0 then (n - 4, drop_bit 4 d) else (n, d));
          (n, d) = (if d AND 0xC \<noteq> 0 then (n - 2, drop_bit 2 d) else (n, d));
          (n, d) = (if d AND 2 \<noteq> 0 then (n - 1, drop_bit 1 d) else (n, d))
      in n - int (unat d))"

primrec bng_complement :: "memory \<Rightarrow> ptr \<Rightarrow> nat \<Rightarrow> memory" where
  "bng_complement m a 0 = m"
| "bng_complement m a (Suc alen) = bng_complement (m(a := NOT (m a))) (a + 1) alen"

primrec bng_num_digits :: "memory \<Rightarrow> ptr \<Rightarrow> nat \<Rightarrow> nat" where
  "bng_num_digits m a 0 = 1"
| "bng_num_digits m a (Suc alen) =
     (if m (a + alen) \<noteq> 0 then Suc alen else bng_num_digits m a alen)"

text \<open>The macro of \<^verbatim>\<open>bng.h\<close>.\<close>

definition bng_is_zero :: "memory \<Rightarrow> ptr \<Rightarrow> nat \<Rightarrow> bool" where
  "bng_is_zero m a alen \<longleftrightarrow> bng_num_digits m a alen = 0"

text \<open>The two loops that drop the leading zero digits, and the digit-wise comparison.\<close>

primrec bng_trim :: "memory \<Rightarrow> ptr \<Rightarrow> nat \<Rightarrow> nat" where
  "bng_trim m a 0 = 0"
| "bng_trim m a (Suc alen) = (if m (a + alen) = 0 then bng_trim m a alen else Suc alen)"

primrec bng_compare_loop :: "memory \<Rightarrow> ptr \<Rightarrow> ptr \<Rightarrow> nat \<Rightarrow> int" where
  "bng_compare_loop m a b 0 = 0"
| "bng_compare_loop m a b (Suc alen) =
     (let da = m (a + alen); db = m (b + alen)
      in if da > db then 1 else if da < db then -1 else bng_compare_loop m a b alen)"

definition bng_compare :: "memory \<Rightarrow> ptr \<Rightarrow> nat \<Rightarrow> ptr \<Rightarrow> nat \<Rightarrow> int" where
  "bng_compare m a alen0 b blen0 =
     (let alen = bng_trim m a alen0; blen = bng_trim m b blen0
      in if alen > blen then 1 else if alen < blen then -1 else bng_compare_loop m a b alen)"

text \<open>\<^verbatim>\<open>bng_zero\<close> and \<^verbatim>\<open>bng_assign\<close> (memset and memmove on digits).\<close>

definition bng_zero :: "memory \<Rightarrow> ptr \<Rightarrow> nat \<Rightarrow> memory" where
  "bng_zero m a alen = (\<lambda>p. if a \<le> p \<and> p < a + alen then 0 else m p)"

definition bng_assign :: "memory \<Rightarrow> ptr \<Rightarrow> ptr \<Rightarrow> nat \<Rightarrow> memory" where
  "bng_assign m a b len = (\<lambda>p. if a \<le> p \<and> p < a + len then m (b + (p - a)) else m p)"

section \<open>The overridable operations\<close>

text \<open>The carry and borrow propagation loops that end several functions.\<close>

primrec bng_incr_loop :: "memory \<Rightarrow> ptr \<Rightarrow> nat \<Rightarrow> bngcarry \<times> memory" where
  "bng_incr_loop m a 0 = (1, m)"
| "bng_incr_loop m a (Suc alen) =
     (let m1 = m(a := m a + 1)
      in if m1 a \<noteq> 0 then (0, m1) else bng_incr_loop m1 (a + 1) alen)"

primrec bng_decr_loop :: "memory \<Rightarrow> ptr \<Rightarrow> nat \<Rightarrow> bngcarry \<times> memory" where
  "bng_decr_loop m a 0 = (1, m)"
| "bng_decr_loop m a (Suc alen) =
     (let m1 = m(a := m a - 1)
      in if m a \<noteq> 0 then (0, m1) else bng_decr_loop m1 (a + 1) alen)"

definition bng_generic_add_carry :: "memory \<Rightarrow> ptr \<Rightarrow> nat \<Rightarrow> bngcarry \<Rightarrow> bngcarry \<times> memory" where
  "bng_generic_add_carry m a alen carry =
     (if carry = 0 \<or> alen = 0 then (carry, m) else bng_incr_loop m a alen)"

primrec bng_add_loop :: "memory \<Rightarrow> ptr \<Rightarrow> ptr \<Rightarrow> nat \<Rightarrow> bngcarry \<Rightarrow> bngcarry \<times> memory" where
  "bng_add_loop m a b 0 carry = (carry, m)"
| "bng_add_loop m a b (Suc blen) carry =
     (let (r, carry') = BngAdd2Carry (m a) (m b) carry
      in bng_add_loop (m(a := r)) (a + 1) (b + 1) blen carry')"

definition bng_generic_add ::
    "memory \<Rightarrow> ptr \<Rightarrow> nat \<Rightarrow> ptr \<Rightarrow> nat \<Rightarrow> bngcarry \<Rightarrow> bngcarry \<times> memory" where
  "bng_generic_add m a alen b blen carry0 =
     (let alen1 = alen - blen;
          (carry, m1) = bng_add_loop m a b blen carry0
      in if carry = 0 \<or> alen1 = 0 then (carry, m1) else bng_incr_loop m1 (a + blen) alen1)"

definition bng_generic_sub_carry :: "memory \<Rightarrow> ptr \<Rightarrow> nat \<Rightarrow> bngcarry \<Rightarrow> bngcarry \<times> memory" where
  "bng_generic_sub_carry m a alen carry =
     (if carry = 0 \<or> alen = 0 then (carry, m) else bng_decr_loop m a alen)"

primrec bng_sub_loop :: "memory \<Rightarrow> ptr \<Rightarrow> ptr \<Rightarrow> nat \<Rightarrow> bngcarry \<Rightarrow> bngcarry \<times> memory" where
  "bng_sub_loop m a b 0 carry = (carry, m)"
| "bng_sub_loop m a b (Suc blen) carry =
     (let (r, carry') = BngSub2Carry (m a) (m b) carry
      in bng_sub_loop (m(a := r)) (a + 1) (b + 1) blen carry')"

definition bng_generic_sub ::
    "memory \<Rightarrow> ptr \<Rightarrow> nat \<Rightarrow> ptr \<Rightarrow> nat \<Rightarrow> bngcarry \<Rightarrow> bngcarry \<times> memory" where
  "bng_generic_sub m a alen b blen carry0 =
     (let alen1 = alen - blen;
          (carry, m1) = bng_sub_loop m a b blen carry0
      in if carry = 0 \<or> alen1 = 0 then (carry, m1) else bng_decr_loop m1 (a + blen) alen1)"

primrec bng_shift_left_loop ::
    "memory \<Rightarrow> ptr \<Rightarrow> nat \<Rightarrow> nat \<Rightarrow> bngdigit \<Rightarrow> bngdigit \<times> memory" where
  "bng_shift_left_loop m a 0 shift carry = (carry, m)"
| "bng_shift_left_loop m a (Suc alen) shift carry =
     (let d = m a
      in bng_shift_left_loop (m(a := push_bit shift d OR carry)) (a + 1) alen shift
           (drop_bit (BNG_BITS_PER_DIGIT - shift) d))"

definition bng_generic_shift_left :: "memory \<Rightarrow> ptr \<Rightarrow> nat \<Rightarrow> nat \<Rightarrow> bngdigit \<times> memory" where
  "bng_generic_shift_left m a alen shift =
     (if shift > 0 then bng_shift_left_loop m a alen shift 0 else (0, m))"

text \<open>The right shift walks down from the most significant digit.\<close>

primrec bng_shift_right_loop ::
    "memory \<Rightarrow> ptr \<Rightarrow> nat \<Rightarrow> nat \<Rightarrow> bngdigit \<Rightarrow> bngdigit \<times> memory" where
  "bng_shift_right_loop m a 0 shift carry = (carry, m)"
| "bng_shift_right_loop m a (Suc alen) shift carry =
     (let d = m (a + alen)
      in bng_shift_right_loop (m(a + alen := drop_bit shift d OR carry)) a alen shift
           (push_bit (BNG_BITS_PER_DIGIT - shift) d))"

definition bng_generic_shift_right :: "memory \<Rightarrow> ptr \<Rightarrow> nat \<Rightarrow> nat \<Rightarrow> bngdigit \<times> memory" where
  "bng_generic_shift_right m a alen shift =
     (if shift > 0 then bng_shift_right_loop m a alen shift 0 else (0, m))"

primrec bng_mult_add_loop ::
    "memory \<Rightarrow> ptr \<Rightarrow> ptr \<Rightarrow> nat \<Rightarrow> bngdigit \<Rightarrow> bngdigit \<Rightarrow> bngdigit \<times> memory" where
  "bng_mult_add_loop m a b 0 d out = (out, m)"
| "bng_mult_add_loop m a b (Suc blen) d out =
     (let bd = m b;
          (ph, pl) = BngMult bd d;
          (r, ph') = BngAdd3 ph (m a) pl out
      in bng_mult_add_loop (m(a := r)) (a + 1) (b + 1) blen d ph')"

definition bng_generic_mult_add_digit ::
    "memory \<Rightarrow> ptr \<Rightarrow> nat \<Rightarrow> ptr \<Rightarrow> nat \<Rightarrow> bngdigit \<Rightarrow> bngdigit \<times> memory" where
  "bng_generic_mult_add_digit m a alen b blen d =
     (let alen1 = alen - blen;
          (out, m1) = bng_mult_add_loop m a b blen d 0
      in if alen1 = 0 then (out, m1)
         else let a1 = a + blen;
                  (r, carry) = BngAdd2 (m1 a1) out;
                  m2 = m1(a1 := r);
                  a2 = a1 + 1; alen2 = alen1 - 1
              in if carry = 0 \<or> alen2 = 0 then (ucast carry, m2)
                 else let (c, m3) = bng_incr_loop m2 a2 alen2 in (ucast c, m3))"

primrec bng_mult_sub_loop ::
    "memory \<Rightarrow> ptr \<Rightarrow> ptr \<Rightarrow> nat \<Rightarrow> bngdigit \<Rightarrow> bngdigit \<Rightarrow> bngdigit \<times> memory" where
  "bng_mult_sub_loop m a b 0 d out = (out, m)"
| "bng_mult_sub_loop m a b (Suc blen) d out =
     (let bd = m b;
          (ph, pl) = BngMult bd d;
          (r, ph') = BngSub3 ph (m a) pl out
      in bng_mult_sub_loop (m(a := r)) (a + 1) (b + 1) blen d ph')"

definition bng_generic_mult_sub_digit ::
    "memory \<Rightarrow> ptr \<Rightarrow> nat \<Rightarrow> ptr \<Rightarrow> nat \<Rightarrow> bngdigit \<Rightarrow> bngdigit \<times> memory" where
  "bng_generic_mult_sub_digit m a alen b blen d =
     (let alen1 = alen - blen;
          (out, m1) = bng_mult_sub_loop m a b blen d 0
      in if alen1 = 0 then (out, m1)
         else let a1 = a + blen;
                  (r, carry) = BngSub2 (m1 a1) out;
                  m2 = m1(a1 := r);
                  a2 = a1 + 1; alen2 = alen1 - 1
              in if carry = 0 \<or> alen2 = 0 then (ucast carry, m2)
                 else let (c, m3) = bng_decr_loop m2 a2 alen2 in (ucast c, m3))"

primrec bng_mult_add_rows ::
    "memory \<Rightarrow> ptr \<Rightarrow> nat \<Rightarrow> ptr \<Rightarrow> nat \<Rightarrow> ptr \<Rightarrow> nat \<Rightarrow> bngcarry \<Rightarrow> bngcarry \<times> memory" where
  "bng_mult_add_rows m a alen b blen c 0 carry = (carry, m)"
| "bng_mult_add_rows m a alen b blen c (Suc clen) carry =
     (let (out, m1) = bng_generic_mult_add_digit m a alen b blen (m c)
      in bng_mult_add_rows m1 (a + 1) (alen - 1) b blen (c + 1) clen (carry + ucast out))"

definition bng_generic_mult_add ::
    "memory \<Rightarrow> ptr \<Rightarrow> nat \<Rightarrow> ptr \<Rightarrow> nat \<Rightarrow> ptr \<Rightarrow> nat \<Rightarrow> bngcarry \<times> memory" where
  "bng_generic_mult_add m a alen b blen c clen = bng_mult_add_rows m a alen b blen c clen 0"

text \<open>
  Squaring: the loop over the double products with \<open>i = blen - k\<close> for \<open>k\<close>
  remaining rounds, the doubling shift, the squares of the digits, and the
  final carry propagation.
\<close>

primrec bng_square_rows ::
    "memory \<Rightarrow> ptr \<Rightarrow> nat \<Rightarrow> ptr \<Rightarrow> nat \<Rightarrow> nat \<Rightarrow> bngcarry \<Rightarrow> bngcarry \<times> memory" where
  "bng_square_rows m a alen b blen 0 carry1 = (carry1, m)"
| "bng_square_rows m a alen b blen (Suc k) carry1 =
     (let i = blen - Suc k; aofs = 2 * i - 1;
          (out, m1) = bng_generic_mult_add_digit m (a + aofs) (alen - aofs)
                        (b + i) (blen - i) (m (b + i - 1))
      in bng_square_rows m1 a alen b blen k (carry1 + ucast out))"

primrec bng_square_digits ::
    "memory \<Rightarrow> ptr \<Rightarrow> ptr \<Rightarrow> nat \<Rightarrow> bngcarry \<Rightarrow> bngcarry \<times> memory" where
  "bng_square_digits m a b 0 carry2 = (carry2, m)"
| "bng_square_digits m a b (Suc blen) carry2 =
     (let d = m b;
          (ph, pl) = BngMult d d;
          (r1, c1) = BngAdd2Carry (m a) pl carry2;
          m1 = m(a := r1);
          (r2, c2) = BngAdd2Carry (m1 (a + 1)) ph c1;
          m2 = m1(a + 1 := r2)
      in bng_square_digits m2 (a + 2) (b + 1) blen c2)"

definition bng_generic_square_add ::
    "memory \<Rightarrow> ptr \<Rightarrow> nat \<Rightarrow> ptr \<Rightarrow> nat \<Rightarrow> bngcarry \<times> memory" where
  "bng_generic_square_add m a alen b blen =
     (let (carry1, m1) = bng_square_rows m a alen b blen (blen - 1) 0;
          (bits_out, m2) = bng_generic_shift_left m1 a alen 1;
          carry1' = ucast (ucast (push_bit 1 carry1) OR bits_out) :: bngcarry;
          (carry2, m3) = bng_square_digits m2 a b blen 0;
          alen1 = alen - 2 * blen;
          (carry2', m4) = (if alen1 > 0 \<and> carry2 \<noteq> 0
                           then let (c, m4) = bng_incr_loop m3 (a + 2 * blen) alen1
                                in (if c = 0 then 0 else carry2, m4)
                           else (carry2, m3))
      in (carry1' + carry2', m4))"

section \<open>Division\<close>

primrec bng_div_rem_norm_loop ::
    "memory \<Rightarrow> ptr \<Rightarrow> ptr \<Rightarrow> nat \<Rightarrow> bngdigit \<Rightarrow> bngdigit \<Rightarrow> (bngdigit \<times> memory) option" where
  "bng_div_rem_norm_loop m a b 0 d topdigit = Some (topdigit, m)"
| "bng_div_rem_norm_loop m a b (Suc i) d topdigit =
     (case BngDiv topdigit (m (b + i)) d of None \<Rightarrow> None
      | Some (quo, rem) \<Rightarrow> bng_div_rem_norm_loop (m(a + i := quo)) a b i d rem)"

definition bng_generic_div_rem_norm_digit ::
    "memory \<Rightarrow> ptr \<Rightarrow> ptr \<Rightarrow> nat \<Rightarrow> bngdigit \<Rightarrow> (bngdigit \<times> memory) option" where
  "bng_generic_div_rem_norm_digit m a b len d =
     bng_div_rem_norm_loop m a b (len - 1) d (m (b + len - 1))"

definition bng_generic_div_rem_digit ::
    "memory \<Rightarrow> ptr \<Rightarrow> ptr \<Rightarrow> nat \<Rightarrow> bngdigit \<Rightarrow> (bngdigit \<times> memory) option" where
  "bng_generic_div_rem_digit m a b len d =
     (let shift = nat (bng_leading_zero_bits d);
          d1 = push_bit shift d;
          (_, m1) = bng_generic_shift_left m b len shift
      in case bng_generic_div_rem_norm_digit m1 a b len d1 of None \<Rightarrow> None
         | Some (rem, m2) \<Rightarrow>
             let (_, m3) = bng_generic_shift_right m2 b len shift
             in Some (drop_bit shift rem, m3))"

text \<open>
  The correction loop of the long division at position \<open>j = i + dlen\<close>; it does
  not end for a zero divisor.
\<close>

partial_function (option) bng_div_rem_adjust ::
    "memory \<Rightarrow> ptr \<Rightarrow> ptr \<Rightarrow> nat \<Rightarrow> nat \<Rightarrow> bngdigit \<Rightarrow> (bngdigit \<times> memory) option" where
  "bng_div_rem_adjust m n d dlen i quo =
     (if m (n + (i + dlen)) \<noteq> 0 \<or> bng_compare m (n + i) dlen d dlen \<ge> 0
      then let (c, m1) = bng_generic_sub m (n + i) dlen d dlen 0;
               m2 = m1(n + (i + dlen) := m1 (n + (i + dlen)) - ucast c)
           in bng_div_rem_adjust m2 n d dlen i (quo + 1)
      else Some (quo, m))"

primrec bng_div_rem_loop ::
    "memory \<Rightarrow> ptr \<Rightarrow> ptr \<Rightarrow> nat \<Rightarrow> bngdigit \<Rightarrow> nat \<Rightarrow> memory option" where
  "bng_div_rem_loop m n d dlen topden 0 = Some m"
| "bng_div_rem_loop m n d dlen topden (Suc i) =
     (let j = i + dlen in
      case (if topden + 1 = 0 then Some (m (n + j))
            else map_option fst (BngDiv (m (n + j)) (m (n + j - 1)) (topden + 1)))
      of None \<Rightarrow> None
      | Some quo \<Rightarrow>
        (let (out, m1) = bng_generic_mult_sub_digit m (n + i) dlen d dlen quo;
             m2 = m1(n + j := m1 (n + j) - out)
         in case bng_div_rem_adjust m2 n d dlen i quo of None \<Rightarrow> None
            | Some (quo', m3) \<Rightarrow>
                bng_div_rem_loop (m3(n + j := quo')) n d dlen topden i))"

definition bng_generic_div_rem :: "memory \<Rightarrow> ptr \<Rightarrow> nat \<Rightarrow> ptr \<Rightarrow> nat \<Rightarrow> memory option" where
  "bng_generic_div_rem m n nlen d dlen =
     (let shift = nat (bng_leading_zero_bits (m (d + dlen - 1)));
          (_, m1) = bng_generic_shift_left m n nlen shift;
          (_, m2) = bng_generic_shift_left m1 d dlen shift
      in case (if dlen = 1
               then map_option (\<lambda>(rem, m3). m3(n := rem))
                      (bng_generic_div_rem_norm_digit m2 (n + 1) n nlen (m2 d))
               else bng_div_rem_loop m2 n d dlen (m2 (d + dlen - 1)) (nlen - dlen))
         of None \<Rightarrow> None
         | Some m3 \<Rightarrow>
             (let (_, m4) = bng_generic_shift_right m3 n dlen shift;
                  (_, m5) = bng_generic_shift_right m4 d dlen shift
              in Some m5))"

end
