(* ===== verification/Bng_Arith.thy ===== *)
theory Bng_Arith
  imports Bng
begin

text \<open>
  Correctness of the bignum operations but division: the number that a run
  of digits denotes, what each operation makes of it, and the frame (only
  the digits of the destination are written). The equations keep the carry
  out as the digit above the run, so they say at once that the result is
  right modulo the capacity of the run and what the carry means.
\<close>

section \<open>The number denoted by a run of digits\<close>

primrec nval :: "memory \<Rightarrow> ptr \<Rightarrow> nat \<Rightarrow> nat" where
  "nval m a 0 = 0"
| "nval m a (Suc n) = unat (m a) + BASE * nval m (a + 1) n"

lemma nval_numeral [simp]:
  "nval m a (numeral k) = unat (m a) + BASE * nval m (a + 1) (pred_numeral k)"
  by (simp add: numeral_eq_Suc)

lemma nval_cong: "(\<And>i. i < n \<Longrightarrow> m (a + i) = m' (b + i)) \<Longrightarrow> nval m a n = nval m' b n"
proof (induction n arbitrary: a b)
  case (Suc n)
  have "nval m (a + 1) n = nval m' (b + 1) n"
    using Suc.prems [of "Suc i" for i] by (intro Suc.IH) simp
  then show ?case using Suc.prems [of 0] by simp
qed simp

lemma nval_append: "nval m a (n + k) = nval m a n + BASE ^ n * nval m (a + n) k"
  by (induction n arbitrary: a) (simp_all add: algebra_simps)

lemma nval_snoc: "nval m a (Suc n) = nval m a n + BASE ^ n * unat (m (a + n))"
  using nval_append [of m a n 1] by simp

lemma nval_lt: "nval m a n < BASE ^ n"
proof (induction n arbitrary: a)
  case (Suc n)
  have "unat (m a) + BASE * nval m (a + 1) n < BASE * (nval m (a + 1) n + 1)"
    using unat_lt_BASE [of "m a"] by (simp add: algebra_simps)
  also have "\<dots> \<le> BASE * BASE ^ n"
    using Suc.IH [of "a + 1"] by (intro mult_left_mono) simp_all
  finally show ?case by simp
qed simp

lemma nval_outside:
  assumes "eq_outside b k m m'" and "disjoint_regions a n b k"
  shows "nval m' a n = nval m a n"
proof (rule nval_cong)
  fix i assume "i < n"
  then have "a + i < b \<or> b + k \<le> a + i \<or> k = 0" using assms(2) by (auto simp: disjoint_regions_def)
  then show "m' (a + i) = m (a + i)" using assms(1) by (auto simp: eq_outside_def)
qed

lemma nval_upd_outside [simp]: "p < a \<or> a + n \<le> p \<Longrightarrow> nval (m(p := v)) a n = nval m a n"
  by (rule nval_cong) auto

text \<open>Equal numbers of equal lengths are equal runs.\<close>

lemma nval_inject: "nval m a n = nval m' b n \<Longrightarrow> i < n \<Longrightarrow> m (a + i) = m' (b + i)"
proof (induction n arbitrary: a b i)
  case (Suc n)
  have "unat (m a) = nval m a (Suc n) mod BASE" "unat (m' b) = nval m' b (Suc n) mod BASE"
    using unat_lt_BASE [of "m a"] unat_lt_BASE [of "m' b"] by simp_all
  then have hd: "unat (m a) = unat (m' b)" using Suc.prems(1) by (simp only:)
  then have tl: "nval m (a + 1) n = nval m' (b + 1) n" using Suc.prems(1) by simp
  show ?case
  proof (cases i)
    case 0
    then show ?thesis using hd by (simp add: unsigned_word_eqI)
  next
    case (Suc k)
    then show ?thesis using Suc.IH [OF tl, of k] Suc.prems(2) by simp
  qed
qed simp

lemma eq_outside_Suc:
  "eq_outside (a + 1) n (m(a := v)) m' \<Longrightarrow> eq_outside a (Suc n) m m' \<and> m' a = v"
  by (auto simp: eq_outside_def)

section \<open>Carry propagation\<close>

lemma bng_incr_loop_spec:
  assumes "bng_incr_loop m a n = (c, m')"
  shows "nval m' a n + unat c * BASE ^ n = nval m a n + 1 \<and> unat c \<le> 1 \<and> eq_outside a n m m'"
  using assms
proof (induction n arbitrary: m a)
  case 0
  then show ?case by auto
next
  case (Suc n)
  let ?m = "m(a := m a + 1)"
  show ?case
  proof (cases "m a + 1 = 0")
    case False
    then have "unat (m a + 1) = unat (m a) + 1"
      using unatSuc [of "m a"] by (simp add: add.commute)
    then show ?thesis using Suc.prems False by auto
  next
    case True
    then have "unat (m a) + 1 = BASE"
      using unat_lt_BASE [of "m a"] unat_add_BASE [of "m a" 1] by (simp split: if_splits)
    moreover have run: "bng_incr_loop ?m (a + 1) n = (c, m')" using Suc.prems True by simp
    have IH: "nval m' (a + 1) n + unat c * BASE ^ n = nval ?m (a + 1) n + 1
        \<and> unat c \<le> 1 \<and> eq_outside (a + 1) n ?m m'" by (rule Suc.IH [OF run])
    then have "BASE * (nval m' (a + 1) n + unat c * BASE ^ n) = BASE * (nval m (a + 1) n + 1)" by simp
    moreover from IH have "eq_outside a (Suc n) m m'" "m' a = 0"
      using eq_outside_Suc [of a n m "m a + 1" m'] True by auto
    ultimately show ?thesis using IH by (simp add: algebra_simps)
  qed
qed

lemma bng_decr_loop_spec:
  assumes "bng_decr_loop m a n = (c, m')"
  shows "nval m' a n + 1 = nval m a n + unat c * BASE ^ n \<and> unat c \<le> 1 \<and> eq_outside a n m m'"
  using assms
proof (induction n arbitrary: m a)
  case 0
  then show ?case by auto
next
  case (Suc n)
  let ?m = "m(a := m a - 1)"
  show ?case
  proof (cases "m a = 0")
    case False
    then have "unat (m a - 1) + 1 = unat (m a)"
      by (simp add: unat_minus_one unat_gt_0)
    then show ?thesis using Suc.prems False by auto
  next
    case True
    then have "unat (m a - 1) + 1 = BASE" using unat_sub_BASE [of "m a" 1] by simp
    moreover have run: "bng_decr_loop ?m (a + 1) n = (c, m')" using Suc.prems True by simp
    have IH: "nval m' (a + 1) n + 1 = nval ?m (a + 1) n + unat c * BASE ^ n
        \<and> unat c \<le> 1 \<and> eq_outside (a + 1) n ?m m'" by (rule Suc.IH [OF run])
    then have "BASE * (nval m' (a + 1) n + 1) = BASE * (nval m (a + 1) n + unat c * BASE ^ n)" by simp
    moreover from IH have "eq_outside a (Suc n) m m'" "m' a = m a - 1"
      using eq_outside_Suc [of a n m "m a - 1" m'] by auto
    ultimately show ?thesis using True IH by (simp add: algebra_simps)
  qed
qed

lemma bng_generic_add_carry_spec:
  assumes "bng_generic_add_carry m a alen c = (c', m')" and "unat c \<le> 1"
  shows "nval m' a alen + unat c' * BASE ^ alen = nval m a alen + unat c"
    and "unat c' \<le> 1" and "eq_outside a alen m m'"
proof -
  have "unat c = 1" if "c \<noteq> 0" using that assms(2) by (simp add: le_Suc_eq unat_eq_zero)
  then have "nval m' a alen + unat c' * BASE ^ alen = nval m a alen + unat c
      \<and> unat c' \<le> 1 \<and> eq_outside a alen m m'"
    using assms bng_incr_loop_spec [of m a alen c' m']
    by (auto simp: bng_generic_add_carry_def split: if_splits)
  then show "nval m' a alen + unat c' * BASE ^ alen = nval m a alen + unat c"
    "unat c' \<le> 1" "eq_outside a alen m m'" by auto
qed

lemma bng_generic_sub_carry_spec:
  assumes "bng_generic_sub_carry m a alen c = (c', m')" and "unat c \<le> 1"
  shows "nval m' a alen + unat c = nval m a alen + unat c' * BASE ^ alen"
    and "unat c' \<le> 1" and "eq_outside a alen m m'"
proof -
  have "unat c = 1" if "c \<noteq> 0" using that assms(2) by (simp add: le_Suc_eq unat_eq_zero)
  then have "nval m' a alen + unat c = nval m a alen + unat c' * BASE ^ alen
      \<and> unat c' \<le> 1 \<and> eq_outside a alen m m'"
    using assms bng_decr_loop_spec [of m a alen c' m']
    by (auto simp: bng_generic_sub_carry_def split: if_splits)
  then show "nval m' a alen + unat c = nval m a alen + unat c' * BASE ^ alen"
    "unat c' \<le> 1" "eq_outside a alen m m'" by auto
qed

section \<open>Addition and subtraction\<close>

text \<open>
  The operands may be disjoint, or \<open>b\<close> may start where \<open>a\<close> does (\<open>x + x\<close>):
  what matters is that no digit of \<open>b\<close> is written before it is read.
\<close>

definition read_ahead :: "ptr \<Rightarrow> nat \<Rightarrow> ptr \<Rightarrow> bool" where
  "read_ahead a n b \<longleftrightarrow> a \<le> b \<or> b + n \<le> a"

lemma nval_read_ahead:
  "read_ahead a (Suc n) b \<Longrightarrow> nval (m(a := v)) (b + 1) n = nval m (b + 1) n"
  by (rule nval_upd_outside) (auto simp: read_ahead_def)

lemma read_ahead_Suc: "read_ahead a (Suc n) b \<Longrightarrow> read_ahead (a + 1) n (b + 1)"
  by (auto simp: read_ahead_def)

lemma bng_add_loop_spec:
  assumes "bng_add_loop m a b n c = (c', m')" and "unat c \<le> 1" and "read_ahead a n b"
  shows "nval m' a n + unat c' * BASE ^ n = nval m a n + nval m b n + unat c
    \<and> unat c' \<le> 1 \<and> eq_outside a n m m'"
  using assms
proof (induction n arbitrary: m a b c)
  case 0
  then show ?case by auto
next
  case (Suc n)
  obtain r c1 where d: "BngAdd2Carry (m a) (m b) c = (r, c1)" by force
  note digit = BngAdd2Carry_exact [OF d Suc.prems(2)]
  have run: "bng_add_loop (m(a := r)) (a + 1) (b + 1) n c1 = (c', m')"
    using Suc.prems(1) d by simp
  have IH: "nval m' (a + 1) n + unat c' * BASE ^ n
      = nval (m(a := r)) (a + 1) n + nval (m(a := r)) (b + 1) n + unat c1
      \<and> unat c' \<le> 1 \<and> eq_outside (a + 1) n (m(a := r)) m'"
    by (rule Suc.IH [OF run digit(2) read_ahead_Suc [OF Suc.prems(3)]])
  from IH have out: "eq_outside a (Suc n) m m'" "m' a = r"
    using eq_outside_Suc [of a n m r m'] by auto
  from IH have "nval m' (a + 1) n + unat c' * BASE ^ n = nval m (a + 1) n + nval m (b + 1) n + unat c1"
    using nval_read_ahead [OF Suc.prems(3)] by simp
  then have "BASE * (nval m' (a + 1) n + unat c' * BASE ^ n)
      = BASE * (nval m (a + 1) n + nval m (b + 1) n + unat c1)" by (simp only:)
  then show ?case using IH out digit(1) by (simp add: algebra_simps)
qed

lemma bng_sub_loop_spec:
  assumes "bng_sub_loop m a b n c = (c', m')" and "unat c \<le> 1" and "read_ahead a n b"
  shows "nval m' a n + nval m b n + unat c = nval m a n + unat c' * BASE ^ n
    \<and> unat c' \<le> 1 \<and> eq_outside a n m m'"
  using assms
proof (induction n arbitrary: m a b c)
  case 0
  then show ?case by auto
next
  case (Suc n)
  obtain r c1 where d: "BngSub2Carry (m a) (m b) c = (r, c1)" by force
  note digit = BngSub2Carry_exact [OF d Suc.prems(2)]
  have run: "bng_sub_loop (m(a := r)) (a + 1) (b + 1) n c1 = (c', m')"
    using Suc.prems(1) d by simp
  have IH: "nval m' (a + 1) n + nval (m(a := r)) (b + 1) n + unat c1
      = nval (m(a := r)) (a + 1) n + unat c' * BASE ^ n
      \<and> unat c' \<le> 1 \<and> eq_outside (a + 1) n (m(a := r)) m'"
    by (rule Suc.IH [OF run digit(2) read_ahead_Suc [OF Suc.prems(3)]])
  from IH have out: "eq_outside a (Suc n) m m'" "m' a = r"
    using eq_outside_Suc [of a n m r m'] by auto
  from IH have "nval m' (a + 1) n + nval m (b + 1) n + unat c1 = nval m (a + 1) n + unat c' * BASE ^ n"
    using nval_read_ahead [OF Suc.prems(3)] by simp
  then have "BASE * (nval m' (a + 1) n + nval m (b + 1) n + unat c1)
      = BASE * (nval m (a + 1) n + unat c' * BASE ^ n)" by (simp only:)
  then show ?case using IH out digit(1) by (simp add: algebra_simps)
qed

lemma carry_cases: "unat (c :: u32) \<le> 1 \<Longrightarrow> c = 0 \<or> unat c = 1"
  by (auto simp: le_Suc_eq unat_eq_zero)

lemma nval_split: "k \<le> n \<Longrightarrow> nval m a n = nval m a k + BASE ^ k * nval m (a + k) (n - k)"
  using nval_append [of m a k "n - k"] by simp

lemma BASE_power_split: "k \<le> n \<Longrightarrow> BASE ^ n = BASE ^ k * BASE ^ (n - k)"
  by (simp flip: power_add)

text \<open>
  A result on the low \<open>k\<close> digits with carry \<open>c\<close>, followed by the propagation
  of \<open>c\<close> through the remaining digits, is a result on all digits.
\<close>

lemma carry_up:
  assumes low: "nval m1 a k + unat (c1 :: u32) * BASE ^ k = X" and out1: "eq_outside a k m m1"
    and "unat c1 \<le> 1" and "k \<le> n"
    and run: "(if c1 = 0 \<or> n - k = 0 then (c1, m1) else bng_incr_loop m1 (a + k) (n - k)) = (c', m')"
  shows "nval m' a n + unat c' * BASE ^ n = X + BASE ^ k * nval m (a + k) (n - k)"
    and "unat c' \<le> 1" and "eq_outside a n m m'"
proof -
  have hi: "nval m1 (a + k) (n - k) = nval m (a + k) (n - k)"
    using out1 by (rule nval_outside) (auto simp: disjoint_regions_def)
  have mid: "nval m' (a + k) (n - k) + unat c' * BASE ^ (n - k) = nval m1 (a + k) (n - k) + unat c1
      \<and> unat c' \<le> 1 \<and> eq_outside (a + k) (n - k) m1 m'"
    using run assms(3) carry_cases [OF assms(3)] bng_incr_loop_spec [of m1 "a + k" "n - k" c' m']
    by (auto split: if_splits)
  then have lo: "nval m' a k = nval m1 a k"
    by (intro nval_outside [of "a + k" "n - k"]) (auto simp: disjoint_regions_def)
  have "BASE ^ k * (nval m' (a + k) (n - k) + unat c' * BASE ^ (n - k))
      = BASE ^ k * (nval m (a + k) (n - k) + unat c1)" using mid hi by (simp only:)
  then show "nval m' a n + unat c' * BASE ^ n = X + BASE ^ k * nval m (a + k) (n - k)"
    using low lo by (simp add: nval_split [OF assms(4)] BASE_power_split [OF assms(4)] algebra_simps)
  show "unat c' \<le> 1" using mid by simp
  show "eq_outside a n m m'"
    using mid assms(4) eq_outside_mono [OF out1, of a n]
      eq_outside_mono [of "a + k" "n - k" m1 m' a n] eq_outside_trans by auto
qed

lemma borrow_up:
  assumes low: "nval m1 a k + Y = nval m a k + unat (c1 :: u32) * BASE ^ k"
    and out1: "eq_outside a k m m1" and "unat c1 \<le> 1" and "k \<le> n"
    and run: "(if c1 = 0 \<or> n - k = 0 then (c1, m1) else bng_decr_loop m1 (a + k) (n - k)) = (c', m')"
  shows "nval m' a n + Y = nval m a n + unat c' * BASE ^ n"
    and "unat c' \<le> 1" and "eq_outside a n m m'"
proof -
  have hi: "nval m1 (a + k) (n - k) = nval m (a + k) (n - k)"
    using out1 by (rule nval_outside) (auto simp: disjoint_regions_def)
  have mid: "nval m' (a + k) (n - k) + unat c1 = nval m1 (a + k) (n - k) + unat c' * BASE ^ (n - k)
      \<and> unat c' \<le> 1 \<and> eq_outside (a + k) (n - k) m1 m'"
    using run assms(3) carry_cases [OF assms(3)] bng_decr_loop_spec [of m1 "a + k" "n - k" c' m']
    by (auto split: if_splits)
  then have lo: "nval m' a k = nval m1 a k"
    by (intro nval_outside [of "a + k" "n - k"]) (auto simp: disjoint_regions_def)
  have "BASE ^ k * (nval m' (a + k) (n - k) + unat c1)
      = BASE ^ k * (nval m (a + k) (n - k) + unat c' * BASE ^ (n - k))" using mid hi by (simp only:)
  then show "nval m' a n + Y = nval m a n + unat c' * BASE ^ n"
    using low lo by (simp add: nval_split [OF assms(4)] BASE_power_split [OF assms(4)] algebra_simps)
  show "unat c' \<le> 1" using mid by simp
  show "eq_outside a n m m'"
    using mid assms(4) eq_outside_mono [OF out1, of a n]
      eq_outside_mono [of "a + k" "n - k" m1 m' a n] eq_outside_trans by auto
qed

lemma bng_generic_add_spec:
  assumes run: "bng_generic_add m a alen b blen c = (c', m')"
    and "blen \<le> alen" and "unat c \<le> 1" and "read_ahead a blen b"
  shows "nval m' a alen + unat c' * BASE ^ alen = nval m a alen + nval m b blen + unat c"
    and "unat c' \<le> 1" and "eq_outside a alen m m'"
proof -
  obtain c1 m1 where l: "bng_add_loop m a b blen c = (c1, m1)" by force
  note loop = bng_add_loop_spec [OF l assms(3,4)]
  have r: "(if c1 = 0 \<or> alen - blen = 0 then (c1, m1)
      else bng_incr_loop m1 (a + blen) (alen - blen)) = (c', m')"
    using run l by (simp add: bng_generic_add_def Let_def)
  note up = carry_up [OF conjunct1 [OF loop] _ _ assms(2) r, of m]
  show "nval m' a alen + unat c' * BASE ^ alen = nval m a alen + nval m b blen + unat c"
    using up(1) loop nval_split [OF assms(2), of m a] by simp
  show "unat c' \<le> 1" "eq_outside a alen m m'" using up(2,3) loop by auto
qed

lemma bng_generic_sub_spec:
  assumes run: "bng_generic_sub m a alen b blen c = (c', m')"
    and "blen \<le> alen" and "unat c \<le> 1" and "read_ahead a blen b"
  shows "nval m' a alen + (nval m b blen + unat c) = nval m a alen + unat c' * BASE ^ alen"
    and "unat c' \<le> 1" and "eq_outside a alen m m'"
proof -
  obtain c1 m1 where l: "bng_sub_loop m a b blen c = (c1, m1)" by force
  note loop = bng_sub_loop_spec [OF l assms(3,4)]
  have low: "nval m1 a blen + (nval m b blen + unat c) = nval m a blen + unat c1 * BASE ^ blen"
    using loop by simp
  have r: "(if c1 = 0 \<or> alen - blen = 0 then (c1, m1)
      else bng_decr_loop m1 (a + blen) (alen - blen)) = (c', m')"
    using run l by (simp add: bng_generic_sub_def Let_def)
  note up = borrow_up [OF low _ _ assms(2) r]
  show "nval m' a alen + (nval m b blen + unat c) = nval m a alen + unat c' * BASE ^ alen"
    "unat c' \<le> 1" "eq_outside a alen m m'" using up loop by auto
qed

end
