(* ===== verification/Bng_Mult.thy ===== *)
theory Bng_Mult
  imports Bng_Arith
begin

text \<open>Shifts, multiplication and squaring of runs of digits.\<close>

section \<open>Shifts\<close>

lemma shift_left_digit:
  assumes "0 < s" and "s < 64" and "unat (c :: bngdigit) < 2 ^ s"
  shows "unat (push_bit s d OR c) + BASE * unat (drop_bit (64 - s) d) = unat d * 2 ^ s + unat c"
    and "unat (drop_bit (64 - s) d) < 2 ^ s"
proof -
  have B: "BASE = 2 ^ (64 - s) * 2 ^ s" using assms(2) by (simp add: BASE_def flip: power_add)
  have dr: "unat (drop_bit (64 - s) d) = unat d * 2 ^ s div BASE"
    unfolding B by (simp add: unat_drop_bit_u64)
  have "unat (push_bit s d) = unat d * 2 ^ s mod BASE" by (simp only: unat_push_bit_u64 BASE_def)
  then show "unat (push_bit s d OR c) + BASE * unat (drop_bit (64 - s) d) = unat d * 2 ^ s + unat c"
    by (simp add: unat_push_bit_or [OF assms(3)] dr)
  have "unat d * 2 ^ s < BASE * 2 ^ s" using unat_lt_BASE [of d] by simp
  then show "unat (drop_bit (64 - s) d) < 2 ^ s" unfolding dr by (simp add: less_mult_imp_div_less mult.commute)
qed

lemma bng_shift_left_loop_spec:
  assumes "bng_shift_left_loop m a n s c = (c', m')" and "0 < s" and "s < 64" and "unat c < 2 ^ s"
  shows "nval m' a n + unat c' * BASE ^ n = nval m a n * 2 ^ s + unat c
    \<and> unat c' < 2 ^ s \<and> eq_outside a n m m'"
  using assms(1,4)
proof (induction n arbitrary: m a c)
  case 0
  then show ?case by auto
next
  case (Suc n)
  let ?r = "push_bit s (m a) OR c" and ?c = "drop_bit (64 - s) (m a)"
  let ?m = "m(a := ?r)"
  note digit = shift_left_digit [OF assms(2,3) Suc.prems(2), of "m a"]
  have run: "bng_shift_left_loop ?m (a + 1) n s ?c = (c', m')"
    using Suc.prems(1) by (simp add: Let_def)
  have IH: "nval m' (a + 1) n + unat c' * BASE ^ n = nval ?m (a + 1) n * 2 ^ s + unat ?c
      \<and> unat c' < 2 ^ s \<and> eq_outside (a + 1) n ?m m'" by (rule Suc.IH [OF run digit(2)])
  from IH have out: "eq_outside a (Suc n) m m'" "m' a = ?r"
    using eq_outside_Suc [of a n m ?r m'] by auto
  from IH have "BASE * (nval m' (a + 1) n + unat c' * BASE ^ n)
      = BASE * (nval m (a + 1) n * 2 ^ s + unat ?c)" by simp
  then show ?case using IH out digit(1) by (simp add: algebra_simps)
qed

lemma bng_generic_shift_left_spec:
  assumes "bng_generic_shift_left m a n s = (c, m')" and "s < 64"
  shows "nval m' a n + unat c * BASE ^ n = nval m a n * 2 ^ s"
    and "unat c < 2 ^ s" and "eq_outside a n m m'"
  using assms bng_shift_left_loop_spec [of m a n s 0 c m']
  by (auto simp: bng_generic_shift_left_def split: if_splits)

lemma shift_right_digit:
  assumes "0 < s" and "s < 64" and "x < 2 ^ s" and "unat (c :: bngdigit) = x * 2 ^ (64 - s)"
  shows "x * BASE + unat d = unat (drop_bit s d OR c) * 2 ^ s + unat d mod 2 ^ s"
    and "unat (push_bit (64 - s) d) = unat d mod 2 ^ s * 2 ^ (64 - s)"
proof -
  have B: "BASE = 2 ^ (64 - s) * 2 ^ s" "BASE = 2 ^ s * 2 ^ (64 - s)"
    using assms(2) by (simp_all add: BASE_def flip: power_add)
  have "unat (push_bit (64 - s) d) = unat d * 2 ^ (64 - s) mod BASE"
    by (simp only: unat_push_bit_u64 BASE_def)
  then show "unat (push_bit (64 - s) d) = unat d mod 2 ^ s * 2 ^ (64 - s)"
    unfolding B(2) by (simp add: mult_mod_left)
  have "unat (of_nat x :: bngdigit) = x"
  proof -
    have "x < 2 ^ 64" using assms(2,3) power_strict_increasing [of s 64 "2::nat"] by linarith
    then show ?thesis by (simp add: unsigned_of_nat take_bit_nat_eq_self)
  qed
  then have "unat (push_bit (64 - s) (of_nat x :: bngdigit)) = x * 2 ^ (64 - s) mod BASE"
    by (simp only: unat_push_bit_u64 BASE_def)
  also have "\<dots> = x * 2 ^ (64 - s)" using assms(3) unfolding B(2) by simp
  finally have c: "c = push_bit (64 - s) (of_nat x)"
    using assms(4) by (metis unsigned_word_eqI)
  have dr: "unat (drop_bit s d) = unat d div 2 ^ s" by (rule unat_drop_bit_u64)
  have "unat d div 2 ^ s < 2 ^ (64 - s)"
    using unat_lt_BASE [of d] unfolding B(2) by (simp add: less_mult_imp_div_less mult.commute)
  then have "unat (drop_bit s d OR c) = unat d div 2 ^ s + x * 2 ^ (64 - s)"
    using assms(4) c by (simp only: unat_or_push_bit dr)
  then have "unat (drop_bit s d OR c) * 2 ^ s = unat d div 2 ^ s * 2 ^ s + x * BASE"
    by (simp only: B(1) distrib_right mult.assoc)
  then show "x * BASE + unat d = unat (drop_bit s d OR c) * 2 ^ s + unat d mod 2 ^ s"
    using div_mult_mod_eq [of "unat d" "2 ^ s"] by linarith
qed

lemma bng_shift_right_loop_spec:
  assumes "bng_shift_right_loop m a n s c = (c', m')" and s: "0 < s" "s < 64"
    and "x < 2 ^ s" and "unat c = x * 2 ^ (64 - s)"
  shows "\<exists>y. unat c' = y * 2 ^ (64 - s) \<and> y < 2 ^ s
    \<and> x * BASE ^ n + nval m a n = nval m' a n * 2 ^ s + y \<and> eq_outside a n m m'"
  using assms(1,4,5)
proof (induction n arbitrary: m c x)
  case 0
  then show ?case by auto
next
  case (Suc n)
  let ?d = "m (a + n)" and ?c = "push_bit (64 - s) (m (a + n))"
  let ?r = "drop_bit s ?d OR c" and ?x = "unat (m (a + n)) mod 2 ^ s"
  let ?m = "m(a + n := ?r)"
  note digit = shift_right_digit [OF s Suc.prems(2,3), of ?d]
  have run: "bng_shift_right_loop ?m a n s ?c = (c', m')"
    using Suc.prems(1) by (simp add: Let_def)
  have "\<exists>y. unat c' = y * 2 ^ (64 - s) \<and> y < 2 ^ s
      \<and> ?x * BASE ^ n + nval ?m a n = nval m' a n * 2 ^ s + y \<and> eq_outside a n ?m m'"
    using digit(2) by (intro Suc.IH [OF run]) simp_all
  then obtain y where y: "unat c' = y * 2 ^ (64 - s)" "y < 2 ^ s"
    and eq: "?x * BASE ^ n + nval m a n = nval m' a n * 2 ^ s + y" and out: "eq_outside a n ?m m'"
    by auto
  from out have bits_out: "m' (a + n) = ?r" by (simp add: eq_outside_def)
  have "eq_outside a (Suc n) m m'" using out by (auto simp: eq_outside_def)
  moreover have "x * BASE ^ Suc n + nval m a (Suc n) = (x * BASE + unat ?d) * BASE ^ n + nval m a n"
    unfolding nval_snoc by (simp add: algebra_simps)
  then have "x * BASE ^ Suc n + nval m a (Suc n) = nval m' a (Suc n) * 2 ^ s + y"
    using eq unfolding digit(1) nval_snoc [of m'] bits_out by (simp add: algebra_simps)
  ultimately show ?case using y by blast
qed

lemma bng_generic_shift_right_spec:
  assumes "bng_generic_shift_right m a n s = (c, m')" and "s < 64"
  shows "nval m' a n = nval m a n div 2 ^ s" and "eq_outside a n m m'"
    and "unat c = (if s = 0 then 0 else nval m a n mod 2 ^ s * 2 ^ (64 - s))"
proof -
  have "nval m' a n = nval m a n div 2 ^ s \<and> eq_outside a n m m'
    \<and> unat c = (if s = 0 then 0 else nval m a n mod 2 ^ s * 2 ^ (64 - s))"
  proof (cases "s = 0")
    case True
    then show ?thesis using assms by (auto simp: bng_generic_shift_right_def)
  next
    case False
    then obtain y where "unat c = y * 2 ^ (64 - s)" "y < 2 ^ s"
      "nval m a n = nval m' a n * 2 ^ s + y" "eq_outside a n m m'"
      using assms bng_shift_right_loop_spec [of m a n s 0 c m' 0]
      by (auto simp: bng_generic_shift_right_def)
    then show ?thesis using False by simp
  qed
  then show "nval m' a n = nval m a n div 2 ^ s" "eq_outside a n m m'"
    "unat c = (if s = 0 then 0 else nval m a n mod 2 ^ s * 2 ^ (64 - s))" by auto
qed

section \<open>Multiplication by one digit\<close>

lemma mult_add_lt:
  fixes x y z w b :: nat
  assumes "x < b" "y < b" "z < b" "w < b"
  shows "x * y + z + w < b * b"
proof -
  obtain k where k: "b = Suc k" using assms(1) by (cases b) auto
  have "x * y \<le> k * k" using assms(1,2) k by (intro mult_mono) auto
  then show ?thesis using assms(3,4) k by auto
qed

lemma bng_mult_add_loop_spec:
  assumes "bng_mult_add_loop m a b n d out = (out', m')" and "read_ahead a n b"
  shows "nval m' a n + unat out' * BASE ^ n = nval m a n + nval m b n * unat d + unat out
    \<and> eq_outside a n m m'"
  using assms
proof (induction n arbitrary: m a b out)
  case 0
  then show ?case by auto
next
  case (Suc n)
  obtain ph pl where p: "BngMult (m b) d = (ph, pl)" by force
  obtain r ph' where r: "BngAdd3 ph (m a) pl out = (r, ph')" by force
  note prod = BngMult_exact [OF p]
  have "unat ph * BASE + (unat (m a) + unat pl + unat out) < BASE * BASE"
    using mult_add_lt [of "unat (m b)" BASE "unat d" "unat (m a)" "unat out"] prod
    by (simp add: unat_lt_BASE algebra_simps)
  note digit = BngAdd3_exact [OF r this]
  have run: "bng_mult_add_loop (m(a := r)) (a + 1) (b + 1) n d ph' = (out', m')"
    using Suc.prems(1) p r by simp
  have IH: "nval m' (a + 1) n + unat out' * BASE ^ n
      = nval (m(a := r)) (a + 1) n + nval (m(a := r)) (b + 1) n * unat d + unat ph'
      \<and> eq_outside (a + 1) n (m(a := r)) m'"
    by (rule Suc.IH [OF run read_ahead_Suc [OF Suc.prems(2)]])
  from IH have o: "eq_outside a (Suc n) m m'" "m' a = r"
    using eq_outside_Suc [of a n m r m'] by auto
  from IH have "BASE * (nval m' (a + 1) n + unat out' * BASE ^ n)
      = BASE * (nval m (a + 1) n + nval m (b + 1) n * unat d + unat ph')"
    using nval_read_ahead [OF Suc.prems(2)] by simp
  then show ?case using o digit prod by (simp add: algebra_simps)
qed

lemma bng_mult_sub_loop_spec:
  assumes "bng_mult_sub_loop m a b n d out = (out', m')" and "read_ahead a n b"
  shows "nval m' a n + (nval m b n * unat d + unat out) = nval m a n + unat out' * BASE ^ n
    \<and> eq_outside a n m m'"
  using assms
proof (induction n arbitrary: m a b out)
  case 0
  then show ?case by auto
next
  case (Suc n)
  obtain ph pl where p: "BngMult (m b) d = (ph, pl)" by force
  obtain r ph' where r: "BngSub3 ph (m a) pl out = (r, ph')" by force
  note prod = BngMult_exact [OF p]
  have "unat ph * BASE + (unat pl + unat out) + BASE \<le> BASE * BASE"
  proof -
    obtain k where k: "BASE = Suc k" using BASE_pos gr0_implies_Suc by blast
    have "unat (m b) * unat d \<le> k * k"
      using unat_lt_BASE [of "m b"] unat_lt_BASE [of d] k by (intro mult_mono) auto
    moreover have "BASE * BASE = k * k + 2 * k + 1" by (simp add: k)
    ultimately show ?thesis using prod unat_lt_BASE [of out] k by linarith
  qed
  note digit = BngSub3_exact [OF r this]
  have run: "bng_mult_sub_loop (m(a := r)) (a + 1) (b + 1) n d ph' = (out', m')"
    using Suc.prems(1) p r by simp
  have IH: "nval m' (a + 1) n + (nval (m(a := r)) (b + 1) n * unat d + unat ph')
      = nval (m(a := r)) (a + 1) n + unat out' * BASE ^ n
      \<and> eq_outside (a + 1) n (m(a := r)) m'"
    by (rule Suc.IH [OF run read_ahead_Suc [OF Suc.prems(2)]])
  from IH have o: "eq_outside a (Suc n) m m'" "m' a = r"
    using eq_outside_Suc [of a n m r m'] by auto
  from IH have "BASE * (nval m' (a + 1) n + (nval m (b + 1) n * unat d + unat ph'))
      = BASE * (nval m (a + 1) n + unat out' * BASE ^ n)"
    using nval_read_ahead [OF Suc.prems(2)] by simp
  then show ?case using o digit prod by (simp add: algebra_simps)
qed

text \<open>
  With room above \<open>b\<close> in \<open>a\<close>, the digit \<open>out\<close> goes into the next digit and
  at most a carry of one leaves the run.
\<close>

lemma bng_generic_mult_add_digit_spec:
  assumes run: "bng_generic_mult_add_digit m a alen b blen d = (out, m')"
    and "blen \<le> alen" and "read_ahead a blen b"
  shows "nval m' a alen + unat out * BASE ^ alen = nval m a alen + nval m b blen * unat d"
    and "blen < alen \<Longrightarrow> unat out \<le> 1" and "eq_outside a alen m m'"
proof -
  obtain o1 m1 where l: "bng_mult_add_loop m a b blen d 0 = (o1, m1)" by force
  note loop = bng_mult_add_loop_spec [OF l assms(3)]
  have "nval m' a alen + unat out * BASE ^ alen = nval m a alen + nval m b blen * unat d
      \<and> (blen < alen \<longrightarrow> unat out \<le> 1) \<and> eq_outside a alen m m'"
  proof (cases "alen = blen")
    case True
    then show ?thesis using run l loop by (simp add: bng_generic_mult_add_digit_def Let_def)
  next
    case False
    then have le: "Suc blen \<le> alen" using assms(2) by simp
    obtain r c where ad: "BngAdd2 (m1 (a + blen)) o1 = (r, c)" by force
    note add = BngAdd2_exact [OF ad]
    define m2 where "m2 = m1(a + blen := r)"
    obtain c' m3 where r3: "(if c = 0 \<or> alen - Suc blen = 0 then (c, m2)
        else bng_incr_loop m2 (a + Suc blen) (alen - Suc blen)) = (c', m3)" by force
    have fin: "out = ucast c'" "m' = m3"
      using run l ad r3 False le
      by (auto simp: bng_generic_mult_add_digit_def Let_def m2_def split: if_splits prod.splits)
    have o2: "eq_outside a (Suc blen) m m2" using loop by (auto simp: m2_def eq_outside_def)
    have hd: "m1 (a + blen) = m (a + blen)" using loop by (simp add: eq_outside_def)
    have "BASE ^ blen * (unat r + unat c * BASE) = BASE ^ blen * (unat (m (a + blen)) + unat o1)"
      using add(1) hd by (simp only:)
    then have low: "nval m2 a (Suc blen) + unat c * BASE ^ Suc blen
        = nval m a (Suc blen) + nval m b blen * unat d"
      using loop unfolding nval_snoc by (simp add: m2_def algebra_simps)
    note up = carry_up [OF low o2 add(2) le r3]
    show ?thesis using up fin nval_split [OF le, of m a] by (simp add: algebra_simps)
  qed
  then show "nval m' a alen + unat out * BASE ^ alen = nval m a alen + nval m b blen * unat d"
    "blen < alen \<Longrightarrow> unat out \<le> 1" "eq_outside a alen m m'" by auto
qed

lemma bng_generic_mult_sub_digit_spec:
  assumes run: "bng_generic_mult_sub_digit m a alen b blen d = (out, m')"
    and "blen \<le> alen" and "read_ahead a blen b"
  shows "nval m' a alen + nval m b blen * unat d = nval m a alen + unat out * BASE ^ alen"
    and "blen < alen \<Longrightarrow> unat out \<le> 1" and "eq_outside a alen m m'"
proof -
  obtain o1 m1 where l: "bng_mult_sub_loop m a b blen d 0 = (o1, m1)" by force
  note loop = bng_mult_sub_loop_spec [OF l assms(3)]
  have "nval m' a alen + nval m b blen * unat d = nval m a alen + unat out * BASE ^ alen
      \<and> (blen < alen \<longrightarrow> unat out \<le> 1) \<and> eq_outside a alen m m'"
  proof (cases "alen = blen")
    case True
    then show ?thesis using run l loop by (simp add: bng_generic_mult_sub_digit_def Let_def)
  next
    case False
    then have le: "Suc blen \<le> alen" using assms(2) by simp
    obtain r c where sb: "BngSub2 (m1 (a + blen)) o1 = (r, c)" by force
    note sub = BngSub2_exact [OF sb]
    define m2 where "m2 = m1(a + blen := r)"
    obtain c' m3 where r3: "(if c = 0 \<or> alen - Suc blen = 0 then (c, m2)
        else bng_decr_loop m2 (a + Suc blen) (alen - Suc blen)) = (c', m3)" by force
    have fin: "out = ucast c'" "m' = m3"
      using run l sb r3 False le
      by (auto simp: bng_generic_mult_sub_digit_def Let_def m2_def split: if_splits prod.splits)
    have o2: "eq_outside a (Suc blen) m m2" using loop by (auto simp: m2_def eq_outside_def)
    have hd: "m1 (a + blen) = m (a + blen)" using loop by (simp add: eq_outside_def)
    have "BASE ^ blen * (unat r + unat o1) = BASE ^ blen * (unat (m (a + blen)) + unat c * BASE)"
      using sub(1) hd by (simp only:)
    then have low: "nval m2 a (Suc blen) + nval m b blen * unat d
        = nval m a (Suc blen) + unat c * BASE ^ Suc blen"
      using loop unfolding nval_snoc by (simp add: m2_def algebra_simps)
    note up = borrow_up [OF low o2 sub(2) le r3]
    show ?thesis using up fin by (simp add: algebra_simps)
  qed
  then show "nval m' a alen + nval m b blen * unat d = nval m a alen + unat out * BASE ^ alen"
    "blen < alen \<Longrightarrow> unat out \<le> 1" "eq_outside a alen m m'" by auto
qed

section \<open>Multiplication of runs\<close>

text \<open>An operation on the run from digit \<open>k\<close> on is an operation on the whole run, scaled.\<close>

lemma lift_run:
  assumes "nval m' (a + k) (n - k) + t * BASE ^ (n - k) = nval m (a + k) (n - k) + X"
    and "eq_outside (a + k) (n - k) m m'" and "k \<le> n"
  shows "nval m' a n + t * BASE ^ n = nval m a n + BASE ^ k * X" and "eq_outside a n m m'"
proof -
  have lo: "nval m' a k = nval m a k"
    using assms(2) by (rule nval_outside) (auto simp: disjoint_regions_def)
  have "BASE ^ k * (nval m' (a + k) (n - k) + t * BASE ^ (n - k))
      = BASE ^ k * (nval m (a + k) (n - k) + X)" using assms(1) by (simp only:)
  then show "nval m' a n + t * BASE ^ n = nval m a n + BASE ^ k * X"
    using lo by (simp add: nval_split [OF assms(3)] BASE_power_split [OF assms(3)] algebra_simps)
  show "eq_outside a n m m'" using assms(2) by (rule eq_outside_mono) (use assms(3) in auto)
qed

lemma disjoint_read_ahead: "disjoint_regions a n b k \<Longrightarrow> k \<le> n \<Longrightarrow> read_ahead a k b"
  by (auto simp: disjoint_regions_def read_ahead_def)

text \<open>The rows of the schoolbook multiplication: \<open>t\<close> counts the carries out of the run.\<close>

lemma bng_mult_add_rows_spec:
  assumes "bng_mult_add_rows m a alen b blen c clen carry = (carry', m')"
    and "blen + clen \<le> alen"
    and "disjoint_regions a alen b blen" and "disjoint_regions a alen c clen"
  shows "\<exists>t. carry' = carry + of_nat t
    \<and> nval m' a alen + t * BASE ^ alen = nval m a alen + nval m b blen * nval m c clen
    \<and> eq_outside a alen m m'"
  using assms
proof (induction clen arbitrary: m a alen c carry)
  case 0
  then show ?case by (intro exI [of _ 0]) auto
next
  case (Suc clen)
  obtain out m1 where row: "bng_generic_mult_add_digit m a alen b blen (m c) = (out, m1)" by force
  have ra: "read_ahead a blen b" using Suc.prems(2,3) by (intro disjoint_read_ahead) auto
  note r = bng_generic_mult_add_digit_spec [OF row _ ra]
  have run: "bng_mult_add_rows m1 (a + 1) (alen - 1) b blen (c + 1) clen (carry + ucast out)
      = (carry', m')" using Suc.prems(1) row by simp
  have bm: "nval m1 b blen = nval m b blen" and cm: "nval m1 (Suc c) clen = nval m (Suc c) clen"
    using r(3) Suc.prems by (auto intro!: nval_outside simp: disjoint_regions_def)
  obtain t where t: "carry' = carry + ucast out + of_nat t"
    and eq: "nval m' (a + 1) (alen - 1) + t * BASE ^ (alen - 1)
      = nval m1 (a + 1) (alen - 1) + nval m1 b blen * nval m1 (c + 1) clen"
    and o: "eq_outside (a + 1) (alen - 1) m1 m'"
    using Suc.IH [OF run] Suc.prems by (force simp: disjoint_regions_def)
  note up = lift_run [OF eq o]
  have "carry' = carry + of_nat (unat out + t)" using t by (simp add: add.assoc)
  moreover have "nval m' a alen + (unat out + t) * BASE ^ alen
      = nval m a alen + nval m b blen * nval m c (Suc clen)"
    using up(1) r(1) Suc.prems(2) by (simp add: bm cm algebra_simps)
  moreover have "eq_outside a alen m m'"
    using up(2) r(3) Suc.prems(2) eq_outside_trans by auto
  ultimately show ?case by blast
qed

text \<open>A sum of a run and a number below its capacity carries at most one.\<close>

lemma carry_le_1:
  assumes "x + t * P = y + z" and "y < P" and "z \<le> P"
  shows "t \<le> (1 :: nat)"
proof (rule ccontr)
  assume "\<not> t \<le> 1"
  then have "2 * P \<le> t * P" by (intro mult_right_mono) auto
  then show False using assms by linarith
qed

lemma bng_generic_mult_add_spec:
  assumes run: "bng_generic_mult_add m a alen b blen c clen = (carry, m')"
    and "blen + clen \<le> alen"
    and "disjoint_regions a alen b blen" and "disjoint_regions a alen c clen"
  shows "nval m' a alen + unat carry * BASE ^ alen = nval m a alen + nval m b blen * nval m c clen"
    and "unat carry \<le> 1" and "eq_outside a alen m m'"
proof -
  obtain t where t: "carry = of_nat t"
    and eq: "nval m' a alen + t * BASE ^ alen = nval m a alen + nval m b blen * nval m c clen"
    and o: "eq_outside a alen m m'"
    using bng_mult_add_rows_spec [of m a alen b blen c clen 0 carry m'] assms
    by (auto simp: bng_generic_mult_add_def)
  have "nval m b blen * nval m c clen \<le> BASE ^ blen * BASE ^ clen"
    by (rule mult_mono) (simp_all add: nval_lt less_imp_le)
  also have "\<dots> \<le> BASE ^ alen"
    using assms(2) by (simp flip: power_add add: power_increasing Suc_leI)
  finally have t1: "t \<le> 1" using carry_le_1 [OF eq nval_lt] by simp
  then have "unat carry = t" by (auto simp: t le_Suc_eq)
  then show "nval m' a alen + unat carry * BASE ^ alen = nval m a alen + nval m b blen * nval m c clen"
    "unat carry \<le> 1" "eq_outside a alen m m'" using eq t1 o by simp_all
qed

section \<open>Squaring\<close>

text \<open>The double products and the squares of the digits of a number.\<close>

primrec cross_products :: "memory \<Rightarrow> ptr \<Rightarrow> nat \<Rightarrow> nat" where
  "cross_products m b 0 = 0"
| "cross_products m b (Suc n) =
     BASE * (unat (m b) * nval m (b + 1) n) + BASE ^ 2 * cross_products m (b + 1) n"

primrec digit_squares :: "memory \<Rightarrow> ptr \<Rightarrow> nat \<Rightarrow> nat" where
  "digit_squares m b 0 = 0"
| "digit_squares m b (Suc n) = unat (m b) ^ 2 + BASE ^ 2 * digit_squares m (b + 1) n"

lemma square_decomposition: "nval m b n ^ 2 = digit_squares m b n + 2 * cross_products m b n"
proof (induction n arbitrary: b)
  case (Suc n)
  have "nval m b (Suc n) ^ 2
      = unat (m b) ^ 2 + 2 * BASE * unat (m b) * nval m (b + 1) n + BASE ^ 2 * nval m (b + 1) n ^ 2"
    by (simp add: power2_eq_square algebra_simps)
  then show ?case unfolding Suc.IH by (simp add: algebra_simps)
qed simp

lemma cross_products_cong:
  "(\<And>i. i < n \<Longrightarrow> m (b + i) = m' (b + i)) \<Longrightarrow> cross_products m b n = cross_products m' b n"
proof (induction n arbitrary: b)
  case (Suc n)
  have "nval m (b + 1) n = nval m' (b + 1) n"
    using Suc.prems [of "Suc i" for i] by (intro nval_cong) simp
  moreover have "cross_products m (b + 1) n = cross_products m' (b + 1) n"
    using Suc.prems [of "Suc i" for i] by (intro Suc.IH) simp
  ultimately show ?case using Suc.prems [of 0] by simp
qed simp

lemma digit_squares_cong:
  "(\<And>i. i < n \<Longrightarrow> m (b + i) = m' (b + i)) \<Longrightarrow> digit_squares m b n = digit_squares m' b n"
proof (induction n arbitrary: b)
  case (Suc n)
  have "digit_squares m (b + 1) n = digit_squares m' (b + 1) n"
    using Suc.prems [of "Suc i" for i] by (intro Suc.IH) simp
  then show ?case using Suc.prems [of 0] by simp
qed simp

lemma outside_eq_digit:
  "eq_outside a n m m' \<Longrightarrow> disjoint_regions a n b k \<Longrightarrow> i < k \<Longrightarrow> m' (b + i) = m (b + i)"
  by (auto simp: eq_outside_def disjoint_regions_def)

text \<open>With \<open>k\<close> rounds left, the rows from \<open>i = blen - k\<close> on add the remaining double products.\<close>

lemma bng_square_rows_spec:
  assumes "bng_square_rows m a alen b blen k carry = (carry', m')"
    and "k < blen" and "2 * blen \<le> alen" and "disjoint_regions a alen b blen"
  shows "\<exists>t. carry' = carry + of_nat t
    \<and> nval m' a alen + t * BASE ^ alen = nval m a alen
        + BASE ^ (2 * (blen - Suc k)) * cross_products m (b + (blen - Suc k)) (Suc k)
    \<and> eq_outside a alen m m'"
  using assms(1,2)
proof (induction k arbitrary: m carry)
  case 0
  then show ?case by (intro exI [of _ 0]) auto
next
  case (Suc k)
  define j where "j = blen - Suc (Suc k)"
  have j: "blen - Suc k = Suc j" "blen = Suc (Suc (j + k))" using Suc.prems(2) by (auto simp: j_def)
  obtain out m1 where row: "bng_generic_mult_add_digit m (a + (2 * j + 1)) (alen - (2 * j + 1))
      (b + Suc j) (Suc k) (m (b + j)) = (out, m1)" by force
  have run: "bng_square_rows m1 a alen b blen k (carry + ucast out) = (carry', m')"
    using Suc.prems(1) row j by (simp add: Let_def)
  have ra: "read_ahead (a + (2 * j + 1)) (Suc k) (b + Suc j)"
    using assms(3,4) j by (auto simp: read_ahead_def disjoint_regions_def)
  have len: "Suc k \<le> alen - (2 * j + 1)" "2 * j + 1 \<le> alen" using assms(3) j by auto
  note r = bng_generic_mult_add_digit_spec [OF row len(1) ra]
  note up = lift_run [OF r(1) r(3) len(2)]
  obtain t where t: "carry' = carry + ucast out + of_nat t"
    and eq: "nval m' a alen + t * BASE ^ alen = nval m1 a alen
        + BASE ^ (2 * Suc j) * cross_products m1 (b + Suc j) (Suc k)"
    and o: "eq_outside a alen m1 m'"
    using Suc.IH [OF run] Suc.prems(2) j by auto
  have cr: "cross_products m1 (b + Suc j) (Suc k) = cross_products m (b + Suc j) (Suc k)"
    using outside_eq_digit [OF up(2) assms(4)] j
    by (intro cross_products_cong) (metis add.assoc add_Suc_right add_less_cancel_left add_Suc)
  have "carry' = carry + of_nat (unat out + t)" using t by (simp add: add.assoc)
  moreover have "nval m' a alen + (unat out + t) * BASE ^ alen = nval m a alen
      + BASE ^ (2 * j) * cross_products m (b + j) (Suc (Suc k))"
  proof -
    have "cross_products m (b + j) (Suc (Suc k)) = BASE * (unat (m (b + j)) * nval m (b + Suc j) (Suc k))
        + BASE ^ 2 * cross_products m (b + Suc j) (Suc k)" by simp
    moreover have "BASE ^ (2 * Suc j) = BASE ^ (2 * j) * BASE ^ 2" by (simp flip: power_add)
    moreover have "BASE ^ (2 * j + 1) = BASE ^ (2 * j) * BASE" by simp
    ultimately show ?thesis
      using up(1) eq cr by (simp only: distrib_left distrib_right mult.assoc mult.commute [of "nval m _ _"])
  qed
  moreover have "eq_outside a alen m m'" using up(2) o by (rule eq_outside_trans)
  ultimately show ?case unfolding j_def [symmetric] by blast
qed

lemma bng_square_digits_spec:
  assumes "bng_square_digits m a b n c = (c', m')" and "unat c \<le> 1"
    and "disjoint_regions a (2 * n) b n"
  shows "nval m' a (2 * n) + unat c' * BASE ^ (2 * n) = nval m a (2 * n) + digit_squares m b n + unat c
    \<and> unat c' \<le> 1 \<and> eq_outside a (2 * n) m m'"
  using assms
proof (induction n arbitrary: m a b c)
  case 0
  then show ?case by auto
next
  case (Suc n)
  obtain ph pl where p: "BngMult (m b) (m b) = (ph, pl)" by force
  obtain r1 c1 where d1: "BngAdd2Carry (m a) pl c = (r1, c1)" by force
  obtain r2 c2 where d2: "BngAdd2Carry (m (a + 1)) ph c1 = (r2, c2)" by force
  define m2 where "m2 = m(a := r1, a + 1 := r2)"
  note x1 = BngAdd2Carry_exact [OF d1 Suc.prems(2)]
  note x2 = BngAdd2Carry_exact [OF d2 x1(2)]
  have sq: "unat ph * BASE + unat pl = unat (m b) ^ 2"
    using BngMult_exact [OF p] by (simp add: power2_eq_square)
  have run: "bng_square_digits m2 (a + 2) (b + 1) n c2 = (c', m')"
    using Suc.prems(1) p d1 d2 by (simp add: m2_def Let_def)
  have IH: "nval m' (a + 2) (2 * n) + unat c' * BASE ^ (2 * n)
      = nval m2 (a + 2) (2 * n) + digit_squares m2 (b + 1) n + unat c2
      \<and> unat c' \<le> 1 \<and> eq_outside (a + 2) (2 * n) m2 m'"
    by (rule Suc.IH [OF run x2(2)]) (use Suc.prems(3) in \<open>auto simp: disjoint_regions_def\<close>)
  have ds: "digit_squares m2 (b + 1) n = digit_squares m (b + 1) n"
    using Suc.prems(3) by (intro digit_squares_cong) (auto simp: m2_def disjoint_regions_def)
  have o: "eq_outside a (2 * Suc n) m m'" and lo: "m' a = r1" "m' (a + 1) = r2"
    using IH by (auto simp: eq_outside_def m2_def)
  have hi: "nval m2 (a + 2) (2 * n) = nval m (a + 2) (2 * n)" by (simp add: m2_def)
  have two: "nval k a (2 * Suc n) = unat (k a) + BASE * unat (k (a + 1)) + BASE ^ 2 * nval k (a + 2) (2 * n)"
    for k by (simp add: power2_eq_square algebra_simps)
  from IH have "BASE ^ 2 * (nval m' (a + 2) (2 * n) + unat c' * BASE ^ (2 * n))
      = BASE ^ 2 * (nval m (a + 2) (2 * n) + digit_squares m (b + 1) n + unat c2)"
    by (simp only: hi ds)
  moreover have "BASE * (unat r2 + unat c2 * BASE) = BASE * (unat (m (a + 1)) + unat ph + unat c1)"
    using x2(1) by (simp only:)
  ultimately show ?case
    using IH o sq x1(1) lo by (simp add: two power2_eq_square algebra_simps)
qed

text \<open>The carry word assembled from the doubled row carry and the bit shifted out.\<close>

lemma square_carry:
  assumes "t \<le> 1" and "unat (bits_out :: bngdigit) < 2"
  shows "unat (ucast (ucast (push_bit 1 (of_nat t :: bngcarry)) OR bits_out) :: bngcarry) = 2 * t + unat bits_out"
proof -
  have "bits_out = 0 \<or> bits_out = 1" using assms(2) by (metis less_2_cases unat_1 unsigned_0 unsigned_word_eqI One_nat_def)
  then show ?thesis using assms(1) by (auto simp: le_Suc_eq)
qed

lemma bng_generic_square_add_spec:
  assumes run: "bng_generic_square_add m a alen b blen = (carry, m')"
    and len: "0 < blen" "2 * blen \<le> alen" and dis: "disjoint_regions a alen b blen"
  shows "nval m' a alen + unat carry * BASE ^ alen = 2 * nval m a alen + nval m b blen ^ 2"
    and "eq_outside a alen m m'"
proof -
  obtain c1 m1 where rows: "bng_square_rows m a alen b blen (blen - 1) 0 = (c1, m1)" by force
  obtain bits_out m2 where sh: "bng_generic_shift_left m1 a alen 1 = (bits_out, m2)" by force
  obtain c2 m3 where sq: "bng_square_digits m2 a b blen 0 = (c2, m3)" by force
  obtain c3 m4 where up: "(if c2 = 0 \<or> alen - 2 * blen = 0 then (c2, m3)
      else bng_incr_loop m3 (a + 2 * blen) (alen - 2 * blen)) = (c3, m4)" by force
  obtain t where t: "c1 = of_nat t" and o1: "eq_outside a alen m m1"
    and e1: "nval m1 a alen + t * BASE ^ alen = nval m a alen + cross_products m b blen"
    using bng_square_rows_spec [OF rows _ len(2) dis] len(1) by auto
  note e2 = bng_generic_shift_left_spec [OF sh]
  have o2: "eq_outside a alen m m2" using o1 e2(3) eq_outside_trans by auto
  have sqm: "digit_squares m2 b blen = digit_squares m b blen"
    using outside_eq_digit [OF o2 dis] by (intro digit_squares_cong) auto
  have e3: "nval m3 a (2 * blen) + unat c2 * BASE ^ (2 * blen)
      = nval m2 a (2 * blen) + digit_squares m b blen \<and> unat c2 \<le> 1 \<and> eq_outside a (2 * blen) m2 m3"
    using bng_square_digits_spec [OF sq] len dis sqm by (auto simp: disjoint_regions_def)
  note e4 = carry_up [OF conjunct1 [OF e3] _ _ len(2) up, of m2]
  have e4': "nval m4 a alen + unat c3 * BASE ^ alen = nval m2 a alen + digit_squares m b blen"
    "unat c3 \<le> 1" "eq_outside a alen m2 m4"
    using e4 e3 nval_split [OF len(2), of m2 a] by auto
  have "2 * cross_products m b blen \<le> nval m b blen ^ 2" by (simp add: square_decomposition)
  also have "\<dots> \<le> (BASE ^ blen) ^ 2" using nval_lt [of m b blen] by (intro power_mono) simp_all
  also have "\<dots> \<le> BASE ^ alen"
    using len(2) by (simp flip: power_mult add: power_increasing Suc_leI mult.commute)
  finally have t1: "t \<le> 1" using carry_le_1 [OF e1 nval_lt] by simp
  have c23: "c2 = c3" if "c2 \<noteq> 0" "c3 \<noteq> 0"
    using that carry_cases [of c2] carry_cases [of c3] e3 e4'(2) by (metis unsigned_word_eqI)
  have m': "m' = m4" and carry: "carry = ucast (ucast (push_bit 1 c1) OR bits_out) + c3"
    using run rows sh sq up c23
    by (auto simp: bng_generic_square_add_def Let_def split: if_splits prod.splits)
  have "unat (ucast (ucast (push_bit 1 c1) OR bits_out) :: bngcarry) = 2 * t + unat bits_out"
    using square_carry [OF t1, of bits_out] e2(2) by (simp only: t) simp
  moreover from this have "unat (ucast (ucast (push_bit 1 c1) OR bits_out) :: bngcarry) + unat c3 < 2 ^ 32"
    using t1 e2(2) e4'(2) by simp
  ultimately have cu: "unat carry = 2 * t + unat bits_out + unat c3"
    unfolding carry by (simp add: unat_plus_if')
  have "2 * (nval m1 a alen + t * BASE ^ alen) = 2 * (nval m a alen + cross_products m b blen)"
    using e1 by (simp only:)
  then show "nval m' a alen + unat carry * BASE ^ alen = 2 * nval m a alen + nval m b blen ^ 2"
    using e2(1) e4'(1) unfolding m' cu square_decomposition by (simp add: algebra_simps)
  show "eq_outside a alen m m'" using o2 e4'(3) unfolding m' by (rule eq_outside_trans)
qed

section \<open>Complement, size, comparison, leading zeros\<close>

lemma bng_complement_spec:
  "nval (bng_complement m a n) a n + nval m a n + 1 = BASE ^ n \<and> eq_outside a n m (bng_complement m a n)"
proof (induction n arbitrary: m a)
  case (Suc n)
  let ?m = "m(a := NOT (m a))"
  have IH: "nval (bng_complement ?m (a + 1) n) (a + 1) n + nval ?m (a + 1) n + 1 = BASE ^ n
      \<and> eq_outside (a + 1) n ?m (bng_complement ?m (a + 1) n)" by (rule Suc.IH)
  then have o: "eq_outside a (Suc n) m (bng_complement ?m (a + 1) n)"
    "bng_complement ?m (a + 1) n a = NOT (m a)"
    using eq_outside_Suc [of a n m "NOT (m a)"] by auto
  have "unat (NOT (m a)) + unat (m a) + 1 = BASE"
  proof -
    have m1: "unat (0 - 1 :: bngdigit) = BASE - 1" by (simp only: unat_sub_BASE) simp
    have "NOT (m a) = (0 - 1) - m a" by (simp add: not_eq_complement)
    then have "unat (NOT (m a)) = BASE - 1 - unat (m a)"
      using unat_lt_BASE [of "m a"] by (simp only: unat_sub_BASE [of "0 - 1"] m1) simp
    then show ?thesis using unat_lt_BASE [of "m a"] by simp
  qed
  moreover from IH have "BASE * (nval (bng_complement ?m (a + 1) n) (a + 1) n + nval m (a + 1) n + 1)
      = BASE * BASE ^ n" by simp
  ultimately show ?case using o by (simp add: algebra_simps)
qed simp

text \<open>\<open>bng_num_digits\<close> is the least length, at least one, that holds the number.\<close>

lemma bng_num_digits_bounds: "1 \<le> bng_num_digits m a n \<and> bng_num_digits m a n \<le> max 1 n"
  by (induction n) auto

lemma nval_ge_top: "m (a + n) \<noteq> 0 \<Longrightarrow> BASE ^ n \<le> nval m a (Suc n)"
  using mult_le_mono2 [of 1 "unat (m (a + n))" "BASE ^ n"] unat_gt_0 [of "m (a + n)"]
  by (simp add: nval_snoc Suc_leI trans_le_add2 del: nval.simps)

lemma nval_top_zero: "m (a + n) = 0 \<Longrightarrow> nval m a (Suc n) = nval m a n"
  by (simp add: nval_snoc del: nval.simps)

lemma bng_num_digits_nval:
  "nval m a (min n (bng_num_digits m a n)) = nval m a n"
proof (induction n)
  case (Suc n)
  then show ?case
    using bng_num_digits_bounds [of m a n] nval_top_zero [of m a n]
    by (cases "m (a + n) = 0") (auto simp: min_def max_def simp del: nval.simps split: if_splits)
qed simp

lemma bng_num_digits_least:
  assumes "1 < bng_num_digits m a n"
  shows "BASE ^ (bng_num_digits m a n - 1) \<le> nval m a n"
  using assms
proof (induction n)
  case (Suc n)
  then show ?case
    using nval_ge_top [of m a n] nval_top_zero [of m a n]
    by (cases "m (a + n) = 0") (auto simp del: nval.simps)
qed simp

lemma bng_trim_spec:
  "bng_trim m a n \<le> n \<and> nval m a (bng_trim m a n) = nval m a n
    \<and> (0 < bng_trim m a n \<longrightarrow> BASE ^ (bng_trim m a n - 1) \<le> nval m a n)"
proof (induction n)
  case (Suc n)
  then show ?case
    using nval_ge_top [of m a n] nval_top_zero [of m a n]
    by (cases "m (a + n) = 0") (auto simp del: nval.simps)
qed simp

lemma bng_compare_loop_spec:
  "bng_compare_loop m a b n =
     (if nval m a n > nval m b n then 1 else if nval m a n < nval m b n then -1 else 0)"
proof (induction n)
  case (Suc n)
  have gt: "nval m x (Suc n) > nval m y (Suc n)" if "m (x + n) > m (y + n)" for x y
  proof -
    have "nval m y (Suc n) < BASE ^ n * (unat (m (y + n)) + 1)"
      using nval_lt [of m y n] by (simp add: nval_snoc del: nval.simps)
    also have "\<dots> \<le> BASE ^ n * unat (m (x + n))"
      using that by (intro mult_left_mono) (simp_all add: word_less_nat_alt)
    finally show ?thesis by (simp add: nval_snoc del: nval.simps)
  qed
  consider "m (a + n) > m (b + n)" | "m (a + n) < m (b + n)" | "m (a + n) = m (b + n)" by fastforce
  then show ?case
  proof cases
    case 3
    then show ?thesis using Suc.IH by (simp add: nval_snoc del: nval.simps)
  qed (use gt [of b a] gt [of a b] in \<open>auto simp: Let_def simp del: nval.simps\<close>)
qed simp

lemma bng_compare_spec:
  "bng_compare m a alen b blen =
     (if nval m a alen > nval m b blen then 1 else if nval m a alen < nval m b blen then -1 else 0)"
proof -
  define ta tb where "ta = bng_trim m a alen" and "tb = bng_trim m b blen"
  have a: "nval m a ta = nval m a alen" "0 < ta \<Longrightarrow> BASE ^ (ta - 1) \<le> nval m a alen"
    using bng_trim_spec [of m a alen] by (auto simp: ta_def)
  have b: "nval m b tb = nval m b blen" "0 < tb \<Longrightarrow> BASE ^ (tb - 1) \<le> nval m b blen"
    using bng_trim_spec [of m b blen] by (auto simp: tb_def)
  have lt: "x < y" if "x < BASE ^ i" "BASE ^ (j - 1) \<le> y" "i < j" for x y i j :: nat
  proof -
    have "BASE ^ i \<le> BASE ^ (j - 1)" using that(3) by (intro power_increasing) (auto simp: Suc_leI)
    then show ?thesis using that(1,2) by linarith
  qed
  consider "ta > tb" | "ta < tb" | "ta = tb" by linarith
  then show ?thesis
  proof cases
    case 1
    then have "nval m b blen < nval m a alen"
      using lt [OF nval_lt [of m b tb] a(2)] b(1) by simp
    then show ?thesis using 1 by (simp add: bng_compare_def ta_def tb_def)
  next
    case 2
    then have "nval m a alen < nval m b blen"
      using lt [OF nval_lt [of m a ta] b(2)] a(1) by simp
    then show ?thesis using 2 by (simp add: bng_compare_def ta_def tb_def)
  next
    case 3
    then show ?thesis
      using a(1) b(1) by (simp add: bng_compare_def bng_compare_loop_spec flip: ta_def tb_def)
  qed
qed

end
