(* ===== verification/Bng_Division.thy ===== *)
theory Bng_Division
  imports Bng_Mult
begin

text \<open>
  Division of runs of digits: normalisation by the number of leading zero
  bits of the divisor, division by one digit, and the long division with
  its quotient estimate and correction loop. Every function returns under
  its documented precondition, with the exact quotient and remainder.
\<close>

section \<open>Leading zero bits\<close>

text \<open>Each stage of the binary search tests the upper half of the \<open>2 * k\<close> bits still in play.\<close>

lemma lz_test:
  assumes "unat (d :: bngdigit) < 2 ^ (2 * k)"
  shows "d AND push_bit k (mask k) \<noteq> 0 \<longleftrightarrow> 2 ^ k \<le> unat d"
proof -
  have hi: "\<not> bit d i" if "2 * k \<le> i" for i
    using that bit_take_bit_iff [of "2 * k" d i] take_bit_u64_self [OF assms] by auto
  have len: "i < 64" if "bit d i" for i using bit_imp_le_length [OF that] by simp
  have "d AND push_bit k (mask k) = 0 \<longleftrightarrow> (\<forall>i. \<not> (bit d i \<and> k \<le> i \<and> i - k < k))"
    using len by (fastforce simp: bit_eq_iff bit_and_iff bit_push_bit_iff bit_mask_iff)
  also have "\<dots> \<longleftrightarrow> (\<forall>i. \<not> bit (drop_bit k d) i)"
  proof (intro iffI allI)
    fix i
    assume "\<forall>i. \<not> (bit d i \<and> k \<le> i \<and> i - k < k)"
    then show "\<not> bit (drop_bit k d) i"
      using hi [of "k + i"] by (cases "i < k") (auto simp: bit_drop_bit_eq dest: spec [of _ "k + i"])
  next
    fix i
    assume "\<forall>i. \<not> bit (drop_bit k d) i"
    then show "\<not> (bit d i \<and> k \<le> i \<and> i - k < k)"
      by (auto simp: bit_drop_bit_eq dest: spec [of _ "i - k"])
  qed
  also have "\<dots> \<longleftrightarrow> drop_bit k d = 0" by (auto intro: bit_eqI)
  also have "\<dots> \<longleftrightarrow> unat d div 2 ^ k = 0" by (simp flip: unat_drop_bit_u64 add: unat_eq_zero)
  also have "\<dots> \<longleftrightarrow> unat d < 2 ^ k" by (simp add: div_eq_0_iff)
  finally show ?thesis by (auto simp: not_less)
qed

text \<open>
  The state of the search: \<open>d\<close> is what is left of \<open>d0\<close> after \<open>64 - n\<close> low bits
  were dropped; it has at most \<open>w\<close> bits and is nonzero if \<open>d0\<close> is.
\<close>

definition lz_inv :: "bngdigit \<Rightarrow> nat \<Rightarrow> int \<times> bngdigit \<Rightarrow> bool" where
  "lz_inv d0 w = (\<lambda>(n, d). \<exists>s. n = 64 - int s \<and> s \<le> 64 - w \<and> d = drop_bit s d0
     \<and> unat d < 2 ^ w \<and> (d0 \<noteq> 0 \<longrightarrow> d \<noteq> 0))"

lemma lz_stage:
  assumes "lz_inv d0 (2 * k) (n, d)" and "2 * k \<le> 64" and "c = push_bit k (mask k)"
  shows "lz_inv d0 k (if d AND c \<noteq> 0 then (n - int k, drop_bit k d) else (n, d))"
proof -
  from assms(1) obtain s where s: "n = 64 - int s" "s \<le> 64 - 2 * k" "d = drop_bit s d0"
    "unat d < 2 ^ (2 * k)" "d0 \<noteq> 0 \<longrightarrow> d \<noteq> 0" by (auto simp: lz_inv_def)
  note test = lz_test [OF s(4)]
  show ?thesis
  proof (cases "2 ^ k \<le> unat d")
    case True
    have "unat (drop_bit k d) = unat d div 2 ^ k" by (rule unat_drop_bit_u64)
    moreover have "0 < unat d div 2 ^ k" using True by (simp add: div_greater_zero_iff)
    moreover have "unat d div 2 ^ k < 2 ^ k"
      using s(4) by (simp add: less_mult_imp_div_less mult_2 power_add)
    ultimately have "unat (drop_bit k d) < 2 ^ k" "drop_bit k d \<noteq> 0"
      by (auto simp flip: unat_eq_zero)
    moreover have "drop_bit k d = drop_bit (k + s) d0" using s(3) by (simp add: add.commute)
    moreover have "n - int k = 64 - int (k + s)" "k + s \<le> 64 - k" using s(1,2) assms(2) by linarith+
    ultimately have "lz_inv d0 k (n - int k, drop_bit k d)" unfolding lz_inv_def by blast
    then show ?thesis using True test by (simp only: assms(3) simp_thms if_True)
  next
    case False
    then have "unat d < 2 ^ k" by (simp add: div_eq_0_iff)
    moreover have "s \<le> 64 - k" using s(2) by linarith
    ultimately have "lz_inv d0 k (n, d)" using s(1,3,5) unfolding lz_inv_def by blast
    then show ?thesis using False test by (simp only: assms(3) simp_thms if_False)
  qed
qed

lemma lz_constants:
  "(0xFFFFFFFF00000000 :: bngdigit) = push_bit 32 (mask 32)"
  "(0xFFFF0000 :: bngdigit) = push_bit 16 (mask 16)"
  "(0xFF00 :: bngdigit) = push_bit 8 (mask 8)"
  "(0xF0 :: bngdigit) = push_bit 4 (mask 4)"
  "(0xC :: bngdigit) = push_bit 2 (mask 2)"
  "(2 :: bngdigit) = push_bit 1 (mask 1)"
  by (simp_all add: mask_eq_exp_minus_1 push_bit_eq_mult)

lemma lz_inv_start: "lz_inv d 64 (64, d)"
  using unat_less_2_64 [of d] by (auto simp: lz_inv_def intro: exI [of _ 0])

lemma lz_inv_end:
  assumes "lz_inv d0 1 (n, d)" and "d0 \<noteq> 0"
  shows "\<exists>s \<le> 63. n - int (unat d) = 63 - int s \<and> unat d0 div 2 ^ s = 1"
proof -
  from assms obtain s where s: "n = 64 - int s" "s \<le> 63" "d = drop_bit s d0"
    "unat d < 2" "d \<noteq> 0" by (auto simp: lz_inv_def)
  have "unat d = unat d0 div 2 ^ s" unfolding s(3) by (rule unat_drop_bit_u64)
  moreover have "unat d = 1" using s(4,5) by (simp add: less_2_cases_iff unat_eq_zero)
  ultimately show ?thesis using s(1,2) by (intro exI [of _ s]) simp
qed

definition lz_step :: "nat \<Rightarrow> bngdigit \<Rightarrow> int \<times> bngdigit \<Rightarrow> int \<times> bngdigit" where
  "lz_step k c = (\<lambda>(n, d). if d AND c \<noteq> 0 then (n - int k, drop_bit k d) else (n, d))"

lemma lz_steps:
  "bng_leading_zero_bits d =
     (case lz_step 1 2 (lz_step 2 0xC (lz_step 4 0xF0 (lz_step 8 0xFF00
        (lz_step 16 0xFFFF0000 (lz_step 32 0xFFFFFFFF00000000 (64, d)))))) of (n, d) \<Rightarrow> n - int (unat d))"
proof -
  have st: "(if d AND c \<noteq> 0 then (n - 32, drop_bit 32 d) else (n, d)) = lz_step 32 c (n, d)"
    "(if d AND c \<noteq> 0 then (n - 16, drop_bit 16 d) else (n, d)) = lz_step 16 c (n, d)"
    "(if d AND c \<noteq> 0 then (n - 8, drop_bit 8 d) else (n, d)) = lz_step 8 c (n, d)"
    "(if d AND c \<noteq> 0 then (n - 4, drop_bit 4 d) else (n, d)) = lz_step 4 c (n, d)"
    "(if d AND c \<noteq> 0 then (n - 2, drop_bit 2 d) else (n, d)) = lz_step 2 c (n, d)"
    "(if d AND c \<noteq> 0 then (n - 1, drop_bit 1 d) else (n, d)) = lz_step 1 c (n, d)"
    for d c :: bngdigit and n :: int
    by (simp_all only: lz_step_def case_prod_conv of_nat_numeral of_nat_1)
  show ?thesis
    unfolding bng_leading_zero_bits_def Let_def case_prod_conv of_nat_numeral st
    by (simp only: case_prod_beta prod.collapse)
qed

lemma bng_leading_zero_bits_stages:
  assumes "d \<noteq> 0"
  shows "\<exists>s \<le> 63. bng_leading_zero_bits d = 63 - int s \<and> unat d div 2 ^ s = 1"
proof -
  have step: "lz_inv d k (lz_step k c x)"
    if "lz_inv d w x" "w = 2 * k" "2 * k \<le> 64" "c = push_bit k (mask k)" for k w c x
    using lz_stage [of d k "fst x" "snd x" c] that by (simp add: lz_step_def case_prod_beta)
  note 1 = step [OF lz_inv_start _ _ lz_constants(1), simplified]
  note 2 = step [OF 1 _ _ lz_constants(2), simplified]
  note 3 = step [OF 2 _ _ lz_constants(3), simplified]
  note 4 = step [OF 3 _ _ lz_constants(4), simplified]
  note 5 = step [OF 4 _ _ lz_constants(5), simplified]
  note 6 = step [OF 5 _ _ lz_constants(6)]
  show ?thesis
    using lz_inv_end [OF _ assms] 6 unfolding lz_steps by (auto split: prod.splits)
qed

lemma bng_leading_zero_bits_spec:
  assumes "d \<noteq> 0"
  shows "nat (bng_leading_zero_bits d) < 64"
    and "unat d * 2 ^ nat (bng_leading_zero_bits d) < BASE"
    and "2 ^ 63 \<le> unat d * 2 ^ nat (bng_leading_zero_bits d)"
proof -
  from bng_leading_zero_bits_stages [OF assms] obtain s where
    s: "s \<le> 63" "bng_leading_zero_bits d = 63 - int s" "unat d div 2 ^ s = 1" by blast
  have z: "nat (bng_leading_zero_bits d) = 63 - s" using s by simp
  have lo: "2 ^ s \<le> unat d" using s(3) by (metis div_less linorder_not_le zero_neq_one)
  have hi: "unat d < 2 * 2 ^ s" using s(3) by (metis div_less_iff_less_mult lessI numeral_2_eq_2 One_nat_def zero_less_numeral zero_less_power)
  have p: "2 ^ s * 2 ^ (63 - s) = (2 :: nat) ^ 63" using s(1) by (simp flip: power_add)
  show "nat (bng_leading_zero_bits d) < 64" using z by simp
  have "unat d * 2 ^ (63 - s) < 2 * 2 ^ s * 2 ^ (63 - s)" using hi by simp
  also have "\<dots> = BASE" unfolding BASE_def mult.assoc p by simp
  finally show "unat d * 2 ^ nat (bng_leading_zero_bits d) < BASE" unfolding z .
  have "2 ^ s * 2 ^ (63 - s) \<le> unat d * 2 ^ (63 - s)" using lo by simp
  then show "2 ^ 63 \<le> unat d * 2 ^ nat (bng_leading_zero_bits d)" unfolding z p .
qed

section \<open>Division by one digit\<close>

lemma bng_div_rem_norm_loop_spec:
  assumes "unat tp < unat d" and "b \<le> a \<or> a + i \<le> b"
  shows "\<exists>rem m'. bng_div_rem_norm_loop m a b i d tp = Some (rem, m')
    \<and> nval m' a i = (unat tp * BASE ^ i + nval m b i) div unat d
    \<and> unat rem = (unat tp * BASE ^ i + nval m b i) mod unat d \<and> eq_outside a i m m'"
  using assms
proof (induction i arbitrary: m tp)
  case 0
  then show ?case by simp
next
  case (Suc i)
  have "d \<noteq> 0" "tp < d" using Suc.prems(1) by (auto simp: word_less_nat_alt)
  then obtain quo rem where q: "bng_div_aux tp (m (b + i)) d = Some (quo, rem)"
    "unat quo = (unat tp * BASE + unat (m (b + i))) div unat d"
    "unat rem = (unat tp * BASE + unat (m (b + i))) mod unat d"
    using bng_div_aux_exact by blast
  let ?m = "m(a + i := quo)"
  have lt: "unat rem < unat d" using Suc.prems(1) q(3) by simp
  have keep: "nval ?m b i = nval m b i" using Suc.prems(2) by (intro nval_upd_outside) auto
  have "\<exists>r m'. bng_div_rem_norm_loop ?m a b i d rem = Some (r, m')
    \<and> nval m' a i = (unat rem * BASE ^ i + nval ?m b i) div unat d
    \<and> unat r = (unat rem * BASE ^ i + nval ?m b i) mod unat d \<and> eq_outside a i ?m m'"
    using Suc.prems(2) by (intro Suc.IH lt) auto
  then obtain r m' where r: "bng_div_rem_norm_loop ?m a b i d rem = Some (r, m')"
    "nval m' a i = (unat rem * BASE ^ i + nval m b i) div unat d"
    "unat r = (unat rem * BASE ^ i + nval m b i) mod unat d" "eq_outside a i ?m m'"
    unfolding keep by blast
  have top: "m' (a + i) = quo" using r(4) by (auto simp: eq_outside_def)
  have T: "unat tp * BASE + unat (m (b + i)) = unat quo * unat d + unat rem"
    using q(2,3) by simp
  have "unat tp * BASE ^ Suc i + nval m b (Suc i)
      = (unat tp * BASE + unat (m (b + i))) * BASE ^ i + nval m b i"
    by (simp add: nval_snoc algebra_simps del: nval.simps)
  also have "\<dots> = (unat rem * BASE ^ i + nval m b i) + (BASE ^ i * unat quo) * unat d"
    unfolding T by (simp add: algebra_simps)
  finally have X: "unat tp * BASE ^ Suc i + nval m b (Suc i)
      = (unat rem * BASE ^ i + nval m b i) + (BASE ^ i * unat quo) * unat d" .
  have "unat d \<noteq> 0" using Suc.prems(1) by simp
  then have "nval m' a (Suc i) = (unat tp * BASE ^ Suc i + nval m b (Suc i)) div unat d"
    "unat r = (unat tp * BASE ^ Suc i + nval m b (Suc i)) mod unat d"
    unfolding X nval_snoc [of m'] top r(2,3) by simp_all
  moreover have "eq_outside a (Suc i) m m'" using r(4) by (auto simp: eq_outside_def)
  ultimately show ?case using q(1) r(1) by simp
qed

lemma bng_generic_div_rem_norm_digit_spec:
  assumes "0 < len" and "m (b + len - 1) < d" and "b \<le> a \<or> a + (len - 1) \<le> b"
  shows "\<exists>rem m'. bng_generic_div_rem_norm_digit m a b len d = Some (rem, m')
    \<and> nval m' a (len - 1) = nval m b len div unat d
    \<and> unat rem = nval m b len mod unat d \<and> eq_outside a (len - 1) m m'"
proof -
  have "nval m b len = unat (m (b + len - 1)) * BASE ^ (len - 1) + nval m b (len - 1)"
    using assms(1) nval_snoc [of m b "len - 1"] by simp
  then show ?thesis
    using bng_div_rem_norm_loop_spec [of "m (b + len - 1)" d b a "len - 1" m] assms(2,3)
    by (simp add: bng_generic_div_rem_norm_digit_def word_less_nat_alt)
qed

lemma nval_lt_msd:
  assumes "0 < n"
  shows "unat (m (a + n - 1)) < x \<longleftrightarrow> nval m a n < x * BASE ^ (n - 1)"
proof -
  obtain k where n: "n = Suc k" using assms by (cases n) auto
  let ?t = "unat (m (a + k))"
  have v: "nval m a n = nval m a k + BASE ^ k * ?t" unfolding n by (rule nval_snoc)
  note lt = nval_lt [of m a k]
  have "nval m a n < x * BASE ^ k" if "?t < x"
  proof -
    have "nval m a n < (?t + 1) * BASE ^ k" unfolding v using lt by (simp add: algebra_simps)
    also have "\<dots> \<le> x * BASE ^ k" using that by (intro mult_right_mono) simp_all
    finally show ?thesis .
  qed
  moreover have "?t < x" if "nval m a n < x * BASE ^ k"
  proof (rule ccontr)
    assume "\<not> ?t < x"
    then have "x * BASE ^ k \<le> ?t * BASE ^ k" by (intro mult_right_mono) simp_all
    then have "x * BASE ^ k \<le> BASE ^ k * ?t" by (simp only: mult.commute)
    then show False using that unfolding v by linarith
  qed
  ultimately show ?thesis by (auto simp: n)
qed

text \<open>A run whose value is back is back digit by digit.\<close>

lemma eq_outside_restored:
  assumes "nval m' b k = nval m b k"
    and "\<And>p. p < a \<or> a + n \<le> p \<Longrightarrow> p < b \<or> b + k \<le> p \<Longrightarrow> m' p = m p"
  shows "eq_outside a n m m'"
  unfolding eq_outside_def
proof (intro allI impI)
  fix p
  assume "p \<notin> {a..<a + n}"
  then have out: "p < a \<or> a + n \<le> p" by auto
  show "m' p = m p"
  proof (cases "p < b \<or> b + k \<le> p")
    case True
    then show ?thesis using assms(2) out by blast
  next
    case False
    then have "p = b + (p - b)" "p - b < k" by auto
    then show ?thesis using nval_inject [OF assms(1)] by metis
  qed
qed

text \<open>
  Normalisation: shifting a number left by \<open>s\<close> bits loses nothing when the
  scaled bound still fits.
\<close>

lemma shift_left_fits:
  assumes "bng_generic_shift_left m a n s = (c, m')" and "s < 64"
    and "nval m a n * 2 ^ s < BASE ^ n"
  shows "nval m' a n = nval m a n * 2 ^ s" and "eq_outside a n m m'"
proof -
  note sp = bng_generic_shift_left_spec [OF assms(1,2)]
  have "unat c = 0"
  proof (rule ccontr)
    assume "unat c \<noteq> 0"
    then have "BASE ^ n \<le> unat c * BASE ^ n" by (cases "unat c") simp_all
    then show False using sp(1) assms(3) by linarith
  qed
  then show "nval m' a n = nval m a n * 2 ^ s" "eq_outside a n m m'" using sp by simp_all
qed

lemma scaled_lt:
  assumes "N < x * BASE ^ (n - 1)" and "x * 2 ^ s \<le> BASE" and "0 < n"
  shows "N * 2 ^ s < BASE ^ n"
proof -
  have "N * 2 ^ s < x * BASE ^ (n - 1) * 2 ^ s" using assms(1) by simp
  also have "\<dots> = (x * 2 ^ s) * BASE ^ (n - 1)" by simp
  also have "\<dots> \<le> BASE * BASE ^ (n - 1)" using assms(2) by (rule mult_right_mono) simp
  also have "\<dots> = BASE ^ n" using assms(3) by (cases n) simp_all
  finally show ?thesis .
qed

lemma unat_push_bit_fits:
  "unat (d :: bngdigit) * 2 ^ s < BASE \<Longrightarrow> unat (push_bit s d) = unat d * 2 ^ s"
  by (simp add: unat_push_bit_u64 BASE_def mult.commute)

lemma bng_generic_div_rem_digit_spec:
  assumes len: "0 < len" and msd: "m (b + len - 1) < d" and disj: "disjoint_regions a (len - 1) b len"
  shows "\<exists>rem m'. bng_generic_div_rem_digit m a b len d = Some (rem, m')
    \<and> nval m' a (len - 1) = nval m b len div unat d
    \<and> unat rem = nval m b len mod unat d \<and> eq_outside a (len - 1) m m'"
proof -
  let ?N = "nval m b len"
  define s where "s = nat (bng_leading_zero_bits d)"
  obtain c m1 where sh: "bng_generic_shift_left m b len s = (c, m1)" by force
  have "d \<noteq> 0" using msd by auto
  note lz = bng_leading_zero_bits_spec [OF this, folded s_def]
  have d1: "unat (push_bit s d) = unat d * 2 ^ s" using lz(2) by (rule unat_push_bit_fits)
  have N: "?N < unat d * BASE ^ (len - 1)"
    using msd nval_lt_msd [OF len, of m b] by (simp add: word_less_nat_alt)
  note left = shift_left_fits [OF sh lz(1) scaled_lt [OF N less_imp_le [OF lz(2)] len]]
  have "nval m1 b len < unat (push_bit s d) * BASE ^ (len - 1)" unfolding left(1) d1 using N by simp
  then have top: "m1 (b + len - 1) < push_bit s d" using nval_lt_msd [OF len, of m1 b]
    by (simp add: word_less_nat_alt)
  have "b \<le> a \<or> a + (len - 1) \<le> b" using disj by (auto simp: disjoint_regions_def)
  from bng_generic_div_rem_norm_digit_spec [where m = m1, OF len top this] obtain rem m2 where
    q: "bng_generic_div_rem_norm_digit m1 a b len (push_bit s d) = Some (rem, m2)"
    "nval m2 a (len - 1) = ?N * 2 ^ s div (unat d * 2 ^ s)"
    "unat rem = ?N * 2 ^ s mod (unat d * 2 ^ s)" "eq_outside a (len - 1) m1 m2"
    unfolding d1 left(1) by blast
  obtain c3 m3 where sr: "bng_generic_shift_right m2 b len s = (c3, m3)" by force
  note right = bng_generic_shift_right_spec [OF sr lz(1)]
  have "nval m2 b len = ?N * 2 ^ s"
    using nval_outside [OF q(4)] disj left(1) by (simp add: disjoint_regions_sym)
  then have b3: "nval m3 b len = ?N" using right(1) by simp
  have "nval m3 a (len - 1) = ?N div unat d" using nval_outside [OF right(2) disj] q(2) by simp
  moreover have "unat (drop_bit s rem) = ?N mod unat d"
    by (simp add: unat_drop_bit_u64 q(3) mult_mod_left [symmetric])
  moreover have "eq_outside a (len - 1) m m3"
    using b3
  proof (rule eq_outside_restored)
    show "m3 p = m p" if "p < a \<or> a + (len - 1) \<le> p" "p < b \<or> b + len \<le> p" for p
      using that left(2) q(4) right(2) by (auto simp: eq_outside_def)
  qed
  moreover have "bng_generic_div_rem_digit m a b len d = Some (drop_bit s rem, m3)"
    using sh q(1) sr by (simp add: bng_generic_div_rem_digit_def s_def [symmetric] Let_def)
  ultimately show ?thesis by blast
qed

section \<open>Long division\<close>

text \<open>
  The correction loop subtracts the divisor from the window of \<open>dlen + 1\<close>
  digits until it is smaller than the divisor; it returns for every nonzero
  divisor whose remaining quotient fits in the quotient digit.
\<close>

lemma window_ge_iff:
  assumes "D < BASE ^ k" and "lo < BASE ^ k"
  shows "hi \<noteq> 0 \<or> D \<le> lo \<longleftrightarrow> D \<le> lo + BASE ^ k * hi"
  using assms by (cases hi) auto

lemma bng_div_rem_adjust_step:
  assumes disj: "disjoint_regions (n + i) (Suc dlen) d dlen"
    and ge: "nval m d dlen \<le> nval m (n + i) (Suc dlen)"
    and run: "bng_generic_sub m (n + i) dlen d dlen 0 = (c, m1)"
    and m2: "m2 = m1(n + (i + dlen) := m1 (n + (i + dlen)) - ucast c)"
  shows "nval m2 (n + i) (Suc dlen) = nval m (n + i) (Suc dlen) - nval m d dlen"
    and "eq_outside (n + i) (Suc dlen) m m2"
proof -
  let ?hi = "m (n + (i + dlen))" and ?D = "nval m d dlen" and ?lo = "nval m (n + i) dlen"
  have "read_ahead (n + i) dlen d" using disj by (auto simp: disjoint_regions_def read_ahead_def)
  note sub = bng_generic_sub_spec [OF run order_refl _ this, simplified]
  have hi: "m1 (n + (i + dlen)) = ?hi" using sub(3) by (auto simp: eq_outside_def)
  have W: "nval m (n + i) (Suc dlen) = ?lo + BASE ^ dlen * unat ?hi"
    by (simp add: nval_snoc add.assoc del: nval.simps)
  have "unat c \<le> unat ?hi"
  proof (cases "unat ?hi = 0")
    case True
    then have "?D \<le> ?lo" using ge W by simp
    then have "unat c * BASE ^ dlen \<le> nval m1 (n + i) dlen" using sub(1) by linarith
    then have "unat c * BASE ^ dlen < BASE ^ dlen" using nval_lt by (rule le_less_trans)
    then show ?thesis by simp
  next
    case False
    then show ?thesis using sub(2) by linarith
  qed
  then have u: "unat (?hi - ucast c) = unat ?hi - unat c" by (simp add: unat_sub_BASE)
  have "nval m2 (n + i) (Suc dlen) = nval m1 (n + i) dlen + BASE ^ dlen * (unat ?hi - unat c)"
    by (simp add: m2 hi u nval_snoc add.assoc del: nval.simps)
  also have "\<dots> + ?D = ?lo + BASE ^ dlen * unat ?hi"
  proof -
    obtain r where r: "unat ?hi = unat c + r" using \<open>unat c \<le> unat ?hi\<close> le_Suc_ex by blast
    show ?thesis using sub(1) unfolding r by (simp add: algebra_simps)
  qed
  finally show "nval m2 (n + i) (Suc dlen) = nval m (n + i) (Suc dlen) - ?D" using W by linarith
  show "eq_outside (n + i) (Suc dlen) m m2" using sub(3) by (auto simp: m2 eq_outside_def)
qed

lemma bng_div_rem_adjust_spec:
  assumes "0 < nval m d dlen" and "disjoint_regions (n + i) (Suc dlen) d dlen"
    and "unat quo + nval m (n + i) (Suc dlen) div nval m d dlen < BASE"
  shows "\<exists>quo' m'. bng_div_rem_adjust m n d dlen i quo = Some (quo', m')
    \<and> unat quo' = unat quo + nval m (n + i) (Suc dlen) div nval m d dlen
    \<and> nval m' (n + i) (Suc dlen) = nval m (n + i) (Suc dlen) mod nval m d dlen
    \<and> eq_outside (n + i) (Suc dlen) m m'"
  using assms
proof (induction "nval m (n + i) (Suc dlen)" arbitrary: m quo rule: less_induct)
  case less
  let ?W = "nval m (n + i) (Suc dlen)" and ?D = "nval m d dlen"
  obtain c m1 where sub: "bng_generic_sub m (n + i) dlen d dlen 0 = (c, m1)" by force
  define m2 where "m2 = m1(n + (i + dlen) := m1 (n + (i + dlen)) - ucast c)"
  have test: "m (n + (i + dlen)) \<noteq> 0 \<or> bng_compare m (n + i) dlen d dlen \<ge> 0 \<longleftrightarrow> ?D \<le> ?W"
    using window_ge_iff [OF nval_lt [of m d dlen] nval_lt [of m "n + i"], of "unat (m (n + (i + dlen)))"]
    by (auto simp: bng_compare_spec nval_snoc unat_eq_zero add.assoc simp del: nval.simps)
  show ?case
  proof (cases "?D \<le> ?W")
    case True
    note step = bng_div_rem_adjust_step [OF less.prems(2) True sub m2_def]
    have D2: "nval m2 d dlen = ?D"
      using nval_outside [OF step(2)] less.prems(2) by (simp only: disjoint_regions_sym)
    have dm: "?W div ?D = Suc ((?W - ?D) div ?D)" "?W mod ?D = (?W - ?D) mod ?D"
      using True less.prems(1) by (simp_all add: le_div_geq le_mod_geq del: nval.simps)
    have q: "unat (quo + 1) = unat quo + 1"
      using less.prems(3) by (subst unat_add_exact) (simp_all add: dm(1) del: nval.simps)
    have "\<exists>quo' m'. bng_div_rem_adjust m2 n d dlen i (quo + 1) = Some (quo', m')
      \<and> unat quo' = unat (quo + 1) + nval m2 (n + i) (Suc dlen) div nval m2 d dlen
      \<and> nval m' (n + i) (Suc dlen) = nval m2 (n + i) (Suc dlen) mod nval m2 d dlen
      \<and> eq_outside (n + i) (Suc dlen) m2 m'"
      by (rule less.hyps; (unfold step(1) D2 q)?)
        (use True less.prems dm(1) in \<open>simp_all del: nval.simps\<close>)
    then show ?thesis
      using test True sub step(2) dm unfolding step(1) D2 q
      by (subst bng_div_rem_adjust.simps)
        (auto simp: m2_def [symmetric] Let_def simp del: nval.simps intro: eq_outside_trans)
  next
    case False
    then have "bng_div_rem_adjust m n d dlen i quo = Some (quo, m)"
      using test by (subst bng_div_rem_adjust.simps) simp
    then show ?thesis using False by (simp add: eq_outside_refl del: nval.simps)
  qed
qed

text \<open>
  The quotient estimate from the two top digits of the window never exceeds
  the true quotient digit.
\<close>

lemma estimate_arith:
  assumes W: "W = (h1 * BASE + h0) * P + L" and D: "D = T * P + D0"
    and "D0 < P" and "W < D * BASE"
  shows "h1 < T + 1" and "(h1 * BASE + h0) div (T + 1) * D \<le> W"
proof -
  have "h1 * (BASE * P) \<le> W" unfolding W by (simp add: algebra_simps)
  also have "\<dots> < D * BASE" by fact
  also have "\<dots> \<le> (T + 1) * P * BASE" unfolding D using \<open>D0 < P\<close>
    by (intro mult_right_mono) (simp_all add: algebra_simps)
  also have "\<dots> = (T + 1) * (BASE * P)" by (simp only: mult.assoc mult.commute [of P])
  finally show "h1 < T + 1" by (simp only: mult_less_cancel2)
  let ?q = "(h1 * BASE + h0) div (T + 1)"
  have "?q * D \<le> ?q * ((T + 1) * P)" unfolding D using \<open>D0 < P\<close>
    by (intro mult_left_mono) (simp_all add: algebra_simps)
  also have "\<dots> \<le> (h1 * BASE + h0) * P"
    unfolding mult.assoc [symmetric] by (intro mult_right_mono div_times_less_eq_dividend) simp
  also have "\<dots> \<le> W" unfolding W by simp
  finally show "?q * D \<le> W" .
qed

lemma bng_div_rem_estimate:
  assumes "unat nj < unat (topden :: bngdigit) + 1"
  shows "\<exists>quo. (if topden + 1 = 0 then Some nj else map_option fst (bng_div_aux nj nj1 (topden + 1))) = Some quo
    \<and> unat quo = (unat nj * BASE + unat nj1) div (unat topden + 1)"
proof (cases "unat topden + 1 = BASE")
  case True
  then have "unat (topden + 1) = 0" by (simp add: unat_add_BASE)
  then have "topden + 1 = 0" by (simp only: unat_eq_zero)
  then show ?thesis using True unat_lt_BASE [of nj1] by simp
next
  case False
  then have "unat topden + 1 < BASE" using unat_lt_BASE [of topden] by simp
  then have u: "unat (topden + 1) = unat topden + 1" by (subst unat_add_exact) simp_all
  then have "topden + 1 \<noteq> 0" by (metis add_is_0 one_neq_zero unat_0)
  moreover have "nj < topden + 1" using assms u by (simp only: word_less_nat_alt)
  ultimately show ?thesis using bng_div_aux_exact [of "topden + 1" nj nj1] u by auto
qed

text \<open>One round of the long division turns the window into its remainder and finds the quotient digit.\<close>

lemma bng_div_rem_round:
  assumes dlen: "0 < dlen" and disj: "disjoint_regions (n + i) (Suc dlen) d dlen"
    and D: "0 < nval m d dlen"
    and W: "nval m (n + i) (Suc dlen) < nval m d dlen * BASE"
    and td: "topden = m (d + dlen - 1)" and j: "j = i + dlen"
  shows "\<exists>quo out m1 quo' m3.
      (if topden + 1 = 0 then Some (m (n + j))
       else map_option fst (bng_div_aux (m (n + j)) (m (n + j - 1)) (topden + 1))) = Some quo
    \<and> bng_generic_mult_sub_digit m (n + i) dlen d dlen quo = (out, m1)
    \<and> bng_div_rem_adjust (m1(n + j := m1 (n + j) - out)) n d dlen i quo = Some (quo', m3)
    \<and> unat quo' = nval m (n + i) (Suc dlen) div nval m d dlen
    \<and> nval m3 (n + i) (Suc dlen) = nval m (n + i) (Suc dlen) mod nval m d dlen
    \<and> eq_outside (n + i) (Suc dlen) m m3"
proof -
  let ?W = "nval m (n + i) (Suc dlen)" and ?D = "nval m d dlen"
  obtain k where k: "dlen = Suc k" using dlen by (cases dlen) auto
  have Wk: "?W = (unat (m (n + j)) * BASE + unat (m (n + j - 1))) * BASE ^ k + nval m (n + i) k"
    by (simp add: nval_snoc j k algebra_simps del: nval.simps)
  have Dk: "?D = unat topden * BASE ^ k + nval m d k"
    by (simp add: nval_snoc td k algebra_simps del: nval.simps)
  note est = estimate_arith [OF Wk Dk nval_lt W]
  from bng_div_rem_estimate [OF est(1)] obtain quo where quo:
    "(if topden + 1 = 0 then Some (m (n + j))
      else map_option fst (bng_div_aux (m (n + j)) (m (n + j - 1)) (topden + 1))) = Some quo"
    "unat quo * ?D \<le> ?W" using est(2) by metis
  obtain out m1 where ms: "bng_generic_mult_sub_digit m (n + i) dlen d dlen quo = (out, m1)" by force
  have "read_ahead (n + i) dlen d" using disj by (auto simp: disjoint_regions_def read_ahead_def)
  note sub = bng_generic_mult_sub_digit_spec [OF ms order_refl this]
  define m2 where "m2 = m1(n + j := m1 (n + j) - out)"
  have Wj: "?W = nval m (n + i) dlen + BASE ^ dlen * unat (m (n + j))"
    by (simp add: nval_snoc j add.assoc del: nval.simps)
  have hi: "m1 (n + j) = m (n + j)" using sub(3) by (auto simp: eq_outside_def j)
  have "unat out * BASE ^ dlen \<le> nval m1 (n + i) dlen + BASE ^ dlen * unat (m (n + j))"
    using quo(2) sub(1) Wj by (simp add: algebra_simps)
  also have "\<dots> < (unat (m (n + j)) + 1) * BASE ^ dlen"
    using nval_lt [of m1 "n + i" dlen] by (simp add: algebra_simps)
  finally have "unat out < unat (m (n + j)) + 1" by (simp only: mult_less_cancel2)
  then obtain r where r: "unat (m (n + j)) = unat out + r" using le_Suc_ex [of "unat out" "unat (m (n + j))"] by auto
  have "unat (m (n + j) - out) = r" using r by (simp add: unat_sub_BASE)
  then have "nval m2 (n + i) (Suc dlen) = nval m1 (n + i) dlen + BASE ^ dlen * r"
    by (simp add: m2_def hi [unfolded j] nval_snoc j add.assoc del: nval.simps)
  then have "nval m2 (n + i) (Suc dlen) + unat quo * ?D = ?W"
    using sub(1) unfolding Wj r by (simp add: algebra_simps)
  then have W2: "?W = nval m2 (n + i) (Suc dlen) + unat quo * ?D" ..
  have out2: "eq_outside (n + i) (Suc dlen) m m2" using sub(3) by (auto simp: m2_def j eq_outside_def)
  have D2: "nval m2 d dlen = ?D" using nval_outside [OF out2] disj by (simp only: disjoint_regions_sym)
  have dm: "?W div ?D = unat quo + nval m2 (n + i) (Suc dlen) div ?D"
    "?W mod ?D = nval m2 (n + i) (Suc dlen) mod ?D"
    using D unfolding W2 by (simp_all del: nval.simps)
  have "?W div ?D < BASE" using W D by (simp add: div_less_iff_less_mult mult.commute del: nval.simps)
  then have "unat quo + nval m2 (n + i) (Suc dlen) div nval m2 d dlen < BASE" unfolding D2 dm .
  from bng_div_rem_adjust_spec [OF _ disj this] D D2 obtain quo' m3 where
    "bng_div_rem_adjust m2 n d dlen i quo = Some (quo', m3)" "unat quo' = ?W div ?D"
    "nval m3 (n + i) (Suc dlen) = ?W mod ?D" "eq_outside (n + i) (Suc dlen) m2 m3"
    unfolding dm by auto
  then show ?thesis using quo(1) ms eq_outside_trans [OF out2] unfolding m2_def by blast
qed

lemma divmod_compose:
  assumes "N = L + P * W" and "0 < (D :: nat)"
  shows "N div D = (L + P * (W mod D)) div D + P * (W div D)"
    and "N mod D = (L + P * (W mod D)) mod D"
proof -
  have "N = (L + P * (W mod D)) + P * (W div D) * D"
    unfolding assms(1) by (metis (no_types, lifting) add.assoc add.commute distrib_left mod_mult_div_eq mult.assoc mult.commute)
  then show "N div D = (L + P * (W mod D)) div D + P * (W div D)"
    "N mod D = (L + P * (W mod D)) mod D" using assms(2) by simp_all
qed

lemma bng_div_rem_loop_spec:
  assumes "0 < dlen" and "disjoint_regions n (dlen + i) d dlen" and "0 < nval m d dlen"
    and "nval m n (dlen + i) < nval m d dlen * BASE ^ i" and "topden = m (d + dlen - 1)"
  shows "\<exists>m'. bng_div_rem_loop m n d dlen topden i = Some m'
    \<and> nval m' n dlen = nval m n (dlen + i) mod nval m d dlen
    \<and> nval m' (n + dlen) i = nval m n (dlen + i) div nval m d dlen
    \<and> eq_outside n (dlen + i) m m'"
  using assms
proof (induction i arbitrary: m)
  case 0
  then show ?case by (simp add: eq_outside_refl)
next
  case (Suc i)
  let ?W = "nval m (n + i) (Suc dlen)" and ?D = "nval m d dlen" and ?j = "i + dlen"
  let ?N = "nval m n (dlen + Suc i)"
  have N: "?N = nval m n i + BASE ^ i * ?W"
    using nval_append [of m n i "Suc dlen"] by (simp add: add.commute del: nval.simps)
  then have "BASE ^ i * ?W \<le> ?N" by linarith
  also have "\<dots> < BASE ^ i * (?D * BASE)" using Suc.prems(4) by (simp add: mult.left_commute mult.commute del: nval.simps)
  finally have W: "?W < ?D * BASE" by (simp only: mult_less_cancel1)
  have "disjoint_regions (n + i) (Suc dlen) d dlen" using Suc.prems(2) by (auto simp: disjoint_regions_def)
  from bng_div_rem_round [OF Suc.prems(1) this Suc.prems(3) W Suc.prems(5) refl]
  obtain quo out m1 quo' m3 where r:
    "(if topden + 1 = 0 then Some (m (n + ?j))
      else map_option fst (bng_div_aux (m (n + ?j)) (m (n + ?j - 1)) (topden + 1))) = Some quo"
    "bng_generic_mult_sub_digit m (n + i) dlen d dlen quo = (out, m1)"
    "bng_div_rem_adjust (m1(n + ?j := m1 (n + ?j) - out)) n d dlen i quo = Some (quo', m3)"
    "unat quo' = ?W div ?D" "nval m3 (n + i) (Suc dlen) = ?W mod ?D"
    "eq_outside (n + i) (Suc dlen) m m3" by blast
  define m4 where "m4 = m3(n + ?j := quo')"
  have out4: "eq_outside (n + i) (Suc dlen) m m4" using r(6) by (auto simp: m4_def eq_outside_def)
  have D4: "nval m4 d dlen = ?D"
    using nval_outside [OF out4, of d dlen] Suc.prems(2) by (auto simp: disjoint_regions_def)
  have t4: "m4 (d + dlen - 1) = m (d + dlen - 1)"
    using nval_inject [OF D4, of "dlen - 1"] Suc.prems(1) by simp
  have "nval m3 (n + i) (Suc dlen) < BASE ^ dlen"
    unfolding r(5) using mod_less_divisor [OF Suc.prems(3)] nval_lt [of m d dlen] by (rule less_trans)
  then have "nval m3 (n + i) dlen = ?W mod ?D"
    using r(5) nval_snoc [of m3 "n + i" dlen] by (cases "unat (m3 (n + i + dlen))") auto
  then have hi: "nval m4 (n + i) dlen = ?W mod ?D" by (simp add: m4_def add.assoc)
  have "nval m4 n i = nval m n i" by (rule nval_outside [OF out4]) (simp add: disjoint_regions_def)
  then have N4: "nval m4 n (dlen + i) = nval m n i + BASE ^ i * (?W mod ?D)"
    using nval_append [of m4 n i dlen] hi by (simp only: add.commute [of dlen])
  also have "\<dots> < BASE ^ i * (?W mod ?D + 1)" using nval_lt [of m n i] by (simp del: nval.simps)
  also have "\<dots> \<le> BASE ^ i * ?D" using Suc.prems(3) by (intro mult_left_mono) (simp_all add: Suc_leI del: nval.simps)
  finally have lt4: "nval m4 n (dlen + i) < nval m4 d dlen * BASE ^ i" by (simp only: D4 mult.commute)
  have "\<exists>m'. bng_div_rem_loop m4 n d dlen topden i = Some m'
    \<and> nval m' n dlen = nval m4 n (dlen + i) mod nval m4 d dlen
    \<and> nval m' (n + dlen) i = nval m4 n (dlen + i) div nval m4 d dlen
    \<and> eq_outside n (dlen + i) m4 m'"
    using Suc.prems D4 t4 lt4 by (intro Suc.IH) (auto simp: disjoint_regions_def)
  then obtain m' where IH: "bng_div_rem_loop m4 n d dlen topden i = Some m'"
    "nval m' n dlen = nval m4 n (dlen + i) mod nval m4 d dlen"
    "nval m' (n + dlen) i = nval m4 n (dlen + i) div nval m4 d dlen"
    "eq_outside n (dlen + i) m4 m'" by blast
  have "m' (n + dlen + i) = quo'" using IH(4) by (auto simp: eq_outside_def m4_def ac_simps)
  then have "nval m' (n + dlen) (Suc i) = nval m' (n + dlen) i + BASE ^ i * (?W div ?D)"
    by (simp add: nval_snoc r(4) del: nval.simps)
  then have "nval m' (n + dlen) (Suc i) = ?N div ?D" "nval m' n dlen = ?N mod ?D"
    unfolding IH(2,3) N4 D4 using divmod_compose [OF N Suc.prems(3)] by simp_all
  moreover have "eq_outside n (dlen + Suc i) m m'" using IH(4) out4 by (auto simp: eq_outside_def)
  moreover have "bng_div_rem_loop m n d dlen topden (Suc i) = Some m'"
    using r(1-3) IH(1) by (simp add: Let_def m4_def [symmetric])
  ultimately show ?case by blast
qed

text \<open>The division proper, between normalisation and its undoing, for one digit and for more.\<close>

lemma bng_div_rem_core:
  assumes "0 < dlen" and "dlen < nlen" and disj: "disjoint_regions n nlen d dlen"
    and D: "0 < nval m d dlen" and N: "nval m n nlen < nval m d dlen * BASE ^ (nlen - dlen)"
  shows "\<exists>m'. (if dlen = 1
       then map_option (\<lambda>(rem, m3). m3(n := rem)) (bng_generic_div_rem_norm_digit m (n + 1) n nlen (m d))
       else bng_div_rem_loop m n d dlen (m (d + dlen - 1)) (nlen - dlen)) = Some m'
    \<and> nval m' n dlen = nval m n nlen mod nval m d dlen
    \<and> nval m' (n + dlen) (nlen - dlen) = nval m n nlen div nval m d dlen
    \<and> eq_outside n nlen m m'"
proof (cases "dlen = 1")
  case True
  have "0 < nlen" using assms(2) by simp
  moreover have "m (n + nlen - 1) < m d"
    using N nval_lt_msd [OF \<open>0 < nlen\<close>, of m n] True by (simp add: word_less_nat_alt)
  ultimately have "\<exists>rem m'. bng_generic_div_rem_norm_digit m (n + 1) n nlen (m d) = Some (rem, m')
    \<and> nval m' (n + 1) (nlen - 1) = nval m n nlen div unat (m d)
    \<and> unat rem = nval m n nlen mod unat (m d) \<and> eq_outside (n + 1) (nlen - 1) m m'"
    by (intro bng_generic_div_rem_norm_digit_spec) simp_all
  then show ?thesis using True \<open>0 < nlen\<close> by (auto simp: eq_outside_def)
next
  case False
  have "dlen + (nlen - dlen) = nlen" using assms(2) by simp
  then show ?thesis
    using False bng_div_rem_loop_spec [OF assms(1) _ D _ refl, of n "nlen - dlen"] disj N by simp
qed

lemma scaled_headroom:
  assumes "s < 64" and "x * 2 ^ s < BASE"
  shows "(x + 1) * 2 ^ s \<le> BASE"
proof -
  have B: "BASE = 2 ^ (64 - s) * 2 ^ s" using assms(1) by (simp add: BASE_def flip: power_add)
  have "x < 2 ^ (64 - s)" using assms(2) unfolding B by (simp only: mult_less_cancel2)
  then show ?thesis unfolding B by (intro mult_right_mono) simp_all
qed

lemma bng_generic_div_rem_spec:
  assumes dlen: "0 < dlen" and nlen: "dlen < nlen" and msd: "m (n + nlen - 1) < m (d + dlen - 1)"
    and disj: "disjoint_regions n nlen d dlen"
  shows "\<exists>m'. bng_generic_div_rem m n nlen d dlen = Some m'
    \<and> nval m' n dlen = nval m n nlen mod nval m d dlen
    \<and> nval m' (n + dlen) (nlen - dlen) = nval m n nlen div nval m d dlen
    \<and> eq_outside n nlen m m'"
proof -
  let ?N = "nval m n nlen" and ?D = "nval m d dlen" and ?x = "unat (m (d + dlen - 1))"
  define s where "s = nat (bng_leading_zero_bits (m (d + dlen - 1)))"
  have "m (d + dlen - 1) \<noteq> 0" using msd by auto
  note lz = bng_leading_zero_bits_spec [OF this, folded s_def]
  note x1 = scaled_headroom [OF lz(1,2)]
  have "0 < nlen" using nlen by simp
  have N: "?N < ?x * BASE ^ (nlen - 1)"
    using msd nval_lt_msd [OF \<open>0 < nlen\<close>, of m n] by (simp add: word_less_nat_alt)
  have D: "?D < (?x + 1) * BASE ^ (dlen - 1)" "?x * BASE ^ (dlen - 1) \<le> ?D"
    using nval_lt_msd [OF dlen, of m d] by (metis less_add_one, metis less_irrefl linorder_not_le)
  have "0 < ?D" using D(2) msd by (cases "?D = 0") (auto simp: unat_eq_zero)
  obtain c m1 where n1: "bng_generic_shift_left m n nlen s = (c, m1)" by force
  obtain c2 m2 where d1: "bng_generic_shift_left m1 d dlen s = (c2, m2)" by force
  note n1s = shift_left_fits [OF n1 lz(1) scaled_lt [OF N less_imp_le [OF lz(2)] \<open>0 < nlen\<close>]]
  have m1d: "nval m1 d dlen = ?D" using nval_outside [OF n1s(2)] disj by (simp only: disjoint_regions_sym)
  note d1s = shift_left_fits [OF d1 lz(1), unfolded m1d, OF scaled_lt [OF D(1) x1 dlen]]
  have m2n: "nval m2 n nlen = ?N * 2 ^ s" using nval_outside [OF d1s(2) disj] n1s(1) by simp
  have "?N < ?x * BASE ^ (dlen - 1) * BASE ^ (nlen - dlen)"
    using N dlen nlen by (simp add: mult.assoc flip: power_add)
  also have "\<dots> \<le> ?D * BASE ^ (nlen - dlen)" using D(2) by (rule mult_right_mono) simp
  finally have "nval m2 n nlen < nval m2 d dlen * BASE ^ (nlen - dlen)" unfolding m2n d1s(1) by simp
  from bng_div_rem_core [OF dlen nlen disj _ this] obtain m3 where core:
    "(if dlen = 1
       then map_option (\<lambda>(rem, m3). m3(n := rem)) (bng_generic_div_rem_norm_digit m2 (n + 1) n nlen (m2 d))
       else bng_div_rem_loop m2 n d dlen (m2 (d + dlen - 1)) (nlen - dlen)) = Some m3"
    "nval m3 n dlen = ?N * 2 ^ s mod (?D * 2 ^ s)"
    "nval m3 (n + dlen) (nlen - dlen) = ?N * 2 ^ s div (?D * 2 ^ s)"
    "eq_outside n nlen m2 m3" using \<open>0 < ?D\<close> unfolding m2n d1s(1) by auto
  obtain c4 m4 where n4: "bng_generic_shift_right m3 n dlen s = (c4, m4)" by force
  obtain c5 m5 where d5: "bng_generic_shift_right m4 d dlen s = (c5, m5)" by force
  note n4s = bng_generic_shift_right_spec [OF n4 lz(1)] and d5s = bng_generic_shift_right_spec [OF d5 lz(1)]
  have "bng_generic_div_rem m n nlen d dlen = Some m5"
    unfolding bng_generic_div_rem_def s_def [symmetric] Let_def n1 d1 case_prod_conv core(1) option.case n4 d5 ..
  moreover have "disjoint_regions n dlen d dlen" "disjoint_regions (n + dlen) (nlen - dlen) d dlen"
    "disjoint_regions (n + dlen) (nlen - dlen) n dlen" "disjoint_regions d dlen n dlen" "disjoint_regions d dlen n nlen"
    using disj nlen by (auto simp: disjoint_regions_def)
  note disjs = this
  have "nval m5 n dlen = ?N mod ?D"
    using nval_outside [OF d5s(2) disjs(1)] n4s(1) core(2) by (simp flip: mult_mod_left)
  moreover have "nval m5 (n + dlen) (nlen - dlen) = ?N div ?D"
    using nval_outside [OF d5s(2) disjs(2)] nval_outside [OF n4s(2) disjs(3)] core(3) by simp
  moreover have "nval m5 d dlen = ?D"
    using d5s(1) nval_outside [OF n4s(2) disjs(4)] nval_outside [OF core(4) disjs(5)] d1s(1) by simp
  then have "eq_outside n nlen m m5"
  proof (rule eq_outside_restored)
    show "m5 p = m p" if "p < n \<or> n + nlen \<le> p" "p < d \<or> d + dlen \<le> p" for p
      using that nlen n1s(2) d1s(2) core(4) n4s(2) d5s(2) by (auto simp: eq_outside_def)
  qed
  ultimately show ?thesis by blast
qed

end
