(* ===== verification/Bng_Contract.thy ===== *)
theory Bng_Contract
  imports Bng_Division
begin

text \<open>
  The contract of the table \<^verbatim>\<open>struct bng_operations\<close> of \<^verbatim>\<open>bng.h\<close>, which the
  stubs call and which a machine-specific implementation may override. The
  locales state what each entry promises, with the requirements written in
  the comments of \<^verbatim>\<open>bng.h\<close>; their lemmas hold for every table that keeps
  the contract. The generic table of \<^verbatim>\<open>bng.c\<close> interprets all of them.
\<close>

section \<open>Values determine memories and carries\<close>

lemma same_value_same_memory:
  assumes "nval m1 a n = nval m2 a n" and "eq_outside a n m m1" and "eq_outside a n m m2"
  shows "m1 = m2"
proof
  fix p
  show "m1 p = m2 p"
  proof (cases "a \<le> p \<and> p < a + n")
    case True
    then have "p - a < n" "a + (p - a) = p" by auto
    then show ?thesis using nval_inject [OF assms(1)] by metis
  next
    case False
    then have "p \<notin> {a..<a + n}" by auto
    then show ?thesis using assms(2,3) by (simp add: eq_outside_def)
  qed
qed

lemma split_unique:
  assumes "x + c * B = y + d * (B :: nat)" and "x < B" and "y < B"
  shows "x = y" and "c = d"
proof -
  have "x mod B = y mod B" using assms(1) by (metis mod_mult_self1 mult.commute)
  then show "x = y" using assms(2,3) by simp
  then show "c = d" using assms by auto
qed

section \<open>Addition and subtraction\<close>

locale bng_adder =
  fixes add sub :: "memory \<Rightarrow> ptr \<Rightarrow> nat \<Rightarrow> ptr \<Rightarrow> nat \<Rightarrow> bngcarry \<Rightarrow> bngcarry \<times> memory"
  assumes add_law: "add m a alen b blen c = (c', m') \<Longrightarrow> blen \<le> alen \<Longrightarrow> unat c \<le> 1 \<Longrightarrow>
      read_ahead a blen b \<Longrightarrow>
      nval m' a alen + unat c' * BASE ^ alen = nval m a alen + nval m b blen + unat c
      \<and> unat c' \<le> 1 \<and> eq_outside a alen m m'"
    and sub_law: "sub m a alen b blen c = (c', m') \<Longrightarrow> blen \<le> alen \<Longrightarrow> unat c \<le> 1 \<Longrightarrow>
      read_ahead a blen b \<Longrightarrow>
      nval m' a alen + (nval m b blen + unat c) = nval m a alen + unat c' * BASE ^ alen
      \<and> unat c' \<le> 1 \<and> eq_outside a alen m m'"
begin

lemma sub_after_add:
  assumes "add m a alen b blen c = (c1, m1)" and "sub m1 a alen b blen c = (c2, m2)"
    and "blen \<le> alen" and "unat c \<le> 1" and "disjoint_regions a alen b blen"
  shows "m2 = m" and "c2 = c1"
proof -
  have "read_ahead a blen b" using assms(5) assms(3) by (auto simp: read_ahead_def disjoint_regions_def)
  note a = add_law [OF assms(1,3,4) this] and s = sub_law [OF assms(2,3,4) this]
  have "nval m1 b blen = nval m b blen"
    using a assms(5) nval_outside [of a alen m m1 b blen] by (simp add: disjoint_regions_sym)
  then have "nval m2 a alen + unat c1 * BASE ^ alen = nval m a alen + unat c2 * BASE ^ alen"
    using a s by linarith
  note u = split_unique [OF this nval_lt nval_lt]
  show "m2 = m"
    using u(1) a s by (intro same_value_same_memory [of _ a alen _ m]) (auto simp: eq_outside_def)
  show "c2 = c1" using u(2) [symmetric] by (rule unsigned_word_eqI)
qed

lemma borrow_iff_less:
  assumes "sub m a alen b blen 0 = (c', m')" and "blen \<le> alen" and "read_ahead a blen b"
  shows "c' \<noteq> 0 \<longleftrightarrow> nval m a alen < nval m b blen"
proof -
  have s: "nval m' a alen + nval m b blen = nval m a alen + unat c' * BASE ^ alen" "unat c' \<le> 1"
    using sub_law [OF assms(1,2) _ assms(3)] by simp_all
  have "nval m a alen < nval m b blen" if "unat c' = 1"
    using s(1) nval_lt [of m' a alen] that by simp
  moreover have "nval m b blen \<le> nval m a alen" if "c' = 0" using s(1) that by simp
  ultimately show ?thesis using carry_cases [OF s(2)] by fastforce
qed

end

section \<open>Multiplication\<close>

locale bng_multiplier = bng_adder +
  fixes mult_add :: "memory \<Rightarrow> ptr \<Rightarrow> nat \<Rightarrow> ptr \<Rightarrow> nat \<Rightarrow> ptr \<Rightarrow> nat \<Rightarrow> bngcarry \<times> memory"
    and square_add :: "memory \<Rightarrow> ptr \<Rightarrow> nat \<Rightarrow> ptr \<Rightarrow> nat \<Rightarrow> bngcarry \<times> memory"
  assumes mult_add_law: "mult_add m a alen b blen c clen = (t, m') \<Longrightarrow> blen + clen \<le> alen \<Longrightarrow>
      disjoint_regions a alen b blen \<Longrightarrow> disjoint_regions a alen c clen \<Longrightarrow>
      nval m' a alen + unat t * BASE ^ alen = nval m a alen + nval m b blen * nval m c clen
      \<and> eq_outside a alen m m'"
    and square_add_law: "square_add m a alen b blen = (t, m') \<Longrightarrow> 0 < blen \<Longrightarrow> 2 * blen \<le> alen \<Longrightarrow>
      disjoint_regions a alen b blen \<Longrightarrow>
      nval m' a alen + unat t * BASE ^ alen = 2 * nval m a alen + nval m b blen ^ 2
      \<and> eq_outside a alen m m'"
begin

text \<open>On a cleared destination, squaring and multiplying a number by itself give the same memory.\<close>

lemma square_is_mult:
  assumes "square_add m a alen b blen = (t1, m1)" and "mult_add m a alen b blen b blen = (t2, m2)"
    and "nval m a alen = 0" and "0 < blen" and "2 * blen \<le> alen" and dis: "disjoint_regions a alen b blen"
  shows "m1 = m2" and "t1 = t2"
proof -
  have "nval m1 a alen + unat t1 * BASE ^ alen = nval m2 a alen + unat t2 * BASE ^ alen"
    and o: "eq_outside a alen m m1" "eq_outside a alen m m2"
    using square_add_law [OF assms(1,4,5) dis] mult_add_law [OF assms(2) _ dis dis] assms(3,5)
    by (simp_all add: power2_eq_square)
  note u = split_unique [OF this(1) nval_lt nval_lt]
  show "m1 = m2" using u(1) o by (rule same_value_same_memory)
  show "t1 = t2" using u(2) by (rule unsigned_word_eqI)
qed

end

section \<open>Division\<close>

locale bng_divider = bng_multiplier +
  fixes div_rem :: "memory \<Rightarrow> ptr \<Rightarrow> nat \<Rightarrow> ptr \<Rightarrow> nat \<Rightarrow> memory option"
  assumes div_rem_law: "0 < dlen \<Longrightarrow> dlen < nlen \<Longrightarrow> m (n + nlen - 1) < m (d + dlen - 1) \<Longrightarrow>
      disjoint_regions n nlen d dlen \<Longrightarrow>
      \<exists>m'. div_rem m n nlen d dlen = Some m'
        \<and> nval m' n dlen = nval m n nlen mod nval m d dlen
        \<and> nval m' (n + dlen) (nlen - dlen) = nval m n nlen div nval m d dlen
        \<and> eq_outside n nlen m m'"
begin

text \<open>
  Dividing, then multiplying the quotient by the divisor into a cleared
  buffer and adding the remainder, gives the dividend back with no carry.
\<close>

lemma divide_multiply:
  assumes "0 < dlen" and "dlen < nlen" and "m (n + nlen - 1) < m (d + dlen - 1)"
    and nd: "disjoint_regions n nlen d dlen" and rn: "disjoint_regions r nlen n nlen"
    and rd: "disjoint_regions r nlen d dlen" and r0: "nval m r nlen = 0"
  shows "\<exists>m1 t m2 c m3. div_rem m n nlen d dlen = Some m1
    \<and> mult_add m1 r nlen (n + dlen) (nlen - dlen) d dlen = (t, m2)
    \<and> add m2 r nlen n dlen 0 = (c, m3)
    \<and> nval m3 r nlen = nval m n nlen \<and> t = 0 \<and> c = 0"
proof -
  obtain m1 where d: "div_rem m n nlen d dlen = Some m1"
    "nval m1 n dlen = nval m n nlen mod nval m d dlen"
    "nval m1 (n + dlen) (nlen - dlen) = nval m n nlen div nval m d dlen" "eq_outside n nlen m m1"
    using div_rem_law [OF assms(1-4)] by blast
  obtain t m2 where t: "mult_add m1 r nlen (n + dlen) (nlen - dlen) d dlen = (t, m2)" by force
  obtain c m3 where c: "add m2 r nlen n dlen 0 = (c, m3)" by force
  have dis: "disjoint_regions r nlen (n + dlen) (nlen - dlen)" "disjoint_regions d dlen n nlen"
    "disjoint_regions n dlen r nlen" "read_ahead r dlen n"
    using rn nd \<open>dlen < nlen\<close> by (auto simp: disjoint_regions_def read_ahead_def)
  have d1: "nval m1 d dlen = nval m d dlen" by (rule nval_outside [OF d(4) dis(2)])
  have r1: "nval m1 r nlen = 0" using nval_outside [OF d(4) rn] r0 by simp
  have m2: "nval m2 r nlen + unat t * BASE ^ nlen = nval m n nlen div nval m d dlen * nval m d dlen"
    "eq_outside r nlen m1 m2"
    using mult_add_law [OF t _ dis(1) rd] d1 d(3) r1 \<open>dlen < nlen\<close> by simp_all
  have rem: "nval m2 n dlen = nval m n nlen mod nval m d dlen" using nval_outside [OF m2(2) dis(3)] d(2) by simp
  have m3: "nval m3 r nlen + unat c * BASE ^ nlen = nval m2 r nlen + nval m n nlen mod nval m d dlen"
    using add_law [OF c _ _ dis(4)] rem \<open>dlen < nlen\<close> by simp
  have "nval m3 r nlen + (unat c + unat t) * BASE ^ nlen = nval m n nlen + 0 * BASE ^ nlen"
    using m2(1) m3 div_mult_mod_eq [of "nval m n nlen" "nval m d dlen"] by (simp only: distrib_right)
  note u = split_unique [OF this nval_lt nval_lt]
  then have "t = 0" "c = 0" by (simp_all add: unat_eq_zero)
  then show ?thesis using d(1) t c u(1) by blast
qed

end

section \<open>The generic table\<close>

text \<open>\<^verbatim>\<open>bng_ops\<close> as \<^verbatim>\<open>bng.c\<close> initialises it.\<close>

interpretation generic: bng_divider bng_generic_add bng_generic_sub
  bng_generic_mult_add bng_generic_square_add bng_generic_div_rem
proof
qed (auto dest: bng_generic_add_spec bng_generic_sub_spec bng_generic_mult_add_spec bng_generic_square_add_spec
  simp: bng_generic_div_rem_spec)

text \<open>The count of digits is never 0, so the macro \<open>bng_is_zero\<close>, which compares it with 0, is false for every run.\<close>

lemma bng_is_zero_never: "\<not> bng_is_zero m a n"
  using bng_num_digits_bounds [of m a n] by (auto simp: bng_is_zero_def)

section \<open>Properties\<close>

text \<open>
  C5: Long division returns, and computes quotient and remainder exactly. Under
  the requirements of \<^verbatim>\<open>bng.h\<close> the quotient of \<open>{n,nlen}\<close> by \<open>{d,dlen}\<close> is left
  in the upper digits of \<open>n\<close> and the remainder in the lower ones; the divisor,
  which is normalised in place during the division, and all other memory are
  as before.
\<close>

theorem bng_div_rem_correct:
  assumes "0 < dlen" and "dlen < nlen" and "m (n + nlen - 1) < m (d + dlen - 1)"
    and "disjoint_regions n nlen d dlen"
  shows "\<exists>m'. bng_generic_div_rem m n nlen d dlen = Some m'
    \<and> nval m' n dlen = nval m n nlen mod nval m d dlen
    \<and> nval m' (n + dlen) (nlen - dlen) = nval m n nlen div nval m d dlen
    \<and> eq_outside n nlen m m'"
  using assms by (rule bng_generic_div_rem_spec)

theorem bng_div_rem_correct_witness:
  "\<exists>m'. bng_generic_div_rem (\<lambda>p. if p = 12 then 1 else if p = 21 then 5 else 9) 10 3 20 2 = Some m'
    \<and> nval m' 10 2 = (9 + BASE * (9 + BASE * 1)) mod (9 + BASE * 5)
    \<and> nval m' 12 1 = (9 + BASE * (9 + BASE * 1)) div (9 + BASE * 5)"
  using bng_div_rem_correct [of 2 3 "\<lambda>p. if p = 12 then 1 else if p = 21 then 5 else 9" 10 20]
  by (simp add: disjoint_regions_def) blast

text \<open>
  C6: Division is undone by multiplication. Multiplying the quotient that
  \<^verbatim>\<open>bng_div_rem\<close> leaves by the divisor into a cleared buffer, and adding the
  remainder, rebuilds the dividend, with no carry out of either step.
\<close>

theorem bng_divide_multiply:
  assumes "0 < dlen" and "dlen < nlen" and "m (n + nlen - 1) < m (d + dlen - 1)"
    and "disjoint_regions n nlen d dlen" and "disjoint_regions r nlen n nlen"
    and "disjoint_regions r nlen d dlen" and "nval m r nlen = 0"
  shows "\<exists>m1 t m2 c m3. bng_generic_div_rem m n nlen d dlen = Some m1
    \<and> bng_generic_mult_add m1 r nlen (n + dlen) (nlen - dlen) d dlen = (t, m2)
    \<and> bng_generic_add m2 r nlen n dlen 0 = (c, m3)
    \<and> nval m3 r nlen = nval m n nlen \<and> t = 0 \<and> c = 0"
  using assms by (rule generic.divide_multiply)

theorem bng_divide_multiply_witness:
  "\<exists>m1 t m2 c m3.
      bng_generic_div_rem (\<lambda>p. if p = 11 then 4 else if p = 20 then 5 else 0) 10 2 20 1 = Some m1
    \<and> bng_generic_mult_add m1 30 2 11 1 20 1 = (t, m2) \<and> bng_generic_add m2 30 2 10 1 0 = (c, m3)
    \<and> nval m3 30 2 = BASE * 4 \<and> t = 0 \<and> c = 0"
  using bng_divide_multiply [of 1 2 "\<lambda>p. if p = 11 then 4 else if p = 20 then 5 else 0" 10 20 30]
  by (simp add: disjoint_regions_def)

text \<open>
  C7: The product of two runs of digits is added to the destination exactly,
  with a carry of 0 or 1, provided the destination is long enough and does
  not overlap the factors. The factors may overlap each other.
\<close>

theorem bng_mult_add_correct:
  assumes "bng_generic_mult_add m a alen b blen c clen = (carry, m')" and "blen + clen \<le> alen"
    and "disjoint_regions a alen b blen" and "disjoint_regions a alen c clen"
  shows "nval m' a alen + unat carry * BASE ^ alen = nval m a alen + nval m b blen * nval m c clen
    \<and> unat carry \<le> 1 \<and> eq_outside a alen m m'"
  using bng_generic_mult_add_spec [OF assms] by blast

theorem bng_mult_add_correct_witness:
  "\<exists>carry m'. bng_generic_mult_add (\<lambda>p. of_nat p) 10 2 20 1 30 1 = (carry, m')
    \<and> nval m' 10 2 + unat carry * BASE ^ 2 = 10 + BASE * 11 + 20 * 30 \<and> eq_outside 10 2 (\<lambda>p. of_nat p) m'"
proof -
  obtain carry m' where run: "bng_generic_mult_add (\<lambda>p. of_nat p) 10 2 20 1 30 1 = (carry, m')" by force
  show ?thesis using bng_mult_add_correct [OF run] run by (simp add: disjoint_regions_def)
qed

text \<open>
  C8: Squaring agrees with multiplication. On a cleared destination
  \<^verbatim>\<open>bng_square_add\<close>, which doubles the cross products and adds the squares of
  the digits, leaves the same memory and carry as \<^verbatim>\<open>bng_mult_add\<close> of the
  number with itself.
\<close>

theorem bng_square_is_mult:
  assumes "bng_generic_square_add m a alen b blen = (t1, m1)"
    and "bng_generic_mult_add m a alen b blen b blen = (t2, m2)"
    and "nval m a alen = 0" and "0 < blen" and "2 * blen \<le> alen" and "disjoint_regions a alen b blen"
  shows "m1 = m2 \<and> t1 = t2"
  using generic.square_is_mult [OF assms] by blast

theorem bng_square_is_mult_witness:
  "\<exists>t m. bng_generic_square_add (\<lambda>p. if p = 20 then 3 else 0) 10 2 20 1 = (t, m)
    \<and> bng_generic_mult_add (\<lambda>p. if p = 20 then 3 else 0) 10 2 20 1 20 1 = (t, m)"
proof -
  obtain t1 m1 where 1: "bng_generic_square_add (\<lambda>p. if p = 20 then 3 else 0) 10 2 20 1 = (t1, m1)" by force
  obtain t2 m2 where 2: "bng_generic_mult_add (\<lambda>p. if p = 20 then 3 else 0) 10 2 20 1 20 1 = (t2, m2)" by force
  show ?thesis using bng_square_is_mult [OF 1 2] 1 2 by (simp add: disjoint_regions_def)
qed

text \<open>
  C9: Subtraction undoes addition: subtracting the same number with the same
  carry in restores every word of memory, and the borrow out equals the carry
  out of the addition.
\<close>

theorem bng_sub_after_add:
  assumes "bng_generic_add m a alen b blen c = (c1, m1)" and "bng_generic_sub m1 a alen b blen c = (c2, m2)"
    and "blen \<le> alen" and "unat c \<le> 1" and "disjoint_regions a alen b blen"
  shows "m2 = m \<and> c2 = c1"
  using generic.sub_after_add [OF assms] by blast

theorem bng_sub_after_add_witness:
  "\<exists>c1 m1. bng_generic_add (\<lambda>_. - 1) 0 3 8 2 1 = (c1, m1) \<and> bng_generic_sub m1 0 3 8 2 1 = (c1, \<lambda>_. - 1)"
proof -
  obtain c1 m1 where 1: "bng_generic_add (\<lambda>_. - 1) 0 3 8 2 1 = (c1, m1)" by force
  obtain c2 m2 where 2: "bng_generic_sub m1 0 3 8 2 1 = (c2, m2)" by force
  show ?thesis using bng_sub_after_add [OF 1 2] 1 2 by (simp add: disjoint_regions_def)
qed

text \<open>
  The borrow out of a subtraction decides the comparison: it is set
  exactly when the minuend is smaller, also when the operands overlap in a
  way that lets digits be read before they are overwritten.
\<close>

lemma bng_sub_borrow:
  assumes "bng_generic_sub m a alen b blen 0 = (c', m')" and "blen \<le> alen" and "read_ahead a blen b"
  shows "c' \<noteq> 0 \<longleftrightarrow> bng_compare m a alen b blen = -1"
  using generic.borrow_iff_less [OF assms] by (auto simp: bng_compare_spec)

text \<open>
  C10: The division of a double digit by a digit, from half-digit divisions
  with at most a few corrections, returns for every nonzero divisor greater
  than the high digit, with the exact quotient and remainder.
\<close>

theorem bng_div_aux_correct:
  assumes "d \<noteq> 0" and "nh < d"
  shows "\<exists>quo rem. bng_div_aux nh nl d = Some (quo, rem)
    \<and> unat quo = (unat nh * BASE + unat nl) div unat d
    \<and> unat rem = (unat nh * BASE + unat nl) mod unat d"
  using assms by (rule bng_div_aux_exact)

theorem bng_div_aux_correct_witness:
  "\<exists>quo rem. bng_div_aux 3 7 5 = Some (quo, rem) \<and> unat quo = (3 * BASE + 7) div 5 \<and> unat rem = (3 * BASE + 7) mod 5"
  using bng_div_aux_correct [of 5 3 7] by simp

text \<open>
  C11: Division of a run by one digit returns the remainder, writes the
  quotient, and leaves the dividend and everything else as it was, although
  the dividend is shifted in place meanwhile.
\<close>

theorem bng_div_rem_digit_correct:
  assumes "0 < len" and "m (b + len - 1) < d" and "disjoint_regions a (len - 1) b len"
  shows "\<exists>rem m'. bng_generic_div_rem_digit m a b len d = Some (rem, m')
    \<and> nval m' a (len - 1) = nval m b len div unat d
    \<and> unat rem = nval m b len mod unat d \<and> eq_outside a (len - 1) m m'"
  using assms by (rule bng_generic_div_rem_digit_spec)

theorem bng_div_rem_digit_correct_witness:
  "\<exists>rem m'. bng_generic_div_rem_digit (\<lambda>p. of_nat p) 20 5 2 10 = Some (rem, m')
    \<and> nval m' 20 1 = (5 + BASE * 6) div 10 \<and> unat rem = (5 + BASE * 6) mod 10"
  using bng_div_rem_digit_correct [of 2 "\<lambda>p. of_nat p" 5 10 20]
  by (simp add: disjoint_regions_def word_less_nat_alt) blast

text \<open>
  C12: The comparison of two runs orders the numbers, whatever their lengths
  and leading zeros.
\<close>

theorem bng_compare_correct:
  "bng_compare m a alen b blen =
     (if nval m a alen > nval m b blen then 1 else if nval m a alen < nval m b blen then -1 else 0)"
  by (rule bng_compare_spec)

text \<open>
  C13: The number of significant digits of a run is the least positive length
  that holds its number: leading zeros do not count, and zero, of any length,
  and the empty run have one digit.
\<close>

theorem bng_num_digits_correct:
  "bng_num_digits m a n = (LEAST k. 1 \<le> k \<and> nval m a n < BASE ^ k)"
proof (rule Least_equality [symmetric])
  let ?k = "bng_num_digits m a n"
  have b: "1 \<le> ?k" "?k \<le> max 1 n" using bng_num_digits_bounds [of m a n] by auto
  have "nval m a n < BASE ^ ?k"
  proof (cases "n = 0")
    case True
    then show ?thesis by (simp add: BASE_pos)
  next
    case False
    then have "nval m a ?k = nval m a n" using bng_num_digits_nval [of m a n] b by simp
    then show ?thesis using nval_lt [of m a ?k] by simp
  qed
  then show "1 \<le> ?k \<and> nval m a n < BASE ^ ?k" using b by simp
  show "?k \<le> k" if "1 \<le> k \<and> nval m a n < BASE ^ k" for k
  proof (rule ccontr)
    assume "\<not> ?k \<le> k"
    then have "BASE ^ k \<le> BASE ^ (?k - 1)" "1 < ?k" using that by (auto intro!: power_increasing simp: Suc_leI)
    then show False using bng_num_digits_least [of m a n] that by linarith
  qed
qed

text \<open>
  C14: The number of leading zero bits of a nonzero digit is the shift that
  brings its highest one bit to the top of the digit without losing a bit.
\<close>

theorem bng_leading_zero_bits_correct:
  assumes "d \<noteq> 0"
  shows "0 \<le> bng_leading_zero_bits d \<and> bng_leading_zero_bits d < 64
    \<and> unat (push_bit (nat (bng_leading_zero_bits d)) d) = unat d * 2 ^ nat (bng_leading_zero_bits d)
    \<and> 2 ^ 63 \<le> unat (push_bit (nat (bng_leading_zero_bits d)) d)"
proof -
  have "0 \<le> bng_leading_zero_bits d" using bng_leading_zero_bits_stages [OF assms] by auto
  then show ?thesis
    using bng_leading_zero_bits_spec [OF assms] unat_push_bit_fits [OF bng_leading_zero_bits_spec(2) [OF assms]]
    by auto
qed

theorem bng_leading_zero_bits_correct_witness:
  "2 ^ 63 \<le> unat (push_bit (nat (bng_leading_zero_bits 5)) (5 :: bngdigit))"
  using bng_leading_zero_bits_correct [of 5] by simp

end
