(* ===== verification/Mlvalues.thy ===== *)
theory Mlvalues
  imports Prelude
begin

text \<open>
  The uniform value representation of \<^verbatim>\<open>byterun/mlvalues.h\<close> and the block
  headers of \<^verbatim>\<open>byterun/gc.h\<close>, on a 64-bit little-endian machine: a value is
  a 64-bit word, either a tagged integer or the byte address of the first
  field of a block; a header packs the size in words, the colour and the tag.
  The lemmas give the ranges on which the conversions are inverse to each
  other, and show that recolouring a header leaves size and tag alone.
\<close>

section \<open>Tagged integers\<close>

type_synonym mlvalue = u64
type_synonym header_t = u64

definition Is_long :: "mlvalue \<Rightarrow> bool" where
  "Is_long x \<longleftrightarrow> x AND 1 \<noteq> 0"

definition Is_block :: "mlvalue \<Rightarrow> bool" where
  "Is_block x \<longleftrightarrow> x AND 1 = 0"

definition Val_long :: "u64 \<Rightarrow> mlvalue" where
  "Val_long x = push_bit 1 x + 1"

definition Long_val :: "mlvalue \<Rightarrow> u64" where
  "Long_val x = signed_drop_bit 1 x"

definition Max_long :: u64 where
  "Max_long = push_bit 62 1 - 1"

definition Min_long :: u64 where
  "Min_long = - push_bit 62 1"

definition Int_val :: "mlvalue \<Rightarrow> u32" where
  "Int_val x = ucast (Long_val x)"

definition Unsigned_long_val :: "mlvalue \<Rightarrow> u64" where
  "Unsigned_long_val x = drop_bit 1 x"

text \<open>\<^verbatim>\<open>Val_int\<close> of a C \<^verbatim>\<open>int\<close> sign-extends it.\<close>

definition Val_int :: "u32 \<Rightarrow> mlvalue" where
  "Val_int x = Val_long (scast x)"

definition Val_bool :: "bool \<Rightarrow> mlvalue" where
  "Val_bool x = Val_int (of_bool x)"

definition Val_unit :: mlvalue where "Val_unit = Val_int 0"
definition Val_false :: mlvalue where "Val_false = Val_int 0"
definition Val_true :: mlvalue where "Val_true = Val_int 1"

definition Val_not :: "mlvalue \<Rightarrow> mlvalue" where
  "Val_not x = Val_false + Val_true - x"

section \<open>Headers\<close>

definition Tag_hd :: "header_t \<Rightarrow> u32" where
  "Tag_hd h = ucast (h AND 0xFF)"

definition Wosize_hd :: "header_t \<Rightarrow> u64" where
  "Wosize_hd h = drop_bit 10 h"

definition Max_wosize :: u64 where
  "Max_wosize = push_bit 54 1 - 1"

abbreviation "No_scan_tag \<equiv> (251 :: u32)"
abbreviation "Forward_tag \<equiv> (250 :: u32)"
abbreviation "Infix_tag \<equiv> (249 :: u32)"
abbreviation "Object_tag \<equiv> (248 :: u32)"
abbreviation "Closure_tag \<equiv> (247 :: u32)"
abbreviation "Lazy_tag \<equiv> (246 :: u32)"
abbreviation "Abstract_tag \<equiv> (251 :: u32)"
abbreviation "String_tag \<equiv> (252 :: u32)"
abbreviation "Double_tag \<equiv> (253 :: u32)"
abbreviation "Double_array_tag \<equiv> (254 :: u32)"
abbreviation "Custom_tag \<equiv> (255 :: u32)"

definition Caml_white :: u64 where "Caml_white = push_bit 8 0"
definition Caml_gray :: u64 where "Caml_gray = push_bit 8 1"
definition Caml_blue :: u64 where "Caml_blue = push_bit 8 2"
definition Caml_black :: u64 where "Caml_black = push_bit 8 3"

definition Color_hd :: "header_t \<Rightarrow> u64" where
  "Color_hd h = h AND Caml_black"

definition Whitehd_hd :: "header_t \<Rightarrow> header_t" where
  "Whitehd_hd h = h AND NOT Caml_black"

definition Grayhd_hd :: "header_t \<Rightarrow> header_t" where
  "Grayhd_hd h = h AND NOT Caml_black OR Caml_gray"

definition Blackhd_hd :: "header_t \<Rightarrow> header_t" where
  "Blackhd_hd h = h OR Caml_black"

definition Bluehd_hd :: "header_t \<Rightarrow> header_t" where
  "Bluehd_hd h = h AND NOT Caml_black OR Caml_blue"

definition Make_header :: "u64 \<Rightarrow> u32 \<Rightarrow> u64 \<Rightarrow> header_t" where
  "Make_header wosize tag color = push_bit 10 wosize + color + ucast tag"

definition Colornum_hd :: "header_t \<Rightarrow> u64" where
  "Colornum_hd h = drop_bit 8 h AND 3"

definition Coloredhd_hd :: "header_t \<Rightarrow> u64 \<Rightarrow> header_t" where
  "Coloredhd_hd h colnum = h AND NOT Caml_black OR push_bit 8 colnum"

section \<open>Sizes\<close>

definition Whsize_wosize :: "u64 \<Rightarrow> u64" where "Whsize_wosize sz = sz + 1"
definition Wosize_whsize :: "u64 \<Rightarrow> u64" where "Wosize_whsize sz = sz - 1"
definition Bsize_wsize :: "u64 \<Rightarrow> u64" where "Bsize_wsize sz = sz * 8"
definition Wsize_bsize :: "u64 \<Rightarrow> u64" where "Wsize_bsize sz = sz div 8"
definition Bhsize_wosize :: "u64 \<Rightarrow> u64" where "Bhsize_wosize sz = Bsize_wsize (Whsize_wosize sz)"
definition Wosize_bhsize :: "u64 \<Rightarrow> u64" where "Wosize_bhsize sz = sz div 8 - 1"
definition Bosize_hd :: "header_t \<Rightarrow> u64" where "Bosize_hd h = Bsize_wsize (Wosize_hd h)"
definition Whsize_hd :: "header_t \<Rightarrow> u64" where "Whsize_hd h = Whsize_wosize (Wosize_hd h)"

section \<open>Blocks in memory\<close>

text \<open>
  Memory is indexed by words, so the block at the (8-aligned) byte address
  \<open>v\<close> has its first field at index \<open>v / 8\<close> and its header just before it.
\<close>

definition Op_val :: "mlvalue \<Rightarrow> ptr" where
  "Op_val v = unat v div 8"

definition Field :: "memory \<Rightarrow> mlvalue \<Rightarrow> nat \<Rightarrow> mlvalue" where
  "Field m v i = m (Op_val v + i)"

definition Hd_val :: "memory \<Rightarrow> mlvalue \<Rightarrow> header_t" where
  "Hd_val m v = m (Op_val v - 1)"

definition Wosize_val :: "memory \<Rightarrow> mlvalue \<Rightarrow> u64" where
  "Wosize_val m v = Wosize_hd (Hd_val m v)"

definition Bosize_val :: "memory \<Rightarrow> mlvalue \<Rightarrow> u64" where
  "Bosize_val m v = Bsize_wsize (Wosize_val m v)"

text \<open>Little-endian: \<^verbatim>\<open>Tag_val\<close> reads the lowest byte of the header.\<close>

definition Tag_val :: "memory \<Rightarrow> mlvalue \<Rightarrow> u8" where
  "Tag_val m v = ucast (Hd_val m v)"

definition Byte_u :: "memory \<Rightarrow> mlvalue \<Rightarrow> nat \<Rightarrow> u8" where
  "Byte_u m v i = ucast (drop_bit (8 * (i mod 8)) (m (Op_val v + i div 8)))"

text \<open>\<^verbatim>\<open>caml_string_length\<close> of \<^verbatim>\<open>byterun/str.c\<close>.\<close>

definition caml_string_length :: "memory \<Rightarrow> mlvalue \<Rightarrow> u64" where
  "caml_string_length m s =
     (let temp = Bosize_val m s - 1 in temp - ucast (Byte_u m s (unat temp)))"

section \<open>Tagged integers: lemmas\<close>

lemma Is_block_iff: "Is_block x \<longleftrightarrow> \<not> Is_long x"
  by (simp add: Is_block_def Is_long_def)

lemma Is_long_odd: "Is_long x \<longleftrightarrow> odd x"
  by (auto simp: Is_long_def and_one_eq odd_iff_mod_2_eq_one)

lemma Is_long_Val_long [simp]: "Is_long (Val_long x)"
  by (simp add: Is_long_odd Val_long_def push_bit_eq_mult)

lemma Val_long_or: "Val_long x = push_bit 1 x OR 1"
  by (simp add: Val_long_def disjunctive_add_eq_or push_bit_eq_mult and_one_eq bit_eq_iff)

text \<open>
  Untagging is exact on signed 63-bit integers; the C expression
  \<^verbatim>\<open>x >> 1\<close> is an arithmetic shift, so it keeps the sign.
\<close>

lemma sint_Long_val: "sint (Long_val x) = sint x div 2"
  by (simp add: Long_val_def sint_signed_drop_bit_eq drop_bit_eq_div)

lemma sint_Val_long:
  assumes "sint x \<in> {- (2 ^ 62)..<2 ^ 62}"
  shows "sint (Val_long x) = 2 * sint x + 1"
proof -
  have "Val_long x = word_of_int (2 * sint x + 1)"
    by (simp add: Val_long_def push_bit_eq_mult)
  then show ?thesis using assms by (simp add: sint_sbintrunc' signed_take_bit_int_eq_self del: of_int_add of_int_mult)
qed

lemma Long_val_Val_long:
  assumes "sint x \<in> {- (2 ^ 62)..<2 ^ 62}"
  shows "Long_val (Val_long x) = x"
proof -
  have "sint (Long_val (Val_long x)) = sint x" using assms by (simp add: sint_Long_val sint_Val_long)
  then show ?thesis by (rule signed_word_eqI)
qed

lemma Val_long_Long_val:
  assumes "Is_long v"
  shows "Val_long (Long_val v) = v"
proof -
  have "odd (sint v)" using assms bit_sint_iff [of v 0] by (simp add: Is_long_odd bit_0)
  then have e: "2 * (sint v div 2) + 1 = sint v" by presburger
  have "sint v \<in> {- (2 ^ 63)..<2 ^ 63}" using sint_ge [of v] sint_lt [of v] by simp
  then have "sint v div 2 \<in> {- (2 ^ 62)..<2 ^ 62}" by auto
  then have "sint (Val_long (Long_val v)) = sint v"
    using e by (simp add: sint_Val_long sint_Long_val)
  then show ?thesis by (rule signed_word_eqI)
qed

lemma Is_long_sint: "Is_long v \<Longrightarrow> sint v = 2 * sint (Long_val v) + 1"
proof -
  assume "Is_long v"
  then have "odd (sint v)" using bit_sint_iff [of v 0] by (simp add: Is_long_odd bit_0)
  then show ?thesis by (simp add: sint_Long_val)
qed

text \<open>The tagged form of an integer.\<close>

abbreviation tagged :: "int \<Rightarrow> mlvalue" where
  "tagged i \<equiv> Val_long (word_of_int i)"

lemma Long_val_tagged:
  assumes "i \<in> {- (2 ^ 62)..<2 ^ 62}"
  shows "sint (Long_val (tagged i)) = i"
proof -
  have "sint (word_of_int i :: u64) = i"
    using assms by (simp add: sint_sbintrunc' signed_take_bit_int_eq_self)
  with assms show ?thesis by (simp add: Long_val_Val_long)
qed

lemma sint_tagged: "i \<in> {- (2 ^ 62)..<2 ^ 62} \<Longrightarrow> sint (tagged i) = 2 * i + 1"
  using Is_long_sint [of "tagged i"] Long_val_tagged [of i] by simp

lemma tagged_add2: "tagged i + 2 = tagged (i + 1)"
  by (simp add: Val_long_def push_bit_eq_mult)

lemma Int_val_Val_int: "Int_val (Val_int k) = k"
proof -
  have b: "- (2 ^ 31) \<le> sint k" "sint k < 2 ^ 31" using sint_ge [of k] sint_lt [of k] by simp_all
  then have "sint (scast k :: u64) = sint k" by (simp add: signed_scast_eq signed_take_bit_int_eq_self)
  with b have "Long_val (Val_int k) = scast k" unfolding Val_int_def by (intro Long_val_Val_long) simp
  moreover have "ucast (scast k :: u64) = k" by (rule bit_word_eqI) (simp add: bit_simps)
  ultimately show ?thesis by (simp add: Int_val_def)
qed

lemma sint_Int_val:
  assumes "i \<in> {- (2 ^ 31)..<2 ^ 31}"
  shows "sint (Int_val (Val_int (word_of_int i))) = i"
  using assms by (simp add: Int_val_Val_int sint_sbintrunc' signed_take_bit_int_eq_self)

lemma sint_Max_long: "sint Max_long = 2 ^ 62 - 1" and sint_Min_long: "sint Min_long = - (2 ^ 62)"
  by (simp_all add: Max_long_def Min_long_def)

section \<open>Headers: lemmas\<close>

lemma bit_colour [simp]:
  "bit Caml_black n \<longleftrightarrow> n = 8 \<or> n = 9"
  "bit Caml_gray n \<longleftrightarrow> n = 8"
  "bit Caml_blue n \<longleftrightarrow> n = 9"
  by (simp_all add: Caml_black_def Caml_gray_def Caml_blue_def bit_push_bit_iff bit_numeral_rec bit_1_iff
    split: nat.splits) (auto split: nat.splits)

lemma bit_u64_len: "bit (h :: u64) (10 + n) \<Longrightarrow> n < 54"
  using bit_imp_le_length [of h "10 + n"] by simp

lemma unat_Wosize_hd: "unat (Wosize_hd h) < 2 ^ 54"
proof -
  have "unat h < 2 ^ 54 * 2 ^ 10" using unat_less_2_64 [of h] by simp
  then show ?thesis unfolding Wosize_hd_def unat_drop_bit_u64 by (rule less_mult_imp_div_less)
qed

text \<open>Every recolouring sets the colour and keeps size and tag.\<close>

lemma recolour_size:
  "Wosize_hd (Whitehd_hd h) = Wosize_hd h" "Wosize_hd (Grayhd_hd h) = Wosize_hd h"
  "Wosize_hd (Blackhd_hd h) = Wosize_hd h" "Wosize_hd (Bluehd_hd h) = Wosize_hd h"
  by (auto simp: Wosize_hd_def Whitehd_hd_def Grayhd_hd_def Blackhd_hd_def Bluehd_hd_def
      bit_simps intro!: bit_eqI dest: bit_u64_len)

lemma Tag_hd_take_bit: "Tag_hd h = ucast (take_bit 8 h)"
  by (simp add: Tag_hd_def take_bit_eq_mask mask_eq_exp_minus_1)

lemma recolour_tag:
  "Tag_hd (Whitehd_hd h) = Tag_hd h" "Tag_hd (Grayhd_hd h) = Tag_hd h"
  "Tag_hd (Blackhd_hd h) = Tag_hd h" "Tag_hd (Bluehd_hd h) = Tag_hd h"
  by (auto simp: Tag_hd_take_bit Whitehd_hd_def Grayhd_hd_def Blackhd_hd_def Bluehd_hd_def
      bit_simps intro!: bit_eqI)

lemma recolour_colour:
  "Color_hd (Whitehd_hd h) = Caml_white" "Color_hd (Grayhd_hd h) = Caml_gray"
  "Color_hd (Blackhd_hd h) = Caml_black" "Color_hd (Bluehd_hd h) = Caml_blue"
  by (auto simp: Color_hd_def Whitehd_hd_def Grayhd_hd_def Blackhd_hd_def Bluehd_hd_def Caml_white_def
      bit_simps intro!: bit_eqI)

text \<open>The packed fields can be read back.\<close>

lemma Make_header_or:
  assumes "unat tag < 256" and "\<And>n. bit color n \<Longrightarrow> n = 8 \<or> n = 9"
  shows "Make_header wosize tag color = push_bit 10 wosize OR color OR ucast tag"
proof -
  have t: "\<not> bit tag n" if "8 \<le> n" for n
  proof -
    have "take_bit 8 (unat tag) = unat tag" using assms(1) by (simp add: take_bit_nat_eq_self)
    then have "take_bit 8 tag = tag" by (metis unsigned_take_bit_eq unsigned_word_eqI)
    then show ?thesis using that by (metis bit_take_bit_iff linorder_not_le)
  qed
  have "push_bit 10 wosize AND color = 0"
    by (rule bit_eqI) (auto simp: bit_simps dest!: assms(2))
  then have 1: "push_bit 10 wosize + color = push_bit 10 wosize OR color" by (rule disjunctive_add_eq_or)
  have "(push_bit 10 wosize OR color) AND ucast tag = 0"
    by (rule bit_eqI) (auto simp: bit_simps t dest!: assms(2))
  then show ?thesis unfolding Make_header_def 1 by (simp add: disjunctive_add_eq_or or.assoc)
qed

lemma Make_header_fields:
  assumes "wosize \<le> Max_wosize" and "unat tag < 256" and "color \<in> {Caml_white, Caml_gray, Caml_blue, Caml_black}"
  shows "Wosize_hd (Make_header wosize tag color) = wosize"
    and "Tag_hd (Make_header wosize tag color) = tag"
    and "Color_hd (Make_header wosize tag color) = color"
proof -
  have c: "n = 8 \<or> n = 9" if "bit color n" for n
    using that assms(3) by (auto simp: Caml_white_def)
  have h: "Make_header wosize tag color = push_bit 10 wosize OR color OR ucast tag"
    using assms(2) c by (rule Make_header_or)
  have "unat wosize < 2 ^ 54" using assms(1) by (simp add: Max_wosize_def word_le_nat_alt)
  then have "take_bit 54 wosize = wosize" by (rule take_bit_u64_self)
  then have w: "n < 54" if "bit wosize n" for n using that by (metis bit_take_bit_iff)
  have "take_bit 8 (unat tag) = unat tag" using assms(2) by (simp add: take_bit_nat_eq_self)
  then have "take_bit 8 tag = tag" by (metis unsigned_take_bit_eq unsigned_word_eqI)
  then have t: "n < 8" if "bit tag n" for n using that by (metis bit_take_bit_iff)
  show "Wosize_hd (Make_header wosize tag color) = wosize"
    unfolding h Wosize_hd_def
    by (rule bit_eqI) (auto simp: bit_simps dest: w t c dest: bit_u64_len)
  show "Tag_hd (Make_header wosize tag color) = tag"
    unfolding h Tag_hd_take_bit
    by (rule bit_eqI) (auto simp: bit_simps dest: w t c)
  show "Color_hd (Make_header wosize tag color) = color"
    unfolding h Color_hd_def
    by (rule bit_eqI) (auto simp: bit_simps dest: w t c)
qed

lemma header_eqI:
  assumes "Wosize_hd h = Wosize_hd h'" "Tag_hd h = Tag_hd h'" "Color_hd h = Color_hd h'"
  shows "h = h'"
proof (rule bit_word_eqI)
  fix n
  assume "n < LENGTH(64)"
  then consider "n < 8" | "n = 8 \<or> n = 9" | "10 \<le> n" "n < 64" by fastforce
  then show "bit h n = bit h' n"
  proof cases
    case 1
    then show ?thesis using arg_cong [OF assms(2), of "\<lambda>w. bit w n"]
      by (simp add: Tag_hd_take_bit bit_simps)
  next
    case 2
    then show ?thesis using arg_cong [OF assms(3), of "\<lambda>w. bit w n"] by (auto simp: Color_hd_def bit_simps)
  next
    case 3
    then show ?thesis using arg_cong [OF assms(1), of "\<lambda>w. bit w (n - 10)"]
      by (simp add: Wosize_hd_def bit_simps)
  qed
qed

section \<open>Properties\<close>

text \<open>
  C21: Tagged integers and untagged ones correspond one to one: untagging
  undoes tagging on the signed 63-bit range, from \<^verbatim>\<open>Min_long\<close> to \<^verbatim>\<open>Max_long\<close>,
  and on no other integer, and tagging undoes untagging on every long value.
\<close>

theorem Val_long_Long_val_iff:
  "(Long_val (Val_long x) = x \<longleftrightarrow> sint Min_long \<le> sint x \<and> sint x \<le> sint Max_long)
    \<and> (Is_long v \<longleftrightarrow> Val_long (Long_val v) = v)"
proof -
  have "sint x \<in> {- (2 ^ 62)..<2 ^ 62}" if "Long_val (Val_long x) = x"
  proof -
    have "sint x = sint (Val_long x) div 2" using that sint_Long_val [of "Val_long x"] by simp
    moreover have "sint (Val_long x) \<in> {- (2 ^ 63)..<2 ^ 63}"
      using sint_ge [of "Val_long x"] sint_lt [of "Val_long x"] by simp
    ultimately show ?thesis by auto
  qed
  then have "Long_val (Val_long x) = x \<longleftrightarrow> sint x \<in> {- (2 ^ 62)..<2 ^ 62}"
    using Long_val_Val_long by blast
  also have "\<dots> \<longleftrightarrow> sint Min_long \<le> sint x \<and> sint x \<le> sint Max_long"
    unfolding sint_Max_long sint_Min_long by auto
  finally have "Long_val (Val_long x) = x \<longleftrightarrow> sint Min_long \<le> sint x \<and> sint x \<le> sint Max_long" .
  moreover have "Is_long v \<longleftrightarrow> Val_long (Long_val v) = v"
    using Val_long_Long_val [of v] Is_long_Val_long [of "Long_val v"] by metis
  ultimately show ?thesis by blast
qed

text \<open>
  C22: A header built from a size up to \<^verbatim>\<open>Max_wosize\<close>, a byte tag and a colour
  gives each of the three back, and recolouring it changes only the colour.
\<close>

theorem Make_header_round_trip:
  assumes "wosize \<le> Max_wosize" and "unat tag < 256" and "color \<in> {Caml_white, Caml_gray, Caml_blue, Caml_black}"
  shows "let h = Make_header wosize tag color in
      Wosize_hd h = wosize \<and> Tag_hd h = tag \<and> Color_hd h = color
    \<and> Bluehd_hd h = Make_header wosize tag Caml_blue \<and> Whitehd_hd h = Make_header wosize tag Caml_white"
proof -
  note f = Make_header_fields [OF assms] Make_header_fields [OF assms(1,2), of Caml_blue]
    Make_header_fields [OF assms(1,2), of Caml_white]
  have "Bluehd_hd h = Make_header wosize tag Caml_blue" "Whitehd_hd h = Make_header wosize tag Caml_white"
    if "h = Make_header wosize tag color" for h
    by (rule header_eqI; use f in \<open>simp add: that recolour_size recolour_tag recolour_colour\<close>)+
  then show ?thesis unfolding Let_def using f by simp
qed

theorem Make_header_round_trip_witness:
  "Wosize_hd (Make_header 5 247 Caml_gray) = 5 \<and> Tag_hd (Make_header 5 247 Caml_gray) = 247"
  using Make_header_round_trip [of 5 247 Caml_gray] by (simp add: Max_wosize_def Let_def)

end
