(* ===== verification/Nat_Stubs.thy ===== *)
theory Nat_Stubs
  imports Bng_Division Mlvalues
begin

text \<open>
  The stubs of the \<^verbatim>\<open>Nat\<close> module, \<^verbatim>\<open>otherlibs/num/nat_stubs.c\<close>: each takes
  OCaml values, converts offsets and lengths, and runs a \<^verbatim>\<open>bng\<close> operation on
  the digits of a custom block. The module's carry convention for
  subtraction is the complement of the one of \<^verbatim>\<open>bng.c\<close>. Also modelled are
  hashing and the wire format used by marshalling; the byte streams of
  \<^verbatim>\<open>extern.c\<close> and \<^verbatim>\<open>intern.c\<close> are lists of bytes.
\<close>

section \<open>Stubs\<close>

text \<open>The address \<^verbatim>\<open>&Digit_val(nat, Long_val(ofs))\<close>: digits start after the operations pointer.\<close>

definition digit_ptr :: "mlvalue \<Rightarrow> mlvalue \<Rightarrow> ptr" where
  "digit_ptr nt ofs = nat (int (Op_val nt) + 1 + sint (Long_val ofs))"

definition len_val :: "mlvalue \<Rightarrow> nat" where
  "len_val len = unat (Long_val len)"

definition length_nat :: "memory \<Rightarrow> mlvalue \<Rightarrow> mlvalue" where
  "length_nat m nt = Val_long (Wosize_val m nt - 1)"

definition set_to_zero_nat :: "memory \<Rightarrow> mlvalue \<Rightarrow> mlvalue \<Rightarrow> mlvalue \<Rightarrow> mlvalue \<times> memory" where
  "set_to_zero_nat m nt ofs len = (Val_unit, bng_zero m (digit_ptr nt ofs) (len_val len))"

definition blit_nat ::
    "memory \<Rightarrow> mlvalue \<Rightarrow> mlvalue \<Rightarrow> mlvalue \<Rightarrow> mlvalue \<Rightarrow> mlvalue \<Rightarrow> mlvalue \<times> memory" where
  "blit_nat m nat1 ofs1 nat2 ofs2 len =
     (Val_unit, bng_assign m (digit_ptr nat1 ofs1) (digit_ptr nat2 ofs2) (len_val len))"

definition set_digit_nat :: "memory \<Rightarrow> mlvalue \<Rightarrow> mlvalue \<Rightarrow> mlvalue \<Rightarrow> mlvalue \<times> memory" where
  "set_digit_nat m nt ofs digit = (Val_unit, m(digit_ptr nt ofs := Long_val digit))"

definition nth_digit_nat :: "memory \<Rightarrow> mlvalue \<Rightarrow> mlvalue \<Rightarrow> mlvalue" where
  "nth_digit_nat m nt ofs = Val_long (m (digit_ptr nt ofs))"

definition set_digit_nat_native :: "memory \<Rightarrow> mlvalue \<Rightarrow> mlvalue \<Rightarrow> mlvalue \<Rightarrow> mlvalue \<times> memory" where
  "set_digit_nat_native m nt ofs digit = (Val_unit, m(digit_ptr nt ofs := Field m digit 1))"

definition num_digits_nat :: "memory \<Rightarrow> mlvalue \<Rightarrow> mlvalue \<Rightarrow> mlvalue \<Rightarrow> mlvalue" where
  "num_digits_nat m nt ofs len = Val_long (of_nat (bng_num_digits m (digit_ptr nt ofs) (len_val len)))"

definition num_leading_zero_bits_in_digit :: "memory \<Rightarrow> mlvalue \<Rightarrow> mlvalue \<Rightarrow> mlvalue" where
  "num_leading_zero_bits_in_digit m nt ofs =
     Val_long (word_of_int (bng_leading_zero_bits (m (digit_ptr nt ofs))))"

definition is_digit_int :: "memory \<Rightarrow> mlvalue \<Rightarrow> mlvalue \<Rightarrow> mlvalue" where
  "is_digit_int m nt ofs = Val_bool (m (digit_ptr nt ofs) \<le> Max_long)"

definition is_digit_zero :: "memory \<Rightarrow> mlvalue \<Rightarrow> mlvalue \<Rightarrow> mlvalue" where
  "is_digit_zero m nt ofs = Val_bool (m (digit_ptr nt ofs) = 0)"

definition is_digit_normalized :: "memory \<Rightarrow> mlvalue \<Rightarrow> mlvalue \<Rightarrow> mlvalue" where
  "is_digit_normalized m nt ofs = Val_bool (m (digit_ptr nt ofs) AND push_bit (BNG_BITS_PER_DIGIT - 1) 1 \<noteq> 0)"

definition is_digit_odd :: "memory \<Rightarrow> mlvalue \<Rightarrow> mlvalue \<Rightarrow> mlvalue" where
  "is_digit_odd m nt ofs = Val_bool (m (digit_ptr nt ofs) AND 1 \<noteq> 0)"

text \<open>A \<^verbatim>\<open>bngcarry\<close> result is zero-extended by \<^verbatim>\<open>Val_long\<close>; a carry argument is truncated to 32 bits.\<close>

definition val_carry :: "bngcarry \<times> memory \<Rightarrow> mlvalue \<times> memory" where
  "val_carry = (\<lambda>(c, m). (Val_long (ucast c), m))"

definition incr_nat :: "memory \<Rightarrow> mlvalue \<Rightarrow> mlvalue \<Rightarrow> mlvalue \<Rightarrow> mlvalue \<Rightarrow> mlvalue \<times> memory" where
  "incr_nat m nt ofs len carry_in =
     val_carry (bng_generic_add_carry m (digit_ptr nt ofs) (len_val len) (ucast (Long_val carry_in)))"

definition add_nat_native ::
    "memory \<Rightarrow> mlvalue \<Rightarrow> mlvalue \<Rightarrow> mlvalue \<Rightarrow> mlvalue \<Rightarrow> mlvalue \<Rightarrow> mlvalue \<Rightarrow> mlvalue
      \<Rightarrow> mlvalue \<times> memory" where
  "add_nat_native m nat1 ofs1 len1 nat2 ofs2 len2 carry_in =
     val_carry (bng_generic_add m (digit_ptr nat1 ofs1) (len_val len1)
                  (digit_ptr nat2 ofs2) (len_val len2) (ucast (Long_val carry_in)))"

definition complement_nat :: "memory \<Rightarrow> mlvalue \<Rightarrow> mlvalue \<Rightarrow> mlvalue \<Rightarrow> mlvalue \<times> memory" where
  "complement_nat m nt ofs len = (Val_unit, bng_complement m (digit_ptr nt ofs) (len_val len))"

definition decr_nat :: "memory \<Rightarrow> mlvalue \<Rightarrow> mlvalue \<Rightarrow> mlvalue \<Rightarrow> mlvalue \<Rightarrow> mlvalue \<times> memory" where
  "decr_nat m nt ofs len carry_in =
     (let (c, m') = bng_generic_sub_carry m (digit_ptr nt ofs) (len_val len) (ucast (1 XOR Long_val carry_in))
      in val_carry (1 XOR c, m'))"

definition sub_nat_native ::
    "memory \<Rightarrow> mlvalue \<Rightarrow> mlvalue \<Rightarrow> mlvalue \<Rightarrow> mlvalue \<Rightarrow> mlvalue \<Rightarrow> mlvalue \<Rightarrow> mlvalue
      \<Rightarrow> mlvalue \<times> memory" where
  "sub_nat_native m nat1 ofs1 len1 nat2 ofs2 len2 carry_in =
     (let (c, m') = bng_generic_sub m (digit_ptr nat1 ofs1) (len_val len1)
                      (digit_ptr nat2 ofs2) (len_val len2) (ucast (1 XOR Long_val carry_in))
      in val_carry (1 XOR c, m'))"

definition mult_digit_nat_native ::
    "memory \<Rightarrow> mlvalue \<Rightarrow> mlvalue \<Rightarrow> mlvalue \<Rightarrow> mlvalue \<Rightarrow> mlvalue \<Rightarrow> mlvalue \<Rightarrow> mlvalue \<Rightarrow> mlvalue
      \<Rightarrow> mlvalue \<times> memory" where
  "mult_digit_nat_native m nat1 ofs1 len1 nat2 ofs2 len2 nat3 ofs3 =
     (let (c, m') = bng_generic_mult_add_digit m (digit_ptr nat1 ofs1) (len_val len1)
                      (digit_ptr nat2 ofs2) (len_val len2) (m (digit_ptr nat3 ofs3))
      in (Val_long c, m'))"

definition mult_nat_native ::
    "memory \<Rightarrow> mlvalue \<Rightarrow> mlvalue \<Rightarrow> mlvalue \<Rightarrow> mlvalue \<Rightarrow> mlvalue \<Rightarrow> mlvalue \<Rightarrow> mlvalue \<Rightarrow> mlvalue
      \<Rightarrow> mlvalue \<Rightarrow> mlvalue \<times> memory" where
  "mult_nat_native m nat1 ofs1 len1 nat2 ofs2 len2 nat3 ofs3 len3 =
     val_carry (bng_generic_mult_add m (digit_ptr nat1 ofs1) (len_val len1)
                  (digit_ptr nat2 ofs2) (len_val len2) (digit_ptr nat3 ofs3) (len_val len3))"

definition square_nat_native ::
    "memory \<Rightarrow> mlvalue \<Rightarrow> mlvalue \<Rightarrow> mlvalue \<Rightarrow> mlvalue \<Rightarrow> mlvalue \<Rightarrow> mlvalue \<Rightarrow> mlvalue \<times> memory" where
  "square_nat_native m nat1 ofs1 len1 nat2 ofs2 len2 =
     val_carry (bng_generic_square_add m (digit_ptr nat1 ofs1) (len_val len1)
                  (digit_ptr nat2 ofs2) (len_val len2))"

text \<open>The \<^verbatim>\<open>int shift\<close> argument is the low 32 bits of the bit count, 0 to 63 by contract.\<close>

definition shift_left_nat_native ::
    "memory \<Rightarrow> mlvalue \<Rightarrow> mlvalue \<Rightarrow> mlvalue \<Rightarrow> mlvalue \<Rightarrow> mlvalue \<Rightarrow> mlvalue \<Rightarrow> mlvalue \<times> memory" where
  "shift_left_nat_native m nat1 ofs1 len1 nat2 ofs2 nbits =
     (let (c, m') = bng_generic_shift_left m (digit_ptr nat1 ofs1) (len_val len1) (unat (Int_val nbits))
      in (Val_unit, m'(digit_ptr nat2 ofs2 := c)))"

definition div_digit_nat_native ::
    "memory \<Rightarrow> mlvalue \<Rightarrow> mlvalue \<Rightarrow> mlvalue \<Rightarrow> mlvalue \<Rightarrow> mlvalue \<Rightarrow> mlvalue \<Rightarrow> mlvalue \<Rightarrow> mlvalue
      \<Rightarrow> mlvalue \<Rightarrow> (mlvalue \<times> memory) option" where
  "div_digit_nat_native m natq ofsq natr ofsr nat1 ofs1 len1 nat2 ofs2 =
     (case bng_generic_div_rem_digit m (digit_ptr natq ofsq) (digit_ptr nat1 ofs1) (len_val len1)
             (m (digit_ptr nat2 ofs2))
      of None \<Rightarrow> None
      | Some (rem, m') \<Rightarrow> Some (Val_unit, m'(digit_ptr natr ofsr := rem)))"

definition div_nat_native ::
    "memory \<Rightarrow> mlvalue \<Rightarrow> mlvalue \<Rightarrow> mlvalue \<Rightarrow> mlvalue \<Rightarrow> mlvalue \<Rightarrow> mlvalue \<Rightarrow> (mlvalue \<times> memory) option" where
  "div_nat_native m nat1 ofs1 len1 nat2 ofs2 len2 =
     map_option (\<lambda>m'. (Val_unit, m'))
       (bng_generic_div_rem m (digit_ptr nat1 ofs1) (len_val len1) (digit_ptr nat2 ofs2) (len_val len2))"

definition shift_right_nat_native ::
    "memory \<Rightarrow> mlvalue \<Rightarrow> mlvalue \<Rightarrow> mlvalue \<Rightarrow> mlvalue \<Rightarrow> mlvalue \<Rightarrow> mlvalue \<Rightarrow> mlvalue \<times> memory" where
  "shift_right_nat_native m nat1 ofs1 len1 nat2 ofs2 nbits =
     (let (c, m') = bng_generic_shift_right m (digit_ptr nat1 ofs1) (len_val len1) (unat (Int_val nbits))
      in (Val_unit, m'(digit_ptr nat2 ofs2 := c)))"

definition compare_digits_nat :: "memory \<Rightarrow> mlvalue \<Rightarrow> mlvalue \<Rightarrow> mlvalue \<Rightarrow> mlvalue \<Rightarrow> mlvalue" where
  "compare_digits_nat m nat1 ofs1 nat2 ofs2 =
     (let d1 = m (digit_ptr nat1 ofs1); d2 = m (digit_ptr nat2 ofs2)
      in if d1 > d2 then Val_int 1 else if d1 < d2 then Val_int (-1) else Val_int 0)"

definition compare_nat_native ::
    "memory \<Rightarrow> mlvalue \<Rightarrow> mlvalue \<Rightarrow> mlvalue \<Rightarrow> mlvalue \<Rightarrow> mlvalue \<Rightarrow> mlvalue \<Rightarrow> mlvalue" where
  "compare_nat_native m nat1 ofs1 len1 nat2 ofs2 len2 =
     Val_int (word_of_int (bng_compare m (digit_ptr nat1 ofs1) (len_val len1)
                             (digit_ptr nat2 ofs2) (len_val len2)))"

definition land_digit_nat :: "memory \<Rightarrow> mlvalue \<Rightarrow> mlvalue \<Rightarrow> mlvalue \<Rightarrow> mlvalue \<Rightarrow> mlvalue \<times> memory" where
  "land_digit_nat m nat1 ofs1 nat2 ofs2 =
     (Val_unit, m(digit_ptr nat1 ofs1 := m (digit_ptr nat1 ofs1) AND m (digit_ptr nat2 ofs2)))"

definition lor_digit_nat :: "memory \<Rightarrow> mlvalue \<Rightarrow> mlvalue \<Rightarrow> mlvalue \<Rightarrow> mlvalue \<Rightarrow> mlvalue \<times> memory" where
  "lor_digit_nat m nat1 ofs1 nat2 ofs2 =
     (Val_unit, m(digit_ptr nat1 ofs1 := m (digit_ptr nat1 ofs1) OR m (digit_ptr nat2 ofs2)))"

definition lxor_digit_nat :: "memory \<Rightarrow> mlvalue \<Rightarrow> mlvalue \<Rightarrow> mlvalue \<Rightarrow> mlvalue \<Rightarrow> mlvalue \<times> memory" where
  "lxor_digit_nat m nat1 ofs1 nat2 ofs2 =
     (Val_unit, m(digit_ptr nat1 ofs1 := m (digit_ptr nat1 ofs1) XOR m (digit_ptr nat2 ofs2)))"

section \<open>Hashing\<close>

text \<open>\<^verbatim>\<open>caml_hash_mix_uint32\<close> of \<^verbatim>\<open>byterun/hash.c\<close>, on 32-bit words.\<close>

definition ROTL32 :: "u32 \<Rightarrow> nat \<Rightarrow> u32" where
  "ROTL32 x n = push_bit n x OR drop_bit (32 - n) x"

definition caml_hash_mix_uint32 :: "u32 \<Rightarrow> u32 \<Rightarrow> u32" where
  "caml_hash_mix_uint32 h d0 =
     (let d = ROTL32 (d0 * 0xcc9e2d51) 15 * 0x1b873593
      in ROTL32 (h XOR d) 13 * 5 + 0xe6546b64)"

text \<open>The loop of \<^verbatim>\<open>hash_nat\<close>; the last argument but one counts the digits still to do.\<close>

primrec hash_nat_loop :: "memory \<Rightarrow> ptr \<Rightarrow> nat \<Rightarrow> nat \<Rightarrow> u32 \<Rightarrow> u32" where
  "hash_nat_loop m p len 0 h = h"
| "hash_nat_loop m p len (Suc n) h =
     (let i = len - Suc n; d = m (p + i);
          h1 = caml_hash_mix_uint32 h (ucast d); d1 = drop_bit 32 d
      in if d1 = 0 \<and> i + 1 = len then h1
         else hash_nat_loop m p len n (caml_hash_mix_uint32 h1 (ucast d1)))"

definition hash_nat :: "memory \<Rightarrow> mlvalue \<Rightarrow> u64" where
  "hash_nat m v =
     (let p = Op_val v + 1; len = bng_num_digits m p (unat (Wosize_val m v - 1))
      in ucast (hash_nat_loop m p len len 0))"

section \<open>Wire format\<close>

text \<open>The \<open>k\<close>-th 32-bit unit from word \<open>p\<close> on, low half first, and its update.\<close>

definition half :: "memory \<Rightarrow> ptr \<Rightarrow> nat \<Rightarrow> u32" where
  "half m p k = (if even k then ucast (m (p + k div 2)) else ucast (drop_bit 32 (m (p + k div 2))))"

definition set_half :: "memory \<Rightarrow> ptr \<Rightarrow> nat \<Rightarrow> u32 \<Rightarrow> memory" where
  "set_half m p k h = m(p + k div 2 :=
     if even k then push_bit 32 (drop_bit 32 (m (p + k div 2))) OR ucast h
     else push_bit 32 (ucast h) OR take_bit 32 (m (p + k div 2)))"

text \<open>The bytes of a 32-bit unit in increasing addresses, and \<^verbatim>\<open>Reverse_32\<close> of \<^verbatim>\<open>reverse.h\<close>.\<close>

definition unit_bytes :: "u32 \<Rightarrow> u8 list" where
  "unit_bytes u = [ucast u, ucast (drop_bit 8 u), ucast (drop_bit 16 u), ucast (drop_bit 24 u)]"

definition bytes_unit :: "u8 list \<Rightarrow> u32" where
  "bytes_unit bs = push_bit 24 (ucast (bs ! 3)) OR push_bit 16 (ucast (bs ! 2))
     OR push_bit 8 (ucast (bs ! 1)) OR ucast (bs ! 0)"

definition Reverse_32 :: "u8 list \<Rightarrow> u8 list" where
  "Reverse_32 p = [p ! 3, p ! 2, p ! 1, p ! 0]"

definition caml_serialize_int_4 :: "u32 \<Rightarrow> u8 list" where
  "caml_serialize_int_4 i = [ucast (drop_bit 24 i), ucast (drop_bit 16 i), ucast (drop_bit 8 i), ucast i]"

primrec caml_serialize_block_4 :: "memory \<Rightarrow> ptr \<Rightarrow> nat \<Rightarrow> nat \<Rightarrow> u8 list" where
  "caml_serialize_block_4 m p k 0 = []"
| "caml_serialize_block_4 m p k (Suc len) =
     Reverse_32 (unit_bytes (half m p k)) @ caml_serialize_block_4 m p (k + 1) len"

text \<open>\<open>None\<close> is the exception of \<^verbatim>\<open>failwith\<close>; the result is the output with the two sizes.\<close>

definition serialize_nat :: "memory \<Rightarrow> mlvalue \<Rightarrow> (u8 list \<times> u64 \<times> u64) option" where
  "serialize_nat m nt =
     (let len = (Wosize_val m nt - 1) * 2
      in if len \<ge> push_bit 32 1 then None
         else Some (caml_serialize_int_4 (ucast len) @ caml_serialize_block_4 m (Op_val nt + 1) 0 (unat len),
                    len * 4, len * 4))"

text \<open>Reading the stream; \<open>None\<close> when the input is too short, which the C code does not check.\<close>

fun read32u :: "u8 list \<Rightarrow> (u32 \<times> u8 list) option" where
  "read32u (a # b # c # d # rest) =
     Some (push_bit 24 (ucast a) + push_bit 16 (ucast b) + push_bit 8 (ucast c) + ucast d, rest)"
| "read32u _ = None"

primrec caml_deserialize_block_4 ::
    "memory \<Rightarrow> ptr \<Rightarrow> nat \<Rightarrow> nat \<Rightarrow> u8 list \<Rightarrow> (memory \<times> u8 list) option" where
  "caml_deserialize_block_4 m p k 0 src = Some (m, src)"
| "caml_deserialize_block_4 m p k (Suc len) src =
     (if length src < 4 then None
      else caml_deserialize_block_4 (set_half m p k (bytes_unit (Reverse_32 (take 4 src)))) p (k + 1) len
             (drop 4 src))"

definition deserialize_nat :: "memory \<Rightarrow> ptr \<Rightarrow> u8 list \<Rightarrow> (u64 \<times> memory \<times> u8 list) option" where
  "deserialize_nat m dst src0 =
     (case read32u src0 of None \<Rightarrow> None
      | Some (n, src1) \<Rightarrow>
          (let len = ucast n :: u64 in
           case caml_deserialize_block_4 m dst 0 (unat len) src1 of None \<Rightarrow> None
           | Some (m1, src2) \<Rightarrow>
               if len AND 1 \<noteq> 0
               then Some ((len + 1) * 4, set_half m1 dst (unat len) 0, src2)
               else Some (len * 4, m1, src2)))"

section \<open>The hash of a number\<close>

text \<open>The base \<open>2 ^ 32\<close> digits of a number, least significant first, at least one.\<close>

function digits32 :: "nat \<Rightarrow> u32 list" where
  "digits32 n = of_nat n # (if n < HALF then [] else digits32 (n div HALF))"
  by auto
termination
  by (relation "measure id") (auto simp: HALF_def)

declare digits32.simps [simp del]

lemma of_nat_unat_halves:
  "(of_nat (unat (d :: u64) + HALF * k) :: u32) = ucast d"
  "(of_nat (unat d div HALF + HALF * k) :: u32) = ucast (drop_bit 32 d)"
proof -
  have H: "(of_nat HALF :: u32) = 0" by (simp add: HALF_def)
  have "unat (drop_bit 32 d) = unat d div HALF" by (simp add: unat_drop_bit_u64 HALF_def)
  then have "(of_nat (unat d div HALF) :: u32) = ucast (drop_bit 32 d)" by (metis of_nat_unat)
  then show "(of_nat (unat d + HALF * k) :: u32) = ucast d"
    "(of_nat (unat d div HALF + HALF * k) :: u32) = ucast (drop_bit 32 d)"
    by (simp_all add: H of_nat_unat)
qed

lemma drop_bit_32_eq_0: "drop_bit 32 (d :: u64) = 0 \<longleftrightarrow> unat d < HALF"
proof -
  have "drop_bit 32 d = 0 \<longleftrightarrow> unat d div 2 ^ 32 = 0"
    by (metis unat_drop_bit_u64 unat_eq_zero)
  then show ?thesis by (simp add: HALF_def div_eq_0_iff)
qed

lemma digits32_single: 
  "digits32 (unat (d :: u64)) = (if drop_bit 32 d = 0 then [ucast d] else [ucast d, ucast (drop_bit 32 d)])"
proof -
  have "unat d div HALF < HALF" using unat_lt_BASE [of d] by (simp add: BASE_eq less_mult_imp_div_less)
  then show ?thesis
    using of_nat_unat_halves [of d 0]
    by (simp add: digits32.simps [of "unat d"] digits32.simps [of "unat d div HALF"] drop_bit_32_eq_0)
qed

lemma digits32_cons:
  assumes "0 < n"
  shows "digits32 (unat (d :: u64) + BASE * n) = ucast d # ucast (drop_bit 32 d) # digits32 n"
proof -
  have H: "0 < HALF" by (simp add: HALF_def)
  have 1: "unat d + BASE * n = unat d + HALF * (HALF * n)" by (simp add: BASE_eq)
  have 2: "(unat d + HALF * (HALF * n)) div HALF = unat d div HALF + HALF * n" using H by simp
  have 3: "(unat d div HALF + HALF * n) div HALF = n"
    using unat_lt_BASE [of d] H by (simp add: BASE_eq less_mult_imp_div_less)
  have "HALF \<le> HALF * (HALF * n)" "HALF \<le> HALF * n" using H assms by (simp_all add: Suc_le_eq)
  then have "\<not> unat d + HALF * (HALF * n) < HALF" "\<not> unat d div HALF + HALF * n < HALF" by linarith+
  then show ?thesis
    using of_nat_unat_halves [of d]
    by (simp add: 1 2 3 digits32.simps [of "unat d + _"] digits32.simps [of "_ div HALF + _"])
qed

lemma hash_nat_loop_spec:
  assumes "Suc n \<le> len" and "n = 0 \<or> m (p + (len - 1)) \<noteq> 0"
  shows "hash_nat_loop m p len (Suc n) h
    = foldl caml_hash_mix_uint32 h (digits32 (nval m (p + (len - Suc n)) (Suc n)))"
  using assms
proof (induction n arbitrary: h)
  case 0
  then show ?case by (simp add: digits32_single Let_def)
next
  case (Suc n)
  let ?i = "len - Suc (Suc n)"
  have i: "len - Suc n = ?i + 1" using Suc.prems(1) by simp
  have "p + (len - 1) = p + ?i + 1 + n" using Suc.prems(1) by simp
  then have "nval m (p + ?i + 1) (Suc n) \<noteq> 0"
    using Suc.prems(2) by (simp add: nval_snoc unat_eq_zero del: nval.simps)
  then have d: "digits32 (nval m (p + ?i) (Suc (Suc n)))
      = ucast (m (p + ?i)) # ucast (drop_bit 32 (m (p + ?i))) # digits32 (nval m (p + ?i + 1) (Suc n))"
    using digits32_cons [of "nval m (p + ?i + 1) (Suc n)" "m (p + ?i)"] by simp
  have "hash_nat_loop m p len (Suc n) h'
    = foldl caml_hash_mix_uint32 h' (digits32 (nval m (p + ?i + 1) (Suc n)))" for h'
    using Suc.IH [of h'] Suc.prems unfolding i by (simp add: add.assoc del: nval.simps hash_nat_loop.simps)
  moreover have "?i + 1 \<noteq> len" using Suc.prems(1) by simp
  ultimately show ?case
    unfolding d hash_nat_loop.simps(2) [of m p len "Suc n" h] Let_def by (simp del: hash_nat_loop.simps nval.simps)
qed

lemma bng_num_digits_top:
  "bng_num_digits m a n = Suc k \<Longrightarrow> k = 0 \<or> m (a + k) \<noteq> 0"
  by (induction n) (auto split: if_splits)

lemma hash_nat_digits32:
  assumes "Wosize_val m v \<ge> 2"
  shows "hash_nat m v = ucast (foldl caml_hash_mix_uint32 0
     (digits32 (nval m (Op_val v + 1) (unat (Wosize_val m v - 1)))))"
proof -
  let ?p = "Op_val v + 1" and ?n = "unat (Wosize_val m v - 1)"
  have n: "0 < ?n"
    using assms unat_sub [of 1 "Wosize_val m v"] by (simp add: word_le_nat_alt)
  obtain k where k: "bng_num_digits m ?p ?n = Suc k" 
    using bng_num_digits_bounds [of m ?p ?n] by (cases "bng_num_digits m ?p ?n") auto
  have "k = 0 \<or> m (?p + k) \<noteq> 0" 
    using bng_num_digits_top k by blast
  then have "hash_nat_loop m ?p (Suc k) (Suc k) 0
      = foldl caml_hash_mix_uint32 0 (digits32 (nval m (?p + (Suc k - Suc k)) (Suc k)))"
    by (intro hash_nat_loop_spec) simp_all
  also have "nval m (?p + (Suc k - Suc k)) (Suc k) = nval m ?p ?n"
    using bng_num_digits_nval [of m ?p ?n] bng_num_digits_bounds [of m ?p ?n] n k by (simp del: nval.simps)
  finally show ?thesis unfolding hash_nat_def Let_def k by simp
qed

text \<open>
  A block of zero digits counts one significant digit, so its hash mixes in
  the word that follows the block.
\<close>

lemma hash_nat_empty:
  assumes "Wosize_val m v = 1"
  shows "hash_nat m v = ucast (foldl caml_hash_mix_uint32 0 (digits32 (unat (m (Op_val v + 1)))))"
  using assms by (simp add: hash_nat_def digits32_single Let_def)

section \<open>The wire format round trip\<close>

lemma half_set_half [simp]: "half (set_half m p k h) p j = (if j = k then h else half m p j)"
proof (cases "j div 2 = k div 2")
  case True
  have h: "\<not> bit h (32 + n)" for n using bit_imp_le_length [of h "32 + n"] by auto
  have "ucast (push_bit 32 (drop_bit 32 w) OR ucast h :: u64) = h"
    "ucast (drop_bit 32 (push_bit 32 (drop_bit 32 w) OR ucast h :: u64)) = (ucast (drop_bit 32 w) :: u32)"
    "ucast (push_bit 32 (ucast h) OR take_bit 32 w :: u64) = (ucast w :: u32)"
    "ucast (drop_bit 32 (push_bit 32 (ucast h) OR take_bit 32 w :: u64)) = h" for w :: u64
    by (auto simp: bit_simps h intro!: bit_eqI)
  then show ?thesis using True by (auto simp: half_def set_half_def) presburger+
next
  case False
  then show ?thesis by (auto simp: half_def set_half_def)
qed

lemma word_from_halves:
  assumes "(ucast (x :: u64) :: u32) = ucast y" and "(ucast (drop_bit 32 x) :: u32) = ucast (drop_bit 32 y)"
  shows "x = y"
proof (rule bit_word_eqI)
  fix n
  assume "n < LENGTH(64)"
  then show "bit x n = bit y n"
    using arg_cong [OF assms(1), of "\<lambda>w. bit w n"] arg_cong [OF assms(2), of "\<lambda>w. bit w (n - 32)"]
    by (cases "n < 32") (auto simp: bit_simps)
qed

lemma set_half_outside: "q \<noteq> p + k div 2 \<Longrightarrow> set_half m p k h q = m q"
  by (simp add: set_half_def)

lemma bytes_unit_reverse: "bytes_unit (Reverse_32 (Reverse_32 (unit_bytes u))) = u"
proof (rule bit_word_eqI)
  fix n
  assume "n < LENGTH(32)"
  then consider "n < 8" | "8 \<le> n" "n < 16" | "16 \<le> n" "n < 24" | "24 \<le> n" "n < 32" by fastforce
  then show "bit (bytes_unit (Reverse_32 (Reverse_32 (unit_bytes u)))) n = bit u n"
    by cases (auto simp: bytes_unit_def Reverse_32_def unit_bytes_def bit_simps less_diff_conv2)
qed

lemma caml_deserialize_serialize_block:
  "\<exists>m2. caml_deserialize_block_4 m1 q k n (caml_serialize_block_4 m p k n @ rest) = Some (m2, rest)
    \<and> (\<forall>j. half m2 q j = (if k \<le> j \<and> j < k + n then half m p j else half m1 q j))
    \<and> (\<forall>a. a < q + k div 2 \<or> q + (k + n + 1) div 2 \<le> a \<longrightarrow> m2 a = m1 a)"
proof (induction n arbitrary: k m1)
  case 0
  then show ?case by auto
next
  case (Suc n)
  let ?u = "half m p k"
  let ?m = "set_half m1 q k (bytes_unit (Reverse_32 (Reverse_32 (unit_bytes ?u))))"
  have "caml_deserialize_block_4 m1 q k (Suc n) (caml_serialize_block_4 m p k (Suc n) @ rest)
      = caml_deserialize_block_4 ?m q (k + 1) n (caml_serialize_block_4 m p (k + 1) n @ rest)"
    by (simp add: Reverse_32_def)
  moreover obtain m2 where
    "caml_deserialize_block_4 ?m q (k + 1) n (caml_serialize_block_4 m p (k + 1) n @ rest) = Some (m2, rest)"
    "\<forall>j. half m2 q j = (if k + 1 \<le> j \<and> j < k + 1 + n then half m p j else half ?m q j)"
    "\<forall>a. a < q + (k + 1) div 2 \<or> q + (k + 1 + n + 1) div 2 \<le> a \<longrightarrow> m2 a = ?m a"
    using Suc.IH [of ?m "k + 1"] by blast
  moreover have "m2 a = m1 a" if "a < q + k div 2 \<or> q + (k + Suc n + 1) div 2 \<le> a" for a
  proof -
    have "a < q + (k + 1) div 2 \<or> q + (k + 1 + n + 1) div 2 \<le> a" "a \<noteq> q + k div 2"
      using that by (auto simp: div_le_mono)
    moreover from this have "m2 a = ?m a" using \<open>\<forall>a. _ \<longrightarrow> m2 a = ?m a\<close> by blast
    ultimately show ?thesis by (simp add: set_half_outside)
  qed
  ultimately show ?case by (intro exI [of _ m2]) (auto simp: bytes_unit_reverse)
qed

lemma bytes_unit_sum:
  "push_bit 24 (ucast a) + push_bit 16 (ucast b) + push_bit 8 (ucast c) + ucast d = bytes_unit [d, c, b, a]"
proof -
  have len: "k < 8" if "bit (x :: u8) k" for x k using bit_imp_le_length [OF that] by simp
  have 1: "push_bit 24 (ucast a) AND push_bit 16 (ucast b) = (0 :: u32)"
    and 2: "(push_bit 24 (ucast a) OR push_bit 16 (ucast b)) AND push_bit 8 (ucast c) = (0 :: u32)"
    and 3: "(push_bit 24 (ucast a) OR push_bit 16 (ucast b) OR push_bit 8 (ucast c)) AND ucast d = (0 :: u32)"
    by (rule bit_word_eqI, auto simp: bit_simps dest!: len)+
  show ?thesis
    by (simp add: bytes_unit_def disjunctive_add_eq_or 1 2 3 or.assoc)
qed

lemma read32u_serialize_int_4: "read32u (caml_serialize_int_4 i @ rest) = Some (i, rest)"
  using bytes_unit_reverse [of i]
  by (simp add: caml_serialize_int_4_def bytes_unit_sum Reverse_32_def unit_bytes_def)

lemma nat_wire_round_trip:
  assumes ser: "serialize_nat m nt = Some (out, sz32, sz64)" and "Wosize_val m nt \<ge> 1"
  shows "\<exists>m2. deserialize_nat m1 dst (out @ rest) = Some (sz64, m2, rest)
    \<and> (\<forall>i < unat (Wosize_val m nt) - 1. m2 (dst + i) = m (Op_val nt + 1 + i))
    \<and> eq_outside dst (unat (Wosize_val m nt) - 1) m1 m2"
proof -
  define w where "w = Wosize_val m nt - 1"
  have w: "unat w = unat (Wosize_val m nt) - 1"
    using assms(2) unat_sub [of 1 "Wosize_val m nt"] by (simp add: w_def word_le_nat_alt)
  have lt: "\<not> push_bit 32 1 \<le> w * 2" and out: "out = caml_serialize_int_4 (ucast (w * 2))
      @ caml_serialize_block_4 m (Op_val nt + 1) 0 (unat (w * 2))" and sz: "sz64 = w * 2 * 4"
    using ser by (auto simp: serialize_nat_def Let_def w_def split: if_splits)
  have "unat (w * 2) < 2 ^ 32" using lt by (simp add: word_le_nat_alt not_le)
  then have "unat (ucast (ucast (w * 2) :: u32) :: u64) = unat (w * 2)" by (simp add: unat_ucast_64_32)
  then have len: "ucast (ucast (w * 2) :: u32) = w * 2" by (rule unsigned_word_eqI)
  have "unat (Wosize_val m nt) < 2 ^ 54"
    unfolding Wosize_val_def by (rule unat_Wosize_hd)
  then have n: "unat (w * 2) = 2 * unat w" by (subst unat_mult_u64) (simp add: w)
  have "2 dvd w * 2" by (rule dvd_triv_right)
  then have ev: "(w * 2) AND 1 = 0" by (simp only: and_one_eq even_iff_mod_2_eq_zero)
  obtain m2 where b: "caml_deserialize_block_4 m1 dst 0 (2 * unat w)
        (caml_serialize_block_4 m (Op_val nt + 1) 0 (2 * unat w) @ rest) = Some (m2, rest)"
    "\<forall>j. half m2 dst j = (if 0 \<le> j \<and> j < 0 + 2 * unat w then half m (Op_val nt + 1) j else half m1 dst j)"
    "\<forall>a. a < dst + 0 div 2 \<or> dst + (0 + 2 * unat w + 1) div 2 \<le> a \<longrightarrow> m2 a = m1 a"
    using caml_deserialize_serialize_block [of m1 dst 0 "2 * unat w" m "Op_val nt + 1" rest] by blast
  have "deserialize_nat m1 dst (out @ rest) = Some (sz64, m2, rest)"
    unfolding deserialize_nat_def out append_assoc read32u_serialize_int_4 option.case case_prod_conv
      Let_def len n b(1) sz using ev by simp
  moreover have "m2 (dst + i) = m (Op_val nt + 1 + i)" if "i < unat w" for i
  proof -
    have "half m2 dst (2 * i) = half m (Op_val nt + 1) (2 * i)"
      "half m2 dst (2 * i + 1) = half m (Op_val nt + 1) (2 * i + 1)" using b(2) that by simp_all
    then show ?thesis by (intro word_from_halves) (simp_all add: half_def)
  qed
  moreover have "eq_outside dst (unat w) m1 m2" using b(3) by (auto simp: eq_outside_def)
  ultimately show ?thesis unfolding w [symmetric] by blast
qed

section \<open>Carry conventions of the stubs\<close>

text \<open>A carry argument is \<^verbatim>\<open>Val_long\<close> of 0 or 1; \<^verbatim>\<open>1 ^ carry\<close> complements it.\<close>

lemma carry_arg:
  assumes "c \<le> 1"
  shows "ucast (Long_val (Val_long (of_nat c))) = (of_nat c :: u32)"
    and "ucast (1 XOR Long_val (Val_long (of_nat c))) = (of_nat (1 - c) :: u32)"
proof -
  have "c = 0 \<or> c = 1" using assms by auto
  then show "ucast (Long_val (Val_long (of_nat c))) = (of_nat c :: u32)"
    "ucast (1 XOR Long_val (Val_long (of_nat c))) = (of_nat (1 - c) :: u32)"
    by (auto simp: Long_val_Val_long)
qed

lemma carry_flip:
  assumes "unat (c :: u32) \<le> 1"
  shows "(ucast (1 XOR c) :: u64) = of_nat (1 - unat c)"
proof -
  have "c = 0 \<or> c = 1" using assms by (metis One_nat_def le_Suc_eq le_zero_eq unat_1 unat_eq_zero word_unat_eq_iff)
  then show ?thesis by auto
qed

lemma sub_nat_spec:
  assumes run: "sub_nat_native m nat1 ofs1 len1 nat2 ofs2 len2 (Val_long (of_nat cin)) = (v, m')"
    and "cin \<le> 1" and "len_val len2 \<le> len_val len1"
    and "read_ahead (digit_ptr nat1 ofs1) (len_val len2) (digit_ptr nat2 ofs2)"
  shows "\<exists>cout \<le> 1. v = Val_long (of_nat cout)
    \<and> nval m' (digit_ptr nat1 ofs1) (len_val len1) + nval m (digit_ptr nat2 ofs2) (len_val len2) + (1 - cin)
      = nval m (digit_ptr nat1 ofs1) (len_val len1) + (1 - cout) * BASE ^ len_val len1
    \<and> eq_outside (digit_ptr nat1 ofs1) (len_val len1) m m'"
proof -
  obtain c m2 where s: "bng_generic_sub m (digit_ptr nat1 ofs1) (len_val len1)
      (digit_ptr nat2 ofs2) (len_val len2) (of_nat (1 - cin)) = (c, m2)" by force
  have "unat (of_nat (1 - cin) :: u32) = 1 - cin" using assms(2) by (cases cin) auto
  note sub = bng_generic_sub_spec [OF s assms(3) _ assms(4), unfolded this]
  have c: "unat c \<le> 1" using sub(2) by simp
  have "v = Val_long (ucast (1 XOR c))" "m' = m2"
    using run s by (simp_all add: sub_nat_native_def carry_arg [OF assms(2)] val_carry_def)
  moreover have "nval m2 (digit_ptr nat1 ofs1) (len_val len1) + nval m (digit_ptr nat2 ofs2) (len_val len2) + (1 - cin)
      = nval m (digit_ptr nat1 ofs1) (len_val len1) + (1 - (1 - unat c)) * BASE ^ len_val len1"
    using sub(1) c by simp
  ultimately show ?thesis using sub(3) by (intro exI [of _ "1 - unat c"]) (simp add: carry_flip [OF c])
qed

section \<open>Properties\<close>

text \<open>
  C15: Hashing a natural number is compatible with numeric equality and
  independent of the word size: the hash is the mix of the base \<open>2 ^ 32\<close>
  digits of its value without leading zeros, so blocks of different lengths
  that hold the same number have the same hash.
\<close>

theorem hash_nat_of_value:
  assumes "Wosize_val m v \<ge> 2"
  shows "hash_nat m v = ucast (foldl caml_hash_mix_uint32 0
     (digits32 (nval m (Op_val v + 1) (unat (Wosize_val m v - 1)))))"
  using assms by (rule hash_nat_digits32)

theorem hash_nat_of_value_witness:
  "hash_nat (\<lambda>p. if p = 9 then 3071 else 0) 80 = ucast (caml_hash_mix_uint32 0 0)"
proof -
  have "Wosize_val (\<lambda>p. if p = 9 then 3071 else 0) 80 = 2"
    by (simp add: Wosize_val_def Hd_val_def Op_val_def Wosize_hd_def)
  then show ?thesis
    using hash_nat_of_value [of "\<lambda>p. if p = 9 then 3071 else 0" 80]
    by (simp add: Op_val_def digits32.simps HALF_def)
qed

text \<open>
  C16: The wire format of natural numbers round-trips: reading back what
  \<^verbatim>\<open>serialize_nat\<close> wrote restores every digit, consumes exactly the bytes
  written, reports the size that was announced, and writes nothing outside
  the destination.
\<close>

theorem nat_marshal_round_trip:
  assumes "serialize_nat m nt = Some (out, sz32, sz64)" and "Wosize_val m nt \<ge> 1"
  shows "\<exists>m2. deserialize_nat m1 dst (out @ rest) = Some (sz64, m2, rest)
    \<and> (\<forall>i < unat (Wosize_val m nt) - 1. m2 (dst + i) = m (Op_val nt + 1 + i))
    \<and> eq_outside dst (unat (Wosize_val m nt) - 1) m1 m2"
  using assms by (rule nat_wire_round_trip)

theorem nat_marshal_round_trip_witness:
  "\<exists>out sz32 sz64 m2. serialize_nat (\<lambda>p. if p = 9 then 3071 else of_nat p) 80 = Some (out, sz32, sz64)
    \<and> deserialize_nat (\<lambda>_. 0) 50 (out @ [7]) = Some (sz64, m2, [7]) \<and> m2 50 = 11"
proof -
  let ?m = "\<lambda>p. if p = 9 then 3071 else of_nat p :: u64"
  have w: "Wosize_val ?m 80 = 2" by (simp add: Wosize_val_def Hd_val_def Op_val_def Wosize_hd_def)
  then obtain out sz32 sz64 where "serialize_nat ?m 80 = Some (out, sz32, sz64)"
    by (simp add: serialize_nat_def Let_def)
  then show ?thesis
    using nat_marshal_round_trip [of ?m 80 out sz32 sz64 "\<lambda>_. 0" 50 "[7]"] w
    by (fastforce simp: Op_val_def)
qed

end
