(* ===== verification/Int64_Emul.thy ===== *)
theory Int64_Emul
  imports Mlvalues "HOL-Library.Signed_Division"
begin

text \<open>
  The software emulation of 64-bit integers, \<^verbatim>\<open>byterun/int64_emul.h\<close>, on pairs
  of 32-bit words, and the wrapper macros of \<^verbatim>\<open>byterun/int64_native.h\<close>, which
  give the same interface over native 64-bit arithmetic. Both are tables of
  operations with one contract, a locale; every operation of the emulation
  is shown to compute the native result, including the division, whose two
  loops terminate for every nonzero divisor.
\<close>

section \<open>The emulation\<close>

record int64_emul =
  i64_l :: u32
  i64_h :: u32

definition emul_literal :: "u32 \<Rightarrow> u32 \<Rightarrow> int64_emul" where
  "emul_literal hi lo = \<lparr>i64_l = lo, i64_h = hi\<rparr>"

definition emul_split :: "int64_emul \<Rightarrow> u32 \<times> u32" where
  "emul_split x = (i64_h x, i64_l x)"

definition emul_ucompare :: "int64_emul \<Rightarrow> int64_emul \<Rightarrow> int" where
  "emul_ucompare x y =
     (if i64_h x > i64_h y then 1 else if i64_h x < i64_h y then -1
      else if i64_l x > i64_l y then 1 else if i64_l x < i64_l y then -1 else 0)"

definition emul_ult :: "int64_emul \<Rightarrow> int64_emul \<Rightarrow> bool" where
  "emul_ult x y \<longleftrightarrow> emul_ucompare x y < 0"

definition emul_compare :: "int64_emul \<Rightarrow> int64_emul \<Rightarrow> int" where
  "emul_compare x y =
     (if sint (i64_h x) > sint (i64_h y) then 1 else if sint (i64_h x) < sint (i64_h y) then -1
      else if i64_l x > i64_l y then 1 else if i64_l x < i64_l y then -1 else 0)"

definition emul_neg :: "int64_emul \<Rightarrow> int64_emul" where
  "emul_neg x =
     (let l = - i64_l x; h = NOT (i64_h x)
      in \<lparr>i64_l = l, i64_h = if l = 0 then h + 1 else h\<rparr>)"

definition emul_add :: "int64_emul \<Rightarrow> int64_emul \<Rightarrow> int64_emul" where
  "emul_add x y =
     (let l = i64_l x + i64_l y; h = i64_h x + i64_h y
      in \<lparr>i64_l = l, i64_h = if l < i64_l x then h + 1 else h\<rparr>)"

definition emul_sub :: "int64_emul \<Rightarrow> int64_emul \<Rightarrow> int64_emul" where
  "emul_sub x y =
     (let l = i64_l x - i64_l y; h = i64_h x - i64_h y
      in \<lparr>i64_l = l, i64_h = if i64_l x < i64_l y then h - 1 else h\<rparr>)"

definition emul_mul :: "int64_emul \<Rightarrow> int64_emul \<Rightarrow> int64_emul" where
  "emul_mul x y =
     (let prod00 = (i64_l x AND 0xFFFF) * (i64_l y AND 0xFFFF);
          prod10 = drop_bit 16 (i64_l x) * (i64_l y AND 0xFFFF);
          prod01 = (i64_l x AND 0xFFFF) * drop_bit 16 (i64_l y);
          prod11 = drop_bit 16 (i64_l x) * drop_bit 16 (i64_l y);
          l0 = prod00;
          h0 = prod11 + drop_bit 16 prod01 + drop_bit 16 prod10;
          p01 = push_bit 16 prod01; l1 = l0 + p01; h1 = (if l1 < p01 then h0 + 1 else h0);
          p10 = push_bit 16 prod10; l2 = l1 + p10; h2 = (if l2 < p10 then h1 + 1 else h1)
      in \<lparr>i64_l = l2, i64_h = h2 + (i64_l x * i64_h y + i64_h x * i64_l y)\<rparr>)"

definition emul_is_zero :: "int64_emul \<Rightarrow> bool" where
  "emul_is_zero x \<longleftrightarrow> i64_l x OR i64_h x = 0"

definition emul_is_negative :: "int64_emul \<Rightarrow> bool" where
  "emul_is_negative x \<longleftrightarrow> sint (i64_h x) < 0"

definition emul_is_min_int :: "int64_emul \<Rightarrow> bool" where
  "emul_is_min_int x \<longleftrightarrow> i64_l x = 0 \<and> i64_h x = 0x80000000"

definition emul_is_minus_one :: "int64_emul \<Rightarrow> bool" where
  "emul_is_minus_one x \<longleftrightarrow> i64_l x AND i64_h x = 0xFFFFFFFF"

definition emul_and :: "int64_emul \<Rightarrow> int64_emul \<Rightarrow> int64_emul" where
  "emul_and x y = \<lparr>i64_l = i64_l x AND i64_l y, i64_h = i64_h x AND i64_h y\<rparr>"

definition emul_or :: "int64_emul \<Rightarrow> int64_emul \<Rightarrow> int64_emul" where
  "emul_or x y = \<lparr>i64_l = i64_l x OR i64_l y, i64_h = i64_h x OR i64_h y\<rparr>"

definition emul_xor :: "int64_emul \<Rightarrow> int64_emul \<Rightarrow> int64_emul" where
  "emul_xor x y = \<lparr>i64_l = i64_l x XOR i64_l y, i64_h = i64_h x XOR i64_h y\<rparr>"

text \<open>Shifts, by the low six bits of the count.\<close>

definition emul_lsl :: "int64_emul \<Rightarrow> u32 \<Rightarrow> int64_emul" where
  "emul_lsl x n =
     (let s = unat (n AND 63) in
      if s = 0 then x
      else if s < 32
      then \<lparr>i64_l = push_bit s (i64_l x),
            i64_h = push_bit s (i64_h x) OR drop_bit (32 - s) (i64_l x)\<rparr>
      else \<lparr>i64_l = 0, i64_h = push_bit (s - 32) (i64_l x)\<rparr>)"

definition emul_lsr :: "int64_emul \<Rightarrow> u32 \<Rightarrow> int64_emul" where
  "emul_lsr x n =
     (let s = unat (n AND 63) in
      if s = 0 then x
      else if s < 32
      then \<lparr>i64_l = drop_bit s (i64_l x) OR push_bit (32 - s) (i64_h x),
            i64_h = drop_bit s (i64_h x)\<rparr>
      else \<lparr>i64_l = drop_bit (s - 32) (i64_h x), i64_h = 0\<rparr>)"

definition emul_asr :: "int64_emul \<Rightarrow> u32 \<Rightarrow> int64_emul" where
  "emul_asr x n =
     (let s = unat (n AND 63) in
      if s = 0 then x
      else if s < 32
      then \<lparr>i64_l = drop_bit s (i64_l x) OR push_bit (32 - s) (i64_h x),
            i64_h = signed_drop_bit s (i64_h x)\<rparr>
      else \<lparr>i64_l = signed_drop_bit (s - 32) (i64_h x), i64_h = signed_drop_bit 31 (i64_h x)\<rparr>)"

definition I64_SHL1 :: "int64_emul \<Rightarrow> int64_emul" where
  "I64_SHL1 x = \<lparr>i64_l = push_bit 1 (i64_l x), i64_h = push_bit 1 (i64_h x) OR drop_bit 31 (i64_l x)\<rparr>"

definition I64_SHR1 :: "int64_emul \<Rightarrow> int64_emul" where
  "I64_SHR1 x = \<lparr>i64_l = drop_bit 1 (i64_l x) OR push_bit 31 (i64_h x), i64_h = drop_bit 1 (i64_h x)\<rparr>"

text \<open>
  The two loops of the division: shifting the divisor up until it covers the
  dividend, and subtracting it on the way down. With a zero divisor the first
  one does not end.
\<close>

partial_function (option) emul_udivmod_up ::
    "int64_emul \<Rightarrow> int64_emul \<Rightarrow> int64_emul \<Rightarrow> (int64_emul \<times> int64_emul) option" where
  "emul_udivmod_up modulus divisor mk =
     (if 0 \<le> sint (i64_h divisor)
      then let cmp = emul_ucompare divisor modulus; divisor' = I64_SHL1 divisor; mk' = I64_SHL1 mk
           in if cmp \<ge> 0 then Some (divisor', mk') else emul_udivmod_up modulus divisor' mk'
      else Some (divisor, mk))"

partial_function (option) emul_udivmod_down ::
    "int64_emul \<Rightarrow> int64_emul \<Rightarrow> int64_emul \<Rightarrow> int64_emul \<Rightarrow> (int64_emul \<times> int64_emul) option" where
  "emul_udivmod_down quo modulus divisor mk =
     (if i64_l mk OR i64_h mk \<noteq> 0
      then let (quo', modulus') =
             (if emul_ucompare modulus divisor \<ge> 0
              then (emul_or quo mk, emul_sub modulus divisor) else (quo, modulus))
           in emul_udivmod_down quo' modulus' (I64_SHR1 divisor) (I64_SHR1 mk)
      else Some (quo, modulus))"

definition emul_udivmod :: "int64_emul \<Rightarrow> int64_emul \<Rightarrow> (int64_emul \<times> int64_emul) option" where
  "emul_udivmod modulus divisor =
     (case emul_udivmod_up modulus divisor \<lparr>i64_l = 1, i64_h = 0\<rparr> of None \<Rightarrow> None
      | Some (divisor', mk) \<Rightarrow> emul_udivmod_down \<lparr>i64_l = 0, i64_h = 0\<rparr> modulus divisor' mk)"

definition emul_div :: "int64_emul \<Rightarrow> int64_emul \<Rightarrow> int64_emul option" where
  "emul_div x y =
     (let sign = i64_h x XOR i64_h y;
          x = (if sint (i64_h x) < 0 then emul_neg x else x);
          y = (if sint (i64_h y) < 0 then emul_neg y else y)
      in case emul_udivmod x y of None \<Rightarrow> None
         | Some (q, r) \<Rightarrow> Some (if sint sign < 0 then emul_neg q else q))"

definition emul_mod :: "int64_emul \<Rightarrow> int64_emul \<Rightarrow> int64_emul option" where
  "emul_mod x y =
     (let sign = i64_h x;
          x = (if sint (i64_h x) < 0 then emul_neg x else x);
          y = (if sint (i64_h y) < 0 then emul_neg y else y)
      in case emul_udivmod x y of None \<Rightarrow> None
         | Some (q, r) \<Rightarrow> Some (if sint sign < 0 then emul_neg r else r))"

definition emul_of_int32 :: "u32 \<Rightarrow> int64_emul" where
  "emul_of_int32 x = \<lparr>i64_l = x, i64_h = signed_drop_bit 31 x\<rparr>"

definition emul_to_int32 :: "int64_emul \<Rightarrow> u32" where
  "emul_to_int32 x = i64_l x"

section \<open>The value of a pair\<close>

definition i64_val :: "int64_emul \<Rightarrow> u64" where
  "i64_val x = push_bit 32 (ucast (i64_h x)) OR ucast (i64_l x)"

lemma unat_lt_HALF: "unat (x :: u32) < HALF"
  using unsigned_less [of x] by (simp add: HALF_def)

lemma unat_i64_val: "unat (i64_val x) = unat (i64_h x) * HALF + unat (i64_l x)"
proof -
  have "unat (ucast (i64_l x) :: u64) < 2 ^ 32" using unat_lt_HALF [of "i64_l x"] by (simp add: HALF_def)
  then have "unat (i64_val x) = unat (push_bit 32 (ucast (i64_h x) :: u64)) + unat (ucast (i64_l x) :: u64)"
    unfolding i64_val_def by (rule unat_push_bit_or)
  moreover have "unat (push_bit 32 (ucast (i64_h x) :: u64)) = unat (i64_h x) * HALF"
    using unat_lt_HALF [of "i64_h x"] by (simp add: unat_push_bit_u64 HALF_def)
  ultimately show ?thesis by simp
qed

lemma bit_i64_val: "bit (i64_val x) n \<longleftrightarrow> (if n < 32 then bit (i64_l x) n else bit (i64_h x) (n - 32))"
  using bit_imp_le_length [of "i64_l x" n] bit_imp_le_length [of "i64_h x" "n - 32"]
  by (auto simp: i64_val_def bit_simps)

lemma i64_val_inject: "i64_val x = i64_val y \<longleftrightarrow> x = y"
proof
  assume eq: "i64_val x = i64_val y"
  have "unat (i64_h x) * HALF + unat (i64_l x) = unat (i64_h y) * HALF + unat (i64_l y)"
    using arg_cong [OF eq, of unat] by (simp only: unat_i64_val)
  then have "unat (i64_h x) = unat (i64_h y)" "unat (i64_l x) = unat (i64_l y)"
    using unat_lt_HALF [of "i64_l x"] unat_lt_HALF [of "i64_l y"]
    by (metis HALF_pos add.commute div_mult_self1 div_less add_0 less_not_refl2,
        metis mod_less mod_mult_self3)
  then show "x = y" by (simp add: word_unat_eq_iff)
qed simp

section \<open>The emulation computes the native operations\<close>

lemma unat_add_HALF: "unat ((x :: u32) + y) = (if unat x + unat y < HALF then unat x + unat y else unat x + unat y - HALF)"
  by (simp add: unat_plus_if' HALF_def)

lemma unat_sub_HALF: "unat ((x :: u32) - y) = (if unat y \<le> unat x then unat x - unat y else HALF + unat x - unat y)"
  by (auto simp: unat_sub_if_size HALF_def word_size)

text \<open>Words are equal if they agree up to multiples of the base.\<close>

lemma u64_eqI: "unat (x :: u64) + k * BASE = unat y + j * BASE \<Longrightarrow> x = y"
proof -
  assume eq: "unat x + k * BASE = unat y + j * BASE"
  have "unat x mod BASE = unat y mod BASE" using arg_cong [OF eq, of "\<lambda>n. n mod BASE"] by simp
  then show "x = y" using unat_lt_BASE [of x] unat_lt_BASE [of y] by (simp add: word_unat_eq_iff)
qed

lemma emul_ucompare_val:
  "emul_ucompare x y = (if i64_val x > i64_val y then 1 else if i64_val x < i64_val y then -1 else 0)"
proof -
  have lex: "a * HALF + b < c * HALF + d \<longleftrightarrow> a < c \<or> a = c \<and> b < d" if "b < HALF" "d < HALF" for a b c d
  proof (cases a c rule: linorder_cases)
    case less
    then have "(a + 1) * HALF \<le> c * HALF" by (intro mult_right_mono) auto
    then show ?thesis using less that by simp
  next
    case greater
    then have "(c + 1) * HALF \<le> a * HALF" by (intro mult_right_mono) auto
    then show ?thesis using greater that by simp
  qed simp
  show ?thesis
    by (auto simp: emul_ucompare_def word_less_nat_alt unat_i64_val lex unat_lt_HALF word_unat_eq_iff)
qed

text \<open>
  The value in the ring of 64-bit words: the high half counts modulo
  \<open>2 ^ 32\<close> only, since \<open>2 ^ 32 * 2 ^ 32\<close> vanishes.
\<close>

lemma i64_val_of_int:
  assumes "i64_h r = word_of_int a" and "i64_l r = word_of_int b" and "0 \<le> b" and "b < 2 ^ 32"
  shows "i64_val r = word_of_int (a * 2 ^ 32 + b)"
proof -
  have h: "uint (i64_h r) = a mod 2 ^ 32" using assms(1) by (simp add: unsigned_of_int take_bit_eq_mod)
  have l: "uint (i64_l r) = b" using assms(2-4) by (simp add: unsigned_of_int take_bit_int_eq_self)
  have "uint (i64_val r) = uint (i64_h r) * 2 ^ 32 + uint (i64_l r)"
    using arg_cong [OF unat_i64_val [of r], of int] by (simp add: HALF_def)
  also have "\<dots> = (a * 2 ^ 32 + b) mod 2 ^ 64"
  proof -
    have "a * 2 ^ 32 + b = (a mod 2 ^ 32 + a div 2 ^ 32 * 2 ^ 32) * 2 ^ 32 + b" by simp
    also have "\<dots> = (a mod 2 ^ 32 * 2 ^ 32 + b) + (a div 2 ^ 32) * 2 ^ 64"
      unfolding distrib_right by simp
    finally have "a * 2 ^ 32 + b = (a mod 2 ^ 32 * 2 ^ 32 + b) + (a div 2 ^ 32) * 2 ^ 64" .
    moreover have "0 \<le> a mod 2 ^ 32 * 2 ^ 32 + b" "a mod 2 ^ 32 * 2 ^ 32 + b < 2 ^ 64"
      using assms(3,4) pos_mod_bound [of "2 ^ 32" a] pos_mod_sign [of "2 ^ 32" a] by auto
    ultimately show ?thesis unfolding h l by (metis mod_mult_self1 mod_pos_pos_trivial)
  qed
  finally have "uint (i64_val r) = uint (word_of_int (a * 2 ^ 32 + b) :: u64)"
    by (simp only: uint_word_of_int_eq) (simp add: take_bit_eq_mod)
  then show ?thesis by (rule unsigned_word_eqI)
qed

lemma i64_val_ring: "i64_val x = word_of_int (uint (i64_h x) * 2 ^ 32 + uint (i64_l x))"
  by (rule i64_val_of_int) (use unsigned_less [of "i64_l x"] in simp_all)

lemma uint_u32_bounds: "0 \<le> uint (x :: u32)" "uint x < 2 ^ 32"
  using unsigned_less [of x] by simp_all

lemma emul_add_val: "i64_val (emul_add x y) = i64_val x + i64_val y"
proof -
  define c :: int where "c = of_bool (2 ^ 32 \<le> uint (i64_l x) + uint (i64_l y))"
  have u: "uint (i64_l x + i64_l y) = uint (i64_l x) + uint (i64_l y) - c * 2 ^ 32"
    using uint_u32_bounds [of "i64_l x"] uint_u32_bounds [of "i64_l y"]
    by (auto simp: c_def uint_plus_if' )
  then have "i64_l x + i64_l y < i64_l x \<longleftrightarrow> c = 1"
    using uint_u32_bounds [of "i64_l x"] uint_u32_bounds [of "i64_l y"] by (auto simp: word_less_def c_def)
  then have "i64_val (emul_add x y) = word_of_int ((uint (i64_h x) + uint (i64_h y) + c) * 2 ^ 32
      + (uint (i64_l x) + uint (i64_l y) - c * 2 ^ 32))"
    using u uint_u32_bounds [of "i64_l x + i64_l y"]
    by (intro i64_val_of_int) (auto simp: emul_add_def Let_def c_def)
  also have "\<dots> = i64_val x + i64_val y"
    unfolding i64_val_ring [of x] i64_val_ring [of y] by (simp add: algebra_simps)
  finally show ?thesis .
qed

lemma emul_sub_val: "i64_val (emul_sub x y) = i64_val x - i64_val y"
proof -
  define c :: int where "c = of_bool (uint (i64_l x) < uint (i64_l y))"
  have u: "uint (i64_l x - i64_l y) = uint (i64_l x) - uint (i64_l y) + c * 2 ^ 32"
    by (auto simp: c_def uint_sub_if')
  have "i64_val (emul_sub x y) = word_of_int ((uint (i64_h x) - uint (i64_h y) - c) * 2 ^ 32
      + (uint (i64_l x) - uint (i64_l y) + c * 2 ^ 32))"
    using u uint_u32_bounds [of "i64_l x - i64_l y"]
    by (intro i64_val_of_int) (auto simp: emul_sub_def Let_def c_def word_less_def)
  also have "\<dots> = i64_val x - i64_val y"
    unfolding i64_val_ring [of x] i64_val_ring [of y] by (simp add: algebra_simps)
  finally show ?thesis .
qed

lemma emul_neg_val: "i64_val (emul_neg x) = - i64_val x"
proof -
  have "emul_neg x = emul_sub \<lparr>i64_l = 0, i64_h = 0\<rparr> x"
    by (auto simp: emul_neg_def emul_sub_def Let_def not_eq_complement word_neq_0_conv)
  then show ?thesis by (simp add: emul_sub_val) (simp add: i64_val_def)
qed

lemma uint_and_FFFF: "uint ((x :: u32) AND 0xFFFF) = uint x mod 2 ^ 16"
proof -
  have "x AND 0xFFFF = take_bit 16 x" by (simp add: take_bit_eq_mask mask_eq_exp_minus_1)
  then show ?thesis by (simp only: unsigned_take_bit_eq) (simp add: take_bit_eq_mod)
qed

lemma uint_drop_16: "uint (drop_bit 16 (x :: u32)) = uint x div 2 ^ 16"
  using arg_cong [OF unat_drop_bit_eq [of 16 x], of int] by (simp add: drop_bit_eq_div zdiv_int)

lemma uint_half_product:
  assumes "0 \<le> uint (a :: u32)" "uint a < 2 ^ 16" "uint b < 2 ^ 16"
  shows "uint (a * b) = uint a * uint b"
proof -
  have "uint a * uint b < 2 ^ 16 * 2 ^ 16" using assms by (intro mult_strict_mono) auto
  then show ?thesis by (simp add: uint_word_ariths mod_pos_pos_trivial)
qed

text \<open>Adding \<open>p << 16\<close> to the low word, with the carry into the high one.\<close>

lemma emul_mul_accumulate:
  fixes p l :: u32
  defines "q \<equiv> push_bit 16 p" and "c \<equiv> (if l + push_bit 16 p < push_bit 16 p then 1 else 0 :: int)"
  shows "uint (l + q) + c * 2 ^ 32 = uint l + uint p mod 2 ^ 16 * 2 ^ 16"
proof -
  have q: "uint q = uint p mod 2 ^ 16 * 2 ^ 16"
    using mult_mod_left [of "uint p" "2 ^ 16" "2 ^ 16"] by (simp add: q_def push_bit_eq_mult uint_word_ariths)
  have "uint (l + q) = (if uint l + uint q < 2 ^ 32 then uint l + uint q else uint l + uint q - 2 ^ 32)"
    by (simp add: uint_plus_if')
  then show ?thesis
    using uint_u32_bounds [of l] uint_u32_bounds [of q] unfolding c_def q_def [symmetric] q [symmetric]
    by (auto simp: word_less_def)
qed

lemma word_of_int_base: "(word_of_int (k * 2 ^ 64) :: u64) = 0"
  by (simp only: word_of_int_eq_0_iff) simp

lemma emul_mul_val: "i64_val (emul_mul x y) = i64_val x * i64_val y"
proof -
  let ?xl = "uint (i64_l x)" and ?yl = "uint (i64_l y)"
  define a b c d where "a = ?xl mod 2 ^ 16" and "b = ?xl div 2 ^ 16" and "c = ?yl mod 2 ^ 16" and "d = ?yl div 2 ^ 16"
  have abcd: "?xl = b * 2 ^ 16 + a" "?yl = d * 2 ^ 16 + c" by (simp_all add: a_def b_def c_def d_def)
  have rng: "0 \<le> a" "a < 2 ^ 16" "0 \<le> b" "b < 2 ^ 16" "0 \<le> c" "c < 2 ^ 16" "0 \<le> d" "d < 2 ^ 16"
    using uint_u32_bounds [of "i64_l x"] uint_u32_bounds [of "i64_l y"] unfolding a_def b_def c_def d_def
    by (simp_all add: div_int_pos_iff)
  define p00 p10 p01 p11 where "p00 = (i64_l x AND 0xFFFF) * (i64_l y AND 0xFFFF)"
    and "p10 = drop_bit 16 (i64_l x) * (i64_l y AND 0xFFFF)"
    and "p01 = (i64_l x AND 0xFFFF) * drop_bit 16 (i64_l y)"
    and "p11 = drop_bit 16 (i64_l x) * drop_bit 16 (i64_l y)"
  note part = uint_and_FFFF [of "i64_l x", folded a_def] uint_and_FFFF [of "i64_l y", folded c_def]
    uint_drop_16 [of "i64_l x", folded b_def] uint_drop_16 [of "i64_l y", folded d_def]
  have p: "uint p00 = a * c" "uint p10 = b * c" "uint p01 = a * d" "uint p11 = b * d"
    unfolding p00_def p10_def p01_def p11_def by (subst uint_half_product; use part rng in simp)+
  define l1 where "l1 = p00 + push_bit 16 p01"
  define l2 where "l2 = l1 + push_bit 16 p10"
  define c1 c2 :: int where "c1 = (if l1 < push_bit 16 p01 then 1 else 0)" and "c2 = (if l2 < push_bit 16 p10 then 1 else 0)"
  have s1: "uint l1 + c1 * 2 ^ 32 = a * c + a * d mod 2 ^ 16 * 2 ^ 16"
    using emul_mul_accumulate [of p00 p01] by (simp only: l1_def c1_def p)
  have s2: "uint l2 + c2 * 2 ^ 32 = uint l1 + b * c mod 2 ^ 16 * 2 ^ 16"
    using emul_mul_accumulate [of l1 p10] by (simp only: l2_def c2_def p)
  have h: "i64_h (emul_mul x y) = word_of_int (b * d + a * d div 2 ^ 16 + b * c div 2 ^ 16 + c1 + c2
      + (?xl * uint (i64_h y) + uint (i64_h x) * ?yl))"
  proof -
    have "p11 = word_of_int (b * d)" "drop_bit 16 p01 = word_of_int (a * d div 2 ^ 16)"
      "drop_bit 16 p10 = word_of_int (b * c div 2 ^ 16)"
      by (metis p(4) word_of_int_uint, metis p(3) uint_drop_16 word_of_int_uint, metis p(2) uint_drop_16 word_of_int_uint)
    then show ?thesis
      by (simp add: emul_mul_def Let_def p00_def [symmetric] p01_def [symmetric] p10_def [symmetric]
          p11_def [symmetric] l1_def [symmetric] l2_def [symmetric] c1_def c2_def)
  qed
  have "i64_val (emul_mul x y) = word_of_int ((b * d + a * d div 2 ^ 16 + b * c div 2 ^ 16 + c1 + c2
      + (?xl * uint (i64_h y) + uint (i64_h x) * ?yl)) * 2 ^ 32 + uint l2)"
    using h uint_u32_bounds [of l2]
    by (intro i64_val_of_int) (simp_all add: emul_mul_def Let_def l2_def l1_def p00_def p01_def p10_def)
  also have "(b * d + a * d div 2 ^ 16 + b * c div 2 ^ 16 + c1 + c2
      + (?xl * uint (i64_h y) + uint (i64_h x) * ?yl)) * 2 ^ 32 + uint l2
    = (uint (i64_h x) * 2 ^ 32 + ?xl) * (uint (i64_h y) * 2 ^ 32 + ?yl) - uint (i64_h x) * uint (i64_h y) * 2 ^ 64"
  proof -
    have "uint l2 = a * c + (a * d - a * d div 2 ^ 16 * 2 ^ 16) * 2 ^ 16 + (b * c - b * c div 2 ^ 16 * 2 ^ 16) * 2 ^ 16
        - c1 * 2 ^ 32 - c2 * 2 ^ 32"
      using s1 s2 by (simp add: minus_div_mult_eq_mod)
    then show ?thesis unfolding abcd by (simp add: algebra_simps)
  qed
  finally show ?thesis
    unfolding i64_val_ring [of x] i64_val_ring [of y] of_int_diff word_of_int_base by (simp only: of_int_mult diff_0_right)
qed

lemma sint_i64_val: "sint (i64_val x) = sint (i64_h x) * 2 ^ 32 + uint (i64_l x)"
proof -
  have "i64_val x = word_of_int (sint (i64_h x) * 2 ^ 32 + uint (i64_l x))"
    using uint_u32_bounds [of "i64_l x"] by (intro i64_val_of_int) simp_all
  moreover have "- 2147483648 \<le> sint (i64_h x)" "0 \<le> uint (i64_l x)" using sint_ge [of "i64_h x"] by simp_all
  then have "- 9223372036854775808 \<le> sint (i64_h x) * 4294967296 + uint (i64_l x)" by linarith
  then have "- (2 ^ 63) \<le> sint (i64_h x) * 2 ^ 32 + uint (i64_l x)" by simp
  moreover have "sint (i64_h x) * 2 ^ 32 + uint (i64_l x) < 2 ^ 63"
    using uint_u32_bounds [of "i64_l x"] sint_lt [of "i64_h x"] by simp
  ultimately show ?thesis
    by (simp only: sint_sbintrunc') (rule signed_take_bit_int_eq_self; simp)
qed

lemma emul_compare_val:
  "emul_compare x y = (if sint (i64_val x) > sint (i64_val y) then 1
     else if sint (i64_val x) < sint (i64_val y) then -1 else 0)"
proof -
  have lex: "a * 2 ^ 32 + b < c * 2 ^ 32 + d \<longleftrightarrow> a < c \<or> a = c \<and> b < d"
    if "0 \<le> b" "b < 2 ^ 32" "0 \<le> d" "d < 2 ^ 32" for a b c d :: int
    using that by auto
  show ?thesis
    unfolding sint_i64_val lex [OF uint_u32_bounds uint_u32_bounds]
    by (auto simp: emul_compare_def word_less_def word_uint_eq_iff)
qed

lemma emul_bitwise_val:
  "i64_val (emul_and x y) = i64_val x AND i64_val y"
  "i64_val (emul_or x y) = i64_val x OR i64_val y"
  "i64_val (emul_xor x y) = i64_val x XOR i64_val y"
  by (auto intro!: bit_word_eqI simp: bit_i64_val bit_simps emul_and_def emul_or_def emul_xor_def)

lemma shift_count: "unat (n AND 63 :: u32) < 64"
proof -
  have "n AND 63 = take_bit 6 n" by (simp add: take_bit_eq_mask mask_eq_exp_minus_1)
  then have "unat (n AND 63) = take_bit 6 (unat n)" by (simp only: unsigned_take_bit_eq)
  then show ?thesis by (simp add: take_bit_eq_mod)
qed

lemma bit_u32_len: "bit (x :: u32) n \<Longrightarrow> n < 32"
  using bit_imp_le_length [of x n] by simp

lemma emul_lsl_val: "i64_val (emul_lsl x n) = push_bit (unat (n AND 63)) (i64_val x)"
proof (rule bit_word_eqI)
  fix k
  assume "k < LENGTH(64)"
  then show "bit (i64_val (emul_lsl x n)) k = bit (push_bit (unat (n AND 63)) (i64_val x)) k"
    by (auto simp: bit_i64_val bit_simps emul_lsl_def Let_def ac_simps dest: bit_u32_len)
qed

lemma emul_lsr_val: "i64_val (emul_lsr x n) = drop_bit (unat (n AND 63)) (i64_val x)"
proof (rule bit_word_eqI)
  fix k
  assume "k < LENGTH(64)"
  then show "bit (i64_val (emul_lsr x n)) k = bit (drop_bit (unat (n AND 63)) (i64_val x)) k"
    by (auto simp: bit_i64_val bit_simps emul_lsr_def Let_def ac_simps dest: bit_u32_len)
qed

lemma emul_asr_val: "i64_val (emul_asr x n) = signed_drop_bit (unat (n AND 63)) (i64_val x)"
proof (rule bit_word_eqI)
  fix k
  assume k: "k < LENGTH(64)"
  define s where "s = unat (n AND 63)"
  have s: "s < 64" using shift_count [of n] by (simp add: s_def)
  have r: "bit (signed_drop_bit s (i64_val x)) k \<longleftrightarrow> bit (i64_val x) (if 64 - s \<le> k then 63 else s + k)"
    using k by (simp add: bit_signed_drop_bit_iff)
  have b: "bit (signed_drop_bit j w) i \<longleftrightarrow> i < 32 \<and> bit w (if 32 - j \<le> i then 31 else j + i)" for w :: u32 and i j
    by (auto simp: bit_signed_drop_bit_iff dest: bit_u32_len)
  have e: "emul_asr x n = (if s = 0 then x
      else if s < 32 then \<lparr>i64_l = drop_bit s (i64_l x) OR push_bit (32 - s) (i64_h x), i64_h = signed_drop_bit s (i64_h x)\<rparr>
      else \<lparr>i64_l = signed_drop_bit (s - 32) (i64_h x), i64_h = signed_drop_bit 31 (i64_h x)\<rparr>)"
    by (simp add: emul_asr_def s_def Let_def)
  consider "s = 0" | "0 < s" "s < 32" | "32 \<le> s" by linarith
  then have "bit (i64_val (emul_asr x n)) k \<longleftrightarrow> bit (i64_val x) (if 64 - s \<le> k then 63 else s + k)"
  proof cases
    case 1
    then show ?thesis using k by (simp add: e)
  next
    case 2
    then show ?thesis
      using k by (auto simp: e bit_i64_val b bit_or_iff bit_drop_bit_eq bit_push_bit_iff ac_simps dest: bit_u32_len)
  next
    case 3
    then show ?thesis using k s by (auto simp: e bit_i64_val b)
  qed
  then show "bit (i64_val (emul_asr x n)) k = bit (signed_drop_bit (unat (n AND 63)) (i64_val x)) k"
    unfolding s_def [symmetric] r .
qed

lemma I64_SHL1_val: "i64_val (I64_SHL1 x) = push_bit 1 (i64_val x)"
  and I64_SHR1_val: "i64_val (I64_SHR1 x) = drop_bit 1 (i64_val x)"
proof -
  have one: "unat (1 AND 63 :: u32) = 1" by simp
  have "I64_SHL1 x = emul_lsl x 1" "I64_SHR1 x = emul_lsr x 1"
    unfolding I64_SHL1_def I64_SHR1_def emul_lsl_def emul_lsr_def one by (simp_all add: Let_def)
  then show "i64_val (I64_SHL1 x) = push_bit 1 (i64_val x)" "i64_val (I64_SHR1 x) = drop_bit 1 (i64_val x)"
    by (simp_all only: emul_lsl_val emul_lsr_val one)
qed

section \<open>The division loops\<close>

abbreviation V :: "int64_emul \<Rightarrow> nat" where "V x \<equiv> unat (i64_val x)"

lemma V_top_bit: "0 \<le> sint (i64_h x) \<longleftrightarrow> V x < 2 ^ 63"
proof -
  have "0 \<le> sint (i64_h x) \<longleftrightarrow> 0 \<le> sint (i64_val x)"
    using uint_u32_bounds [of "i64_l x"] unfolding sint_i64_val by auto
  also have "\<dots> \<longleftrightarrow> V x < 2 ^ 63"
    using unsigned_less [of "i64_val x", where 'a = int] unfolding sint_u64 by (auto simp: not_le)
  finally show ?thesis .
qed

lemma V_SHL1: "V x < 2 ^ 63 \<Longrightarrow> V (I64_SHL1 x) = 2 * V x"
  by (simp only: I64_SHL1_val unat_push_bit_u64) simp

lemma V_SHR1: "V (I64_SHR1 x) = V x div 2"
  by (simp only: I64_SHR1_val unat_drop_bit_u64) simp

lemma V_sub: "V y \<le> V x \<Longrightarrow> V (emul_sub x y) = V x - V y"
  by (simp only: emul_sub_val unat_sub_BASE if_True)

lemma ucompare_V: "0 \<le> emul_ucompare x y \<longleftrightarrow> V y \<le> V x"
  by (auto simp: emul_ucompare_val word_less_nat_alt)

lemma V_zero_iff: "i64_l x OR i64_h x = 0 \<longleftrightarrow> V x = 0"
  by (auto simp: unat_i64_val or_eq_0_iff unat_eq_zero HALF_def)

lemma emul_udivmod_up_spec:
  assumes "0 < d" and "V divisor = d * 2 ^ k" and "V mk = 2 ^ k"
  shows "\<exists>divisor' mk' j. emul_udivmod_up modulus divisor mk = Some (divisor', mk')
    \<and> V divisor' = d * 2 ^ j \<and> V mk' = 2 ^ j \<and> V modulus < 2 * V divisor'"
  using assms(2,3)
proof (induction "2 ^ 64 - V divisor" arbitrary: divisor mk k rule: less_induct)
  case less
  show ?case
  proof (cases "V divisor < 2 ^ 63")
    case False
    then have "emul_udivmod_up modulus divisor mk = Some (divisor, mk)"
      using V_top_bit [of divisor] by (subst emul_udivmod_up.simps) simp
    moreover have "V modulus < 2 * V divisor" using False unat_lt_BASE [of "i64_val modulus"] BASE_twice by linarith
    ultimately show ?thesis using less.prems by blast
  next
    case True
    have pos: "0 < V divisor" using less.prems(1) assms(1) by simp
    have "d * 2 ^ k \<ge> 2 ^ k" using assms(1) by simp
    then have "V mk < 2 ^ 63" using less.prems True by linarith
    then have up: "V (I64_SHL1 divisor) = d * 2 ^ Suc k" "V (I64_SHL1 mk) = 2 ^ Suc k"
      using V_SHL1 True less.prems by simp_all
    show ?thesis
    proof (cases "V modulus \<le> V divisor")
      case le: True
      then have "emul_udivmod_up modulus divisor mk = Some (I64_SHL1 divisor, I64_SHL1 mk)"
        using V_top_bit [of divisor] True ucompare_V [of divisor modulus]
        by (subst emul_udivmod_up.simps) (simp add: Let_def)
      moreover have "V modulus < 2 * V (I64_SHL1 divisor)"
        using le V_SHL1 [OF True] pos by linarith
      ultimately show ?thesis using up by blast
    next
      case gt: False
      have "2 ^ 64 - V (I64_SHL1 divisor) < 2 ^ 64 - V divisor"
        using V_SHL1 [OF True] True pos by simp
      from less.hyps [OF this up] show ?thesis
        using V_top_bit [of divisor] True ucompare_V [of divisor modulus] gt
        by (subst emul_udivmod_up.simps) (simp add: Let_def)
    qed
  qed
qed

lemma V_or_mask:
  assumes "2 ^ Suc k dvd V quo" and "V mk = 2 ^ k"
  shows "V (emul_or quo mk) = V quo + 2 ^ k"
proof -
  obtain t where t: "V quo = push_bit (Suc k) t" using assms(1) by (auto simp: push_bit_eq_mult mult.commute elim: dvdE)
  have "V (emul_or quo mk) = push_bit (Suc k) t OR push_bit k 1"
    by (simp only: emul_bitwise_val unsigned_or_eq t assms(2)) (simp add: push_bit_eq_mult)
  moreover have "push_bit (Suc k) t AND push_bit k 1 = (0 :: nat)"
    by (rule bit_eqI) (auto simp add: bit_and_iff bit_push_bit_iff bit_exp_iff simp del: push_bit_Suc)
  ultimately show ?thesis using t by (simp add: disjunctive_add_eq_or [symmetric] push_bit_eq_mult)
qed

text \<open>One round of the descent, with the dividend \<open>n\<close> as invariant.\<close>

lemma emul_udivmod_round:
  assumes "V divisor = d * 2 ^ k" and "V mk = 2 ^ k" and "V modulus < 2 * V divisor"
    and "2 ^ Suc k dvd V quo" and "n = V quo * d + V modulus"
    and "(quo', modulus') = (if emul_ucompare modulus divisor \<ge> 0
       then (emul_or quo mk, emul_sub modulus divisor) else (quo, modulus))"
  shows "V modulus' < d * 2 ^ k" and "2 ^ k dvd V quo'" and "n = V quo' * d + V modulus'"
proof -
  have "2 ^ k dvd V quo" using assms(4) by (metis dvd_mult_left power_Suc2)
  show "V modulus' < d * 2 ^ k" "2 ^ k dvd V quo'" "n = V quo' * d + V modulus'"
    using assms V_sub [of divisor modulus] V_or_mask [OF assms(4,2)] \<open>2 ^ k dvd V quo\<close>
    by (auto simp: ucompare_V not_le algebra_simps split: if_splits)
qed

lemma emul_udivmod_down_spec:
  assumes "V divisor = d * 2 ^ k" and "V mk = 2 ^ k" and "V modulus < 2 * V divisor"
    and "2 ^ Suc k dvd V quo" and "n = V quo * d + V modulus"
  shows "\<exists>q r. emul_udivmod_down quo modulus divisor mk = Some (q, r) \<and> V q = n div d \<and> V r = n mod d"
  using assms
proof (induction k arbitrary: quo modulus divisor mk)
  case 0
  obtain quo' modulus' where qm: "(quo', modulus') = (if emul_ucompare modulus divisor \<ge> 0
       then (emul_or quo mk, emul_sub modulus divisor) else (quo, modulus))" by (metis surj_pair)
  note round = emul_udivmod_round [OF 0 qm]
  have "V (I64_SHR1 mk) = 0" using 0(2) by (simp add: V_SHR1)
  then have "emul_udivmod_down quo' modulus' (I64_SHR1 divisor) (I64_SHR1 mk) = Some (quo', modulus')"
    using V_zero_iff [of "I64_SHR1 mk"] by (subst emul_udivmod_down.simps) simp
  then have "emul_udivmod_down quo modulus divisor mk = Some (quo', modulus')"
    using V_zero_iff [of mk] 0(2) by (subst emul_udivmod_down.simps) (simp add: qm [symmetric])
  moreover have "V quo' = n div d" "V modulus' = n mod d" using round by simp_all
  ultimately show ?case by blast
next
  case (Suc k)
  obtain quo' modulus' where qm: "(quo', modulus') = (if emul_ucompare modulus divisor \<ge> 0
       then (emul_or quo mk, emul_sub modulus divisor) else (quo, modulus))" by (metis surj_pair)
  note round = emul_udivmod_round [OF Suc.prems qm]
  have "V (I64_SHR1 divisor) = d * 2 ^ k" "V (I64_SHR1 mk) = 2 ^ k" using Suc.prems(1,2) by (simp_all add: V_SHR1)
  moreover from this have "V modulus' < 2 * V (I64_SHR1 divisor)" using round(1) by simp
  ultimately have "\<exists>q r. emul_udivmod_down quo' modulus' (I64_SHR1 divisor) (I64_SHR1 mk) = Some (q, r)
      \<and> V q = n div d \<and> V r = n mod d" using round(2,3) by (rule Suc.IH)
  then show ?case
    using V_zero_iff [of mk] Suc.prems(2) by (subst emul_udivmod_down.simps) (simp add: qm [symmetric])
qed

lemma emul_udivmod_spec:
  assumes "0 < V y"
  shows "\<exists>q r. emul_udivmod x y = Some (q, r) \<and> V q = V x div V y \<and> V r = V x mod V y"
proof -
  have one: "V \<lparr>i64_l = 1, i64_h = 0\<rparr> = 2 ^ 0" and zero: "V \<lparr>i64_l = 0, i64_h = 0\<rparr> = 0"
    by (simp_all add: unat_i64_val)
  obtain y' mk j where up: "emul_udivmod_up x y \<lparr>i64_l = 1, i64_h = 0\<rparr> = Some (y', mk)"
    "V y' = V y * 2 ^ j" "V mk = 2 ^ j" "V x < 2 * V y'"
    using emul_udivmod_up_spec [OF assms _ one, where modulus = x] by (metis mult.right_neutral power_0)
  have "\<exists>q r. emul_udivmod_down \<lparr>i64_l = 0, i64_h = 0\<rparr> x y' mk = Some (q, r)
      \<and> V q = V x div V y \<and> V r = V x mod V y"
    using zero by (intro emul_udivmod_down_spec [OF up(2-4)]) simp_all
  then show ?thesis using up(1) by (simp add: emul_udivmod_def)
qed

section \<open>Signed division and conversions\<close>

lemma emul_negative: "sint (i64_h x) < 0 \<longleftrightarrow> sint (i64_val x) < 0"
proof -
  have "0 \<le> sint (i64_h x) \<longleftrightarrow> 0 \<le> sint (i64_val x)"
    using uint_u32_bounds [of "i64_l x"] unfolding sint_i64_val by auto
  then show ?thesis by linarith
qed

lemma sint_eq_0: "sint (w :: u64) = 0 \<longleftrightarrow> w = 0"
  by (metis signed_0 signed_word_eqI)

lemma sint_neg_xor: "sint ((a :: u32) XOR b) < 0 \<longleftrightarrow> (sint a < 0) \<noteq> (sint b < 0)"
  using bit_last_iff [of a] bit_last_iff [of b] bit_last_iff [of "a XOR b"] by (simp add: bit_xor_iff)

text \<open>The absolute value is taken in the unsigned sense, so that of the least integer is right too.\<close>

lemma V_abs: "V (if sint (i64_h x) < 0 then emul_neg x else x) = nat \<bar>sint (i64_val x)\<bar>"
proof (cases "sint (i64_val x) < 0")
  case True
  have "i64_val (emul_neg x) = word_of_int (- sint (i64_val x))" by (simp add: emul_neg_val)
  moreover have "0 \<le> - sint (i64_val x)" "- sint (i64_val x) < 2 ^ 64"
    using True sint_ge [of "i64_val x"] by simp_all
  ultimately have "uint (i64_val (emul_neg x)) = - sint (i64_val x)"
    by (simp only: uint_word_of_int_eq) (simp add: take_bit_int_eq_self)
  then show ?thesis using True by (simp add: emul_negative flip: nat_uint_eq)
next
  case False
  then have "V x < 2 ^ 63" using V_top_bit [of x] emul_negative [of x] by simp
  then show ?thesis using False by (simp add: emul_negative sint_u64)
qed

lemma emul_div_val:
  assumes "i64_val y \<noteq> 0"
  shows "\<exists>q. emul_div x y = Some q \<and> i64_val q = word_of_int (sint (i64_val x) sdiv sint (i64_val y))"
proof -
  let ?x = "sint (i64_val x)" and ?y = "sint (i64_val y)"
  let ?ax = "if sint (i64_h x) < 0 then emul_neg x else x" and ?ay = "if sint (i64_h y) < 0 then emul_neg y else y"
  have "0 < V ?ay" unfolding V_abs using assms by (simp add: sint_eq_0)
  from emul_udivmod_spec [OF this, of ?ax] obtain q r where
    u: "emul_udivmod ?ax ?ay = Some (q, r)" "V q = nat \<bar>?x\<bar> div nat \<bar>?y\<bar>" unfolding V_abs by auto
  have "i64_val q = word_of_nat (V q)" by simp
  also have "\<dots> = word_of_int (\<bar>?x\<bar> div \<bar>?y\<bar>)"
  proof -
    have "int (V q) = \<bar>?x\<bar> div \<bar>?y\<bar>" unfolding u(2) by (simp only: zdiv_int) simp
    then show ?thesis by (metis of_int_of_nat_eq)
  qed
  finally have q: "i64_val q = word_of_int (\<bar>?x\<bar> div \<bar>?y\<bar>)" .
  have e: "emul_div x y = Some (if sint (i64_h x XOR i64_h y) < 0 then emul_neg q else q)"
    using u(1) by (simp add: emul_div_def Let_def)
  have "?x sdiv ?y = (if (?x < 0) \<noteq> (?y < 0) then - (\<bar>?x\<bar> div \<bar>?y\<bar>) else \<bar>?x\<bar> div \<bar>?y\<bar>)"
    using assms by (auto simp: signed_divide_int_def sgn_if)
  then have "i64_val (if sint (i64_h x XOR i64_h y) < 0 then emul_neg q else q) = word_of_int (?x sdiv ?y)"
    by (simp add: emul_neg_val q sint_neg_xor emul_negative)
  then show ?thesis using e by blast
qed

lemma emul_mod_val:
  assumes "i64_val y \<noteq> 0"
  shows "\<exists>r. emul_mod x y = Some r \<and> i64_val r = word_of_int (sint (i64_val x) smod sint (i64_val y))"
proof -
  let ?x = "sint (i64_val x)" and ?y = "sint (i64_val y)"
  let ?ax = "if sint (i64_h x) < 0 then emul_neg x else x" and ?ay = "if sint (i64_h y) < 0 then emul_neg y else y"
  have "0 < V ?ay" unfolding V_abs using assms by (simp add: sint_eq_0)
  from emul_udivmod_spec [OF this, of ?ax] obtain q r where
    u: "emul_udivmod ?ax ?ay = Some (q, r)" "V r = nat \<bar>?x\<bar> mod nat \<bar>?y\<bar>" unfolding V_abs by auto
  have "i64_val r = word_of_nat (V r)" by simp
  also have "\<dots> = word_of_int (\<bar>?x\<bar> mod \<bar>?y\<bar>)"
  proof -
    have "int (V r) = \<bar>?x\<bar> mod \<bar>?y\<bar>" unfolding u(2) by (simp only: zmod_int) simp
    then show ?thesis by (metis of_int_of_nat_eq)
  qed
  finally have r: "i64_val r = word_of_int (\<bar>?x\<bar> mod \<bar>?y\<bar>)" .
  have e: "emul_mod x y = Some (if sint (i64_h x) < 0 then emul_neg r else r)"
    using u(1) by (simp add: emul_mod_def Let_def)
  have "?x smod ?y = (if ?x < 0 then - (\<bar>?x\<bar> mod \<bar>?y\<bar>) else \<bar>?x\<bar> mod \<bar>?y\<bar>)"
    by (auto simp: signed_modulo_int_def signed_divide_int_def sgn_if)
  then have "i64_val (if sint (i64_h x) < 0 then emul_neg r else r) = word_of_int (?x smod ?y)"
    by (simp add: emul_neg_val r emul_negative)
  then show ?thesis using e by blast
qed

lemma emul_of_int32_val: "i64_val (emul_of_int32 x) = scast x"
proof (rule bit_word_eqI)
  fix k
  assume "k < LENGTH(64)"
  then consider "k < 31" | "k = 31" | "k = 32" | "32 < k" "k < 64" by fastforce
  then show "bit (i64_val (emul_of_int32 x)) k = bit (scast x :: u64) k"
    by cases (auto simp: bit_i64_val emul_of_int32_def bit_signed_drop_bit_iff bit_signed_iff)
qed

lemma emul_to_int32_val: "emul_to_int32 x = ucast (i64_val x)"
  by (rule bit_word_eqI) (auto simp: emul_to_int32_def bit_i64_val bit_simps)

lemma emul_tests_val:
  "emul_is_zero x \<longleftrightarrow> i64_val x = 0"
  "emul_is_negative x \<longleftrightarrow> sint (i64_val x) < 0"
  "emul_is_min_int x \<longleftrightarrow> i64_val x = push_bit 63 1"
  "emul_is_minus_one x \<longleftrightarrow> i64_val x = -1"
proof -
  show "emul_is_zero x \<longleftrightarrow> i64_val x = 0"
    using V_zero_iff [of x] by (simp add: emul_is_zero_def unat_eq_zero)
  show "emul_is_negative x \<longleftrightarrow> sint (i64_val x) < 0"
    by (simp only: emul_is_negative_def emul_negative)
  have min: "i64_val \<lparr>i64_l = 0, i64_h = 0x80000000\<rparr> = push_bit 63 1"
    and m1: "i64_val \<lparr>i64_l = 0xFFFFFFFF, i64_h = 0xFFFFFFFF\<rparr> = -1"
    by (simp_all add: i64_val_def)
  show "emul_is_min_int x \<longleftrightarrow> i64_val x = push_bit 63 1"
    unfolding min [symmetric] i64_val_inject by (cases x) (auto simp: emul_is_min_int_def)
  have "a AND b = 0xFFFFFFFF \<longleftrightarrow> a = 0xFFFFFFFF \<and> b = 0xFFFFFFFF" for a b :: u32
  proof
    assume "a AND b = 0xFFFFFFFF"
    then have "a AND b = -1" by simp
    then have "bit (a AND b) k" if "k < 32" for k using that by simp
    then have bits: "bit a k \<and> bit b k" if "k < 32" for k using that by (simp add: bit_and_iff)
    have "a = -1" "b = -1" by (rule bit_word_eqI, use bits in simp)+
    then show "a = 0xFFFFFFFF \<and> b = 0xFFFFFFFF" by simp
  qed simp
  then show "emul_is_minus_one x \<longleftrightarrow> i64_val x = -1"
    unfolding m1 [symmetric] i64_val_inject by (cases x) (auto simp: emul_is_minus_one_def)
qed

end
