(* ===== verification/Ints.thy ===== *)
theory Ints
  imports Mlvalues "HOL-Library.Signed_Division"
begin

text \<open>
  Integers of \<^verbatim>\<open>byterun/ints.c\<close>: the parser for integer literals shared by the
  types \<^verbatim>\<open>int\<close>, \<^verbatim>\<open>int32\<close> and \<^verbatim>\<open>nativeint\<close>, with its overflow tests on machine
  words, and the arithmetic of boxed 32-bit and native integers, with the
  guards around C division. A string is its list of characters; the byte
  that follows the last one is null, as in every OCaml string. A boxed
  result is represented by the integer that is put into the fresh block.
\<close>

section \<open>Errors\<close>

text \<open>The exceptions that are raised, and C behaviour that is undefined.\<close>

datatype ints_error = Failure_int_of_string | Division_by_zero | C_undefined

section \<open>Parsing integer literals\<close>

definition char_at :: "string \<Rightarrow> nat \<Rightarrow> char" where
  "char_at s i = (if i < length s then s ! i else CHR 0x00)"

text \<open>The new position, the base and the sign.\<close>

definition parse_sign_and_base :: "string \<Rightarrow> nat \<times> nat \<times> int" where
  "parse_sign_and_base s =
     (let (sign, p) = (if char_at s 0 = CHR ''-'' then (-1, 1) else (1, 0))
      in if char_at s p = CHR ''0''
         then let c = char_at s (p + 1) in
              if c = CHR ''x'' \<or> c = CHR ''X'' then (p + 2, 16, sign)
              else if c = CHR ''o'' \<or> c = CHR ''O'' then (p + 2, 8, sign)
              else if c = CHR ''b'' \<or> c = CHR ''B'' then (p + 2, 2, sign)
              else (p, 10, sign)
         else (p, 10, sign))"

definition parse_digit :: "char \<Rightarrow> int" where
  "parse_digit c =
     (let k = of_char c :: int in
      if k \<ge> 48 \<and> k \<le> 57 then k - 48
      else if k \<ge> 65 \<and> k \<le> 70 then k - 65 + 10
      else if k \<ge> 97 \<and> k \<le> 102 then k - 97 + 10
      else -1)"

lemma char_at_beyond [simp]: "length s \<le> p \<Longrightarrow> char_at s p = CHR 0x00"
  by (simp add: char_at_def)

lemma parse_digit_null [simp]: "parse_digit CHR 0x00 = -1"
  by (simp add: parse_digit_def)

text \<open>The digit loop of \<^verbatim>\<open>parse_intnat_r\<close>, from position \<open>p\<close> with the value \<open>res\<close> so far.\<close>

function parse_digits :: "string \<Rightarrow> nat \<Rightarrow> u64 \<Rightarrow> nat \<Rightarrow> u64 \<Rightarrow> (nat \<times> u64) option" where
  "parse_digits s base threshold p res =
     (let c = char_at s p in
      if c = CHR ''_'' then parse_digits s base threshold (p + 1) res
      else let d = parse_digit c in
           if d < 0 \<or> d \<ge> int base then Some (p, res)
           else if res > threshold then None
           else let res' = of_nat base * res + word_of_int d in
                if res' < word_of_int d then None
                else parse_digits s base threshold (p + 1) res')"
  by pat_completeness auto
termination
proof (relation "measure (\<lambda>(s, _, _, p, _). length s - p)")
  fix s :: string and base :: nat and threshold res :: u64 and p :: nat and c :: char
  assume "c = char_at s p" "c = CHR ''_''"
  then have "p < length s" by (cases "p < length s") auto
  then show "((s, base, threshold, p + 1, res), s, base, threshold, p, res)
    \<in> measure (\<lambda>(s, _, _, p, _). length s - p)" by simp
next
  fix s :: string and base :: nat and threshold res res' :: u64 and p :: nat and c :: char and d :: int
  assume "c = char_at s p" "d = parse_digit c" "\<not> (d < 0 \<or> d \<ge> int base)"
  then have "p < length s" by (cases "p < length s") auto
  then show "((s, base, threshold, p + 1, res'), s, base, threshold, p, res)
    \<in> measure (\<lambda>(s, _, _, p, _). length s - p)" by simp
qed simp

declare parse_digits.simps [simp del]

definition parse_intnat :: "string \<Rightarrow> nat \<Rightarrow> ints_error + u64" where
  "parse_intnat s nbits =
     (let (p, base, sign) = parse_sign_and_base s;
          threshold = (-1) div of_nat base;
          d = parse_digit (char_at s p)
      in if d < 0 \<or> d \<ge> int base then Inl Failure_int_of_string
         else case parse_digits s base threshold (p + 1) (word_of_int d) of
           None \<Rightarrow> Inl Failure_int_of_string
         | Some (p', res) \<Rightarrow>
             if p' \<noteq> length s then Inl Failure_int_of_string
             else if base = 10 \<and> sign \<ge> 0 \<and> res \<ge> push_bit (nbits - 1) 1 then Inl Failure_int_of_string
             else if base = 10 \<and> sign < 0 \<and> res > push_bit (nbits - 1) 1 then Inl Failure_int_of_string
             else if base \<noteq> 10 \<and> nbits < 64 \<and> res \<ge> push_bit nbits 1 then Inl Failure_int_of_string
             else Inr (if sign < 0 then - res else res))"

definition caml_int_of_string :: "string \<Rightarrow> ints_error + mlvalue" where
  "caml_int_of_string s = map_sum id Val_long (parse_intnat s 63)"

definition caml_int32_of_string :: "string \<Rightarrow> ints_error + u32" where
  "caml_int32_of_string s = map_sum id ucast (parse_intnat s 32)"

definition caml_nativeint_of_string :: "string \<Rightarrow> ints_error + u64" where
  "caml_nativeint_of_string s = parse_intnat s 64"

section \<open>Arithmetic on boxed integers\<close>

text \<open>
  C signed division and remainder, which truncate; both are undefined for a
  zero divisor and for the one quotient that does not fit.
\<close>

definition c_div :: "'a::len word \<Rightarrow> 'a word \<Rightarrow> ints_error + 'a word" where
  "c_div a b = (if b = 0 \<or> a = push_bit (LENGTH('a) - 1) 1 \<and> b = -1 then Inl C_undefined
     else Inr (word_of_int (sint a sdiv sint b)))"

definition c_mod :: "'a::len word \<Rightarrow> 'a word \<Rightarrow> ints_error + 'a word" where
  "c_mod a b = (if b = 0 \<or> a = push_bit (LENGTH('a) - 1) 1 \<and> b = -1 then Inl C_undefined
     else Inr (word_of_int (sint a smod sint b)))"

definition c_compare :: "'a::len word \<Rightarrow> 'a word \<Rightarrow> u32" where
  "c_compare i1 i2 = of_bool (sint i1 > sint i2) - of_bool (sint i1 < sint i2)"

definition caml_int_compare :: "mlvalue \<Rightarrow> mlvalue \<Rightarrow> mlvalue" where
  "caml_int_compare v1 v2 = Val_int (c_compare v1 v2)"

definition Int32_val :: "memory \<Rightarrow> mlvalue \<Rightarrow> u32" where
  "Int32_val m v = ucast (Field m v 1)"

definition Nativeint_val :: "memory \<Rightarrow> mlvalue \<Rightarrow> u64" where
  "Nativeint_val m v = Field m v 1"

definition caml_int32_neg :: "memory \<Rightarrow> mlvalue \<Rightarrow> u32" where
  "caml_int32_neg m v = - Int32_val m v"

definition caml_int32_add :: "memory \<Rightarrow> mlvalue \<Rightarrow> mlvalue \<Rightarrow> u32" where
  "caml_int32_add m v1 v2 = Int32_val m v1 + Int32_val m v2"

definition caml_int32_sub :: "memory \<Rightarrow> mlvalue \<Rightarrow> mlvalue \<Rightarrow> u32" where
  "caml_int32_sub m v1 v2 = Int32_val m v1 - Int32_val m v2"

definition caml_int32_mul :: "memory \<Rightarrow> mlvalue \<Rightarrow> mlvalue \<Rightarrow> u32" where
  "caml_int32_mul m v1 v2 = Int32_val m v1 * Int32_val m v2"

definition caml_int32_div :: "memory \<Rightarrow> mlvalue \<Rightarrow> mlvalue \<Rightarrow> ints_error + u32" where
  "caml_int32_div m v1 v2 =
     (let dividend = Int32_val m v1; divisor = Int32_val m v2 in
      if divisor = 0 then Inl Division_by_zero
      else if dividend = push_bit 31 1 \<and> divisor = -1 then Inr (Int32_val m v1)
      else c_div dividend divisor)"

definition caml_int32_mod :: "memory \<Rightarrow> mlvalue \<Rightarrow> mlvalue \<Rightarrow> ints_error + u32" where
  "caml_int32_mod m v1 v2 =
     (let dividend = Int32_val m v1; divisor = Int32_val m v2 in
      if divisor = 0 then Inl Division_by_zero
      else if dividend = push_bit 31 1 \<and> divisor = -1 then Inr 0
      else c_mod dividend divisor)"

definition caml_int32_and :: "memory \<Rightarrow> mlvalue \<Rightarrow> mlvalue \<Rightarrow> u32" where
  "caml_int32_and m v1 v2 = Int32_val m v1 AND Int32_val m v2"

definition caml_int32_or :: "memory \<Rightarrow> mlvalue \<Rightarrow> mlvalue \<Rightarrow> u32" where
  "caml_int32_or m v1 v2 = Int32_val m v1 OR Int32_val m v2"

definition caml_int32_xor :: "memory \<Rightarrow> mlvalue \<Rightarrow> mlvalue \<Rightarrow> u32" where
  "caml_int32_xor m v1 v2 = Int32_val m v1 XOR Int32_val m v2"

text \<open>Shift counts are below the width by contract.\<close>

definition caml_int32_shift_left :: "memory \<Rightarrow> mlvalue \<Rightarrow> mlvalue \<Rightarrow> u32" where
  "caml_int32_shift_left m v1 v2 = push_bit (unat (Int_val v2)) (Int32_val m v1)"

definition caml_int32_shift_right :: "memory \<Rightarrow> mlvalue \<Rightarrow> mlvalue \<Rightarrow> u32" where
  "caml_int32_shift_right m v1 v2 = signed_drop_bit (unat (Int_val v2)) (Int32_val m v1)"

definition caml_int32_shift_right_unsigned :: "memory \<Rightarrow> mlvalue \<Rightarrow> mlvalue \<Rightarrow> u32" where
  "caml_int32_shift_right_unsigned m v1 v2 = drop_bit (unat (Int_val v2)) (Int32_val m v1)"

definition caml_int32_of_int :: "mlvalue \<Rightarrow> u32" where
  "caml_int32_of_int v = ucast (Long_val v)"

definition caml_int32_to_int :: "memory \<Rightarrow> mlvalue \<Rightarrow> mlvalue" where
  "caml_int32_to_int m v = Val_long (scast (Int32_val m v))"

definition caml_int32_compare :: "memory \<Rightarrow> mlvalue \<Rightarrow> mlvalue \<Rightarrow> mlvalue" where
  "caml_int32_compare m v1 v2 = Val_int (c_compare (Int32_val m v1) (Int32_val m v2))"

definition caml_nativeint_neg :: "memory \<Rightarrow> mlvalue \<Rightarrow> u64" where
  "caml_nativeint_neg m v = - Nativeint_val m v"

definition caml_nativeint_add :: "memory \<Rightarrow> mlvalue \<Rightarrow> mlvalue \<Rightarrow> u64" where
  "caml_nativeint_add m v1 v2 = Nativeint_val m v1 + Nativeint_val m v2"

definition caml_nativeint_sub :: "memory \<Rightarrow> mlvalue \<Rightarrow> mlvalue \<Rightarrow> u64" where
  "caml_nativeint_sub m v1 v2 = Nativeint_val m v1 - Nativeint_val m v2"

definition caml_nativeint_mul :: "memory \<Rightarrow> mlvalue \<Rightarrow> mlvalue \<Rightarrow> u64" where
  "caml_nativeint_mul m v1 v2 = Nativeint_val m v1 * Nativeint_val m v2"

definition caml_nativeint_div :: "memory \<Rightarrow> mlvalue \<Rightarrow> mlvalue \<Rightarrow> ints_error + u64" where
  "caml_nativeint_div m v1 v2 =
     (let dividend = Nativeint_val m v1; divisor = Nativeint_val m v2 in
      if divisor = 0 then Inl Division_by_zero
      else if dividend = push_bit 63 1 \<and> divisor = -1 then Inr (Nativeint_val m v1)
      else c_div dividend divisor)"

definition caml_nativeint_mod :: "memory \<Rightarrow> mlvalue \<Rightarrow> mlvalue \<Rightarrow> ints_error + u64" where
  "caml_nativeint_mod m v1 v2 =
     (let dividend = Nativeint_val m v1; divisor = Nativeint_val m v2 in
      if divisor = 0 then Inl Division_by_zero
      else if dividend = push_bit 63 1 \<and> divisor = -1 then Inr 0
      else c_mod dividend divisor)"

definition nativeint_hash :: "memory \<Rightarrow> mlvalue \<Rightarrow> u64" where
  "nativeint_hash m v =
     (let n = Nativeint_val m v in signed_drop_bit 32 n XOR signed_drop_bit 63 n XOR n)"

section \<open>What a literal denotes\<close>

text \<open>
  The reference reading of a literal, independent of the scanner: a table
  names the digits, the sign and the base prefix are what the string starts
  with, the number is the sum of its digits weighted by their places,
  underscores are allowed except in front, and the number must fit the
  requested width.
\<close>

definition digit_table :: "(char \<times> nat) list" where
  "digit_table = zip ''0123456789'' [0..<10] @ zip ''abcdef'' [10..<16] @ zip ''ABCDEF'' [10..<16]"

definition digit_value :: "char \<Rightarrow> nat option" where
  "digit_value = map_of digit_table"

fun literal_base :: "string \<Rightarrow> nat \<times> string" where
  "literal_base (d # x # cs) =
     (if d = CHR ''0'' \<and> x \<in> set ''xX'' then (16, cs)
      else if d = CHR ''0'' \<and> x \<in> set ''oO'' then (8, cs)
      else if d = CHR ''0'' \<and> x \<in> set ''bB'' then (2, cs) else (10, d # x # cs))"
| "literal_base cs = (10, cs)"

definition literal_parts :: "string \<Rightarrow> int \<times> nat \<times> string" where
  "literal_parts s = (if s \<noteq> [] \<and> hd s = CHR ''-'' then (-1, literal_base (tl s)) else (1, literal_base s))"

definition literal_number :: "nat \<Rightarrow> string \<Rightarrow> nat option" where
  "literal_number base body =
     (let ds = map digit_value (filter (\<lambda>c. c \<noteq> CHR ''_'') body)
      in if body \<noteq> [] \<and> hd body \<noteq> CHR ''_'' \<and> list_all (\<lambda>d. d \<noteq> None \<and> the d < base) ds
         then Some (\<Sum>i<length ds. the (ds ! i) * base ^ (length ds - Suc i)) else None)"

definition lit_fits :: "nat \<Rightarrow> nat \<Rightarrow> int \<Rightarrow> nat \<Rightarrow> bool" where
  "lit_fits nbits base sign v \<longleftrightarrow>
     (if base = 10 then if sign \<ge> 0 then v < 2 ^ (nbits - 1) else v \<le> 2 ^ (nbits - 1) else v < 2 ^ nbits)"

definition int_literal :: "string \<Rightarrow> nat \<Rightarrow> int option" where
  "int_literal s nbits =
     (let (sign, base, body) = literal_parts s
      in case literal_number base body of None \<Rightarrow> None
         | Some v \<Rightarrow> if lit_fits nbits base sign v then Some (sign * int v) else None)"

text \<open>The same reading as the loop of the parser sees it, on the characters it accepts.\<close>

definition lit_char :: "nat \<Rightarrow> char \<Rightarrow> bool" where
  "lit_char base c \<longleftrightarrow> c = CHR ''_'' \<or> 0 \<le> parse_digit c \<and> parse_digit c < int base"

definition lit_step :: "nat \<Rightarrow> nat \<Rightarrow> char \<Rightarrow> nat" where
  "lit_step base a c = (if c = CHR ''_'' then a else a * base + nat (parse_digit c))"

definition lit_scan :: "string \<Rightarrow> nat \<Rightarrow> int option" where
  "lit_scan s nbits =
     (let (p, base, sign) = parse_sign_and_base s; body = drop p s; v = foldl (lit_step base) 0 body
      in if body \<noteq> [] \<and> hd body \<noteq> CHR ''_'' \<and> list_all (lit_char base) body \<and> lit_fits nbits base sign v
         then Some (sign * int v) else None)"

section \<open>The parser reads exactly the literals\<close>

lemma lit_underscore [simp]: "lit_char base CHR ''_''" "lit_step base a CHR ''_'' = a"
  by (simp_all add: lit_char_def lit_step_def)

lemma lit_step_mono: "1 \<le> base \<Longrightarrow> a \<le> foldl (lit_step base) a cs"
proof (induction cs arbitrary: a)
  case (Cons c cs)
  have "a \<le> lit_step base a c" using Cons.prems by (auto simp: lit_step_def intro: trans_le_add1)
  then show ?case using Cons.IH [OF Cons.prems, of "lit_step base a c"] by simp
qed simp

lemma threshold_exceeded:
  assumes "2 \<le> base" and "base \<le> 16"
  shows "(-1) div of_nat base < (res :: u64) \<longleftrightarrow> BASE \<le> unat res * base"
proof -
  have b: "unat (of_nat base :: u64) = base" using assms(2) by (simp add: unsigned_of_nat take_bit_nat_eq_self)
  have "unat (-1 :: u64) = BASE - 1" by (simp add: BASE_def unsigned_minus_1_eq_mask mask_eq_exp_minus_1)
  then have "unat ((-1) div of_nat base :: u64) = (BASE - 1) div base" using b by (simp add: unat_div_distrib)
  then have "(-1) div of_nat base < res \<longleftrightarrow> (BASE - 1) div base < unat res" by (simp add: word_less_nat_alt)
  also have "\<dots> \<longleftrightarrow> BASE - 1 < unat res * base" using assms(1) by (simp add: div_less_iff_less_mult)
  also have "\<dots> \<longleftrightarrow> BASE \<le> unat res * base" using BASE_pos by linarith
  finally show ?thesis .
qed

lemma parse_digit_step:
  assumes "base \<le> 16" and "0 \<le> d" and "d < int base" and "unat res * base < BASE"
  shows "of_nat base * res + word_of_int d < (word_of_int d :: u64) \<longleftrightarrow> BASE \<le> unat res * base + nat d"
    and "unat res * base + nat d < BASE \<Longrightarrow>
      unat (of_nat base * res + word_of_int d :: u64) = unat res * base + nat d"
proof -
  have b: "unat (of_nat base :: u64) = base" using assms(1) by (simp add: unsigned_of_nat take_bit_nat_eq_self)
  have "nat d < BASE" using assms by (simp add: BASE_def)
  have w: "(word_of_int d :: u64) = of_nat (nat d)" using assms(2) by simp
  have d: "unat (word_of_int d :: u64) = nat d"
    unfolding w using \<open>nat d < BASE\<close> by (simp only: unsigned_of_nat) (simp add: take_bit_nat_eq_self BASE_def)
  have m: "unat (of_nat base * res) = unat res * base"
    using assms(4) b by (subst unat_mult_exact) (simp_all add: mult.commute)
  show "of_nat base * res + word_of_int d < (word_of_int d :: u64) \<longleftrightarrow> BASE \<le> unat res * base + nat d"
    using carry_out_iff [of "word_of_int d" "of_nat base * res"] by (simp add: add.commute d m)
  show "unat (of_nat base * res + word_of_int d :: u64) = unat res * base + nat d"
    if "unat res * base + nat d < BASE" using that by (subst unat_add_exact) (simp_all add: d m)
qed

text \<open>One round of the loop in unbounded arithmetic.\<close>

lemma parse_digits_digit:
  assumes "2 \<le> base" and "base \<le> 16" and "threshold = (-1) div of_nat base"
    and "char_at s p \<noteq> CHR ''_''" and "d = parse_digit (char_at s p)" and "0 \<le> d" and "d < int base"
  shows "parse_digits s base threshold p res =
    (if unat res * base + nat d < BASE
     then parse_digits s base threshold (p + 1) (of_nat (unat res * base + nat d)) else None)"
proof -
  note th = threshold_exceeded [OF assms(1,2), of res]
  let ?res' = "of_nat base * res + word_of_int d :: u64"
  have unf: "parse_digits s base threshold p res =
      (if threshold < res then None else if ?res' < word_of_int d then None
       else parse_digits s base threshold (p + 1) ?res')"
    using assms(4-7) by (subst parse_digits.simps) (simp add: Let_def)
  show ?thesis
  proof (cases "unat res * base + nat d < BASE")
    case True
    then have small: "unat res * base < BASE" by linarith
    note ds = parse_digit_step [OF assms(2,6,7) small]
    have "of_nat (unat ?res') = ?res'" by simp
    then have "?res' = of_nat (unat res * base + nat d)" unfolding ds(2) [OF True] by (rule sym)
    moreover have "\<not> threshold < res" "\<not> ?res' < word_of_int d" using True th small ds(1) assms(3) by simp_all
    ultimately show ?thesis unfolding unf using True by (simp only: if_not_P if_P if_False)
  next
    case False
    then show ?thesis
      unfolding unf using th parse_digit_step(1) [OF assms(2,6,7), of res] assms(3) by auto
  qed
qed

lemma parse_digits_spec:
  assumes "2 \<le> base" and "base \<le> 16" and "threshold = (-1) div of_nat base" and "p \<le> length s"
  shows "parse_digits s base threshold p res =
    (let cs = takeWhile (lit_char base) (drop p s); v = foldl (lit_step base) (unat res) cs
     in if v < BASE then Some (p + length cs, of_nat v) else None)"
  using assms(4)
proof (induction "length s - p" arbitrary: p res)
  case 0
  then show ?case using unat_lt_BASE [of res] by (subst parse_digits.simps) (simp add: Let_def)
next
  case (Suc n)
  define c where "c = s ! p"
  define d where "d = parse_digit c"
  have len: "p < length s" using Suc.hyps(2) by linarith
  have c: "char_at s p = c" and drop: "drop p s = c # drop (p + 1) s"
    using len by (simp_all add: char_at_def c_def Cons_nth_drop_Suc)
  have IH: "parse_digits s base threshold (p + 1) r =
      (let cs = takeWhile (lit_char base) (drop (p + 1) s); v = foldl (lit_step base) (unat r) cs
       in if v < BASE then Some (p + 1 + length cs, of_nat v) else None)" for r
    using Suc.hyps(2) len by (intro Suc.hyps(1)) auto
  consider "c = CHR ''_''" | "\<not> lit_char base c" | "c \<noteq> CHR ''_''" "0 \<le> d" "d < int base"
    by (auto simp: lit_char_def d_def)
  then show ?case
  proof cases
    case 1
    then have "parse_digits s base threshold p res = parse_digits s base threshold (p + 1) res"
      by (subst parse_digits.simps) (simp add: c)
    then show ?thesis using 1 IH by (simp add: drop Let_def)
  next
    case 2
    then have "parse_digits s base threshold p res = Some (p, res)"
      by (subst parse_digits.simps) (auto simp: c lit_char_def Let_def)
    then show ?thesis using 2 unat_lt_BASE [of res] by (simp add: drop Let_def)
  next
    case 3
    let ?v = "unat res * base + nat d"
    have lit: "lit_char base c" "lit_step base (unat res) c = ?v" using 3 by (simp_all add: lit_char_def lit_step_def d_def)
    have run: "parse_digits s base threshold p res =
        (if ?v < BASE then parse_digits s base threshold (p + 1) (of_nat ?v) else None)"
      using 3 c d_def by (intro parse_digits_digit [OF assms(1-3)]) auto
    have u: "unat (of_nat ?v :: u64) = ?v" if "?v < BASE"
      using that by (simp only: unsigned_of_nat) (simp add: take_bit_nat_eq_self BASE_def)
    have "?v \<le> foldl (lit_step base) ?v (takeWhile (lit_char base) (drop (p + 1) s))"
      using assms(1) by (intro lit_step_mono) simp
    then show ?thesis unfolding run IH using lit u by (auto simp: drop Let_def)
  qed
qed

lemma parse_sign_and_base_cases:
  assumes "parse_sign_and_base s = (p, base, sign)"
  shows "2 \<le> base" and "base \<le> 16" and "p \<le> length s" and "sign = 1 \<or> sign = -1"
proof -
  define q :: nat where "q = (if char_at s 0 = CHR ''-'' then 1 else 0)"
  have in_range: "i < length s" if "char_at s i \<noteq> CHR 0x00" for i
    using that by (cases "i < length s") auto
  have q: "q \<le> length s" using in_range [of 0] by (auto simp: q_def Suc_le_eq)
  have e: "parse_sign_and_base s = (let sign = (if char_at s 0 = CHR ''-'' then -1 else 1); c = char_at s (q + 1) in
      if char_at s q = CHR ''0'' then
         if c = CHR ''x'' \<or> c = CHR ''X'' then (q + 2, 16, sign)
         else if c = CHR ''o'' \<or> c = CHR ''O'' then (q + 2, 8, sign)
         else if c = CHR ''b'' \<or> c = CHR ''B'' then (q + 2, 2, sign) else (q, 10, sign)
      else (q, 10, sign))"
    by (simp add: parse_sign_and_base_def q_def Let_def)
  show "2 \<le> base" and "base \<le> 16" and "sign = 1 \<or> sign = -1"
    using assms unfolding e Let_def by (auto split: if_splits)
  have "p = q \<or> p = q + 2 \<and> char_at s (q + 1) \<noteq> CHR 0x00"
    using assms unfolding e Let_def by (auto split: if_splits)
  then show "p \<le> length s" using q in_range [of "q + 1"] by auto
qed

lemma lit_fits_word:
  assumes "v < BASE" and "0 < nbits" and "nbits \<le> 64"
  shows "\<not> (base = 10 \<and> sign \<ge> 0 \<and> (of_nat v :: u64) \<ge> push_bit (nbits - 1) 1)
      \<and> \<not> (base = 10 \<and> sign < 0 \<and> (of_nat v :: u64) > push_bit (nbits - 1) 1)
      \<and> \<not> (base \<noteq> 10 \<and> nbits < 64 \<and> (of_nat v :: u64) \<ge> push_bit nbits 1)
    \<longleftrightarrow> lit_fits nbits base sign v"
proof -
  have v: "unat (of_nat v :: u64) = v"
    using assms(1) by (simp only: unsigned_of_nat) (simp add: take_bit_nat_eq_self BASE_def)
  have p: "unat (push_bit k 1 :: u64) = 2 ^ k" if "k < 64" for k
  proof -
    have "(2 :: nat) ^ k < 2 ^ 64" using that by (rule power_strict_increasing) simp
    then show ?thesis by (simp only: unat_push_bit_u64 unat_1 mult_1 mod_less)
  qed
  have p1: "unat (push_bit (nbits - 1) 1 :: u64) = 2 ^ (nbits - 1)" using assms(2,3) by (intro p) simp
  have p2: "nbits < 64 \<and> (of_nat v :: u64) \<ge> push_bit nbits 1 \<longleftrightarrow> \<not> v < 2 ^ nbits"
  proof (cases "nbits < 64")
    case True
    then show ?thesis by (simp only: word_le_nat_alt p v not_less simp_thms)
  next
    case False
    then have "nbits = 64" using assms(3) by simp
    then show ?thesis using assms(1) by (simp add: BASE_def)
  qed
  show ?thesis
    unfolding p2 unfolding lit_fits_def word_le_nat_alt word_less_nat_alt p1 v by auto
qed

lemma lit_fits_BASE:
  assumes "nbits \<le> 64" and "lit_fits nbits base sign v"
  shows "v < BASE"
proof -
  have "(2 :: nat) ^ nbits \<le> BASE" unfolding BASE_def using assms(1) by (rule power_increasing) simp
  moreover have "(2 :: nat) ^ (nbits - 1) \<le> 2 ^ 63" using assms(1) by (intro power_increasing) auto
  ultimately show ?thesis
    using assms(2) by (auto simp: lit_fits_def BASE_twice split: if_splits)
qed

text \<open>The digits after the first one, up to the end of the string or the first other character.\<close>

lemma parse_intnat_body:
  assumes "2 \<le> base" and "base \<le> 16" and "p < length s" and "d = parse_digit (s ! p)" and "0 \<le> d" and "d < int base"
  defines "cs \<equiv> drop (p + 1) s"
  defines "v \<equiv> foldl (lit_step base) (nat d) (takeWhile (lit_char base) cs)"
  shows "parse_digits s base ((-1) div of_nat base) (p + 1) (word_of_int d) =
    (if v < BASE then Some (p + 1 + length (takeWhile (lit_char base) cs), of_nat v) else None)"
    and "p + 1 + length (takeWhile (lit_char base) cs) = length s \<longleftrightarrow> list_all (lit_char base) cs"
proof -
  have "(word_of_int d :: u64) = of_nat (nat d)" using assms(5) by simp
  then have "unat (word_of_int d :: u64) = nat d"
    using assms(2,5,6) by (simp only: unsigned_of_nat) (simp add: take_bit_nat_eq_self)
  then show "parse_digits s base ((-1) div of_nat base) (p + 1) (word_of_int d) =
    (if v < BASE then Some (p + 1 + length (takeWhile (lit_char base) cs), of_nat v) else None)"
    using parse_digits_spec [OF assms(1,2) refl, of "p + 1" s "word_of_int d"] assms(3)
    by (simp add: v_def cs_def Let_def)
  have "length (takeWhile (lit_char base) cs) = length cs \<longleftrightarrow> list_all (lit_char base) cs"
    by (induction cs) auto
  then show "p + 1 + length (takeWhile (lit_char base) cs) = length s \<longleftrightarrow> list_all (lit_char base) cs"
    using assms(3) by (auto simp: cs_def)
qed

lemma parse_intnat_spec:
  assumes "0 < nbits" and "nbits \<le> 64"
  shows "parse_intnat s nbits =
    (case lit_scan s nbits of Some k \<Rightarrow> Inr (word_of_int k) | None \<Rightarrow> Inl Failure_int_of_string)"
proof -
  obtain p base sign where ps: "parse_sign_and_base s = (p, base, sign)" by (metis surj_pair)
  note b = parse_sign_and_base_cases [OF ps]
  define d where "d = parse_digit (char_at s p)"
  show ?thesis
  proof (cases "d < 0 \<or> d \<ge> int base")
    case True
    then have "lit_scan s nbits = None"
      by (cases "drop p s") (auto simp: lit_scan_def ps Let_def lit_char_def d_def char_at_def
          nth_via_drop split: if_splits)
    then show ?thesis using True by (simp add: parse_intnat_def ps Let_def d_def)
  next
    case False
    then have p: "p < length s" by (cases "p < length s") (auto simp: d_def)
    have d: "d = parse_digit (s ! p)" "0 \<le> d" "d < int base" using False p by (auto simp: d_def char_at_def)
    note body = parse_intnat_body [OF b(1,2) p d]
    define cs where "cs = drop (p + 1) s"
    define v where "v = foldl (lit_step base) (nat d) (takeWhile (lit_char base) cs)"
    have drop: "drop p s = s ! p # cs" using p by (simp add: cs_def Cons_nth_drop_Suc)
    have ne: "s ! p \<noteq> CHR ''_''" using d by (auto simp: parse_digit_def)
    have lit: "lit_scan s nbits = (if list_all (lit_char base) cs \<and> lit_fits nbits base sign v
        then Some (sign * int v) else None)"
    proof -
      have "lit_char base (s ! p)" "lit_step base 0 (s ! p) = nat d" using d ne by (simp_all add: lit_char_def lit_step_def)
      moreover have "takeWhile (lit_char base) cs = cs" if "list_all (lit_char base) cs"
        using that by (simp add: takeWhile_eq_all_conv list_all_iff)
      ultimately show ?thesis
        using ne unfolding lit_scan_def ps Let_def case_prod_conv drop v_def
        by (cases "list_all (lit_char base) cs") (simp_all only: list.sel list.pred_inject foldl.simps list.distinct simp_thms if_False)
    qed
    have run: "parse_intnat s nbits = (if v < BASE \<and> list_all (lit_char base) cs \<and> lit_fits nbits base sign v
        then Inr (if sign < 0 then - of_nat v else of_nat v) else Inl Failure_int_of_string)"
      using lit_fits_word [OF _ assms, of v base sign] body False
      unfolding parse_intnat_def ps Let_def case_prod_conv d_def [symmetric] cs_def [symmetric] v_def [symmetric]
      by auto
    show ?thesis unfolding run lit using lit_fits_BASE [OF assms(2), of base sign v] b(4) by auto
  qed
qed

section \<open>The scanner and the reference\<close>

lemma parse_digit_value: "parse_digit c = (case digit_value c of None \<Rightarrow> -1 | Some d \<Rightarrow> int d)"
proof (cases c)
  case (Char b0 b1 b2 b3 b4 b5 b6 b7)
  show ?thesis unfolding Char
    by (cases b0; cases b1; cases b2; cases b3; cases b4; cases b5; cases b6; cases b7)
      (simp_all add: parse_digit_def digit_value_def digit_table_def upt_rec of_char_def)
qed

lemma literal_parts_sign_and_base:
  "literal_parts s = (case parse_sign_and_base s of (p, base, sign) \<Rightarrow> (sign, base, drop p s))"
  by (cases s rule: literal_base.cases; cases "tl s" rule: literal_base.cases)
     (auto simp: literal_parts_def parse_sign_and_base_def char_at_def)

lemma foldl_lit_step:
  "foldl (lit_step base) a cs = (let ds = map (\<lambda>c. nat (parse_digit c)) (filter (\<lambda>c. c \<noteq> CHR ''_'') cs)
     in a * base ^ length ds + (\<Sum>i<length ds. ds ! i * base ^ (length ds - Suc i)))"
proof (induction cs arbitrary: a)
  case (Cons c cs)
  show ?case
  proof (cases "c = CHR ''_''")
    case True
    then show ?thesis using Cons by (simp add: Let_def)
  next
    case False
    then show ?thesis using Cons.IH [of "a * base + nat (parse_digit c)"]
      by (simp add: Let_def lit_step_def sum.lessThan_Suc_shift algebra_simps del: sum.lessThan_Suc)
  qed
qed simp

lemma literal_number_body:
  "literal_number base body = (if body \<noteq> [] \<and> hd body \<noteq> CHR ''_'' \<and> list_all (lit_char base) body
     then Some (foldl (lit_step base) 0 body) else None)"
proof -
  let ?ds = "filter (\<lambda>c. c \<noteq> CHR ''_'') body"
  have chars: "list_all (\<lambda>d. d \<noteq> None \<and> the d < base) (map digit_value ?ds) \<longleftrightarrow> list_all (lit_char base) body"
    by (induction body) (auto simp: lit_char_def parse_digit_value split: option.splits)
  have "(\<Sum>i<length ?ds. the (map digit_value ?ds ! i) * base ^ (length ?ds - Suc i)) = foldl (lit_step base) 0 body"
    if "list_all (lit_char base) body"
  proof -
    have "the (digit_value c) = nat (parse_digit c)" if "c \<in> set ?ds" for c
    proof -
      have "lit_char base c" "c \<noteq> CHR ''_''" using that \<open>list_all (lit_char base) body\<close> by (simp_all add: list_all_iff)
      then show ?thesis by (cases "digit_value c") (simp_all add: lit_char_def parse_digit_value)
    qed
    then have "the (digit_value (?ds ! i)) = nat (parse_digit (?ds ! i))" if "i < length ?ds" for i
      using nth_mem [OF that] by blast
    then show ?thesis by (simp add: foldl_lit_step Let_def)
  qed
  then show ?thesis unfolding literal_number_def Let_def chars by simp
qed

lemma int_literal_scan: "int_literal s nbits = lit_scan s nbits"
  by (auto simp: int_literal_def lit_scan_def literal_parts_sign_and_base literal_number_body Let_def
    split: prod.splits)

section \<open>Guarded division\<close>

lemma minus_min: "- push_bit (LENGTH('a) - 1) 1 = (push_bit (LENGTH('a) - 1) 1 :: 'a::len word)"
proof -
  obtain n where n: "LENGTH('a) = Suc n" by (metis len_gt_0 Suc_pred')
  have "push_bit n 1 + push_bit n 1 = (2 ^ Suc n :: 'a word)" by (simp add: push_bit_eq_mult)
  also have "\<dots> = 0" unfolding n [symmetric] by (rule word_pow_0)
  finally show ?thesis unfolding n by (simp add: eq_neg_iff_add_eq_0 neg_eq_iff_add_eq_0)
qed

lemma c_div_guarded:
  assumes "b \<noteq> 0"
  shows "(if a = push_bit (LENGTH('a) - 1) 1 \<and> b = -1 then Inr a else c_div a b)
    = Inr (word_of_int (sint a sdiv sint b) :: 'a::len word)"
proof (cases "a = push_bit (LENGTH('a) - 1) 1 \<and> b = -1")
  case True
  have "sint a sdiv sint b = - sint a" using True by (simp add: signed_divide_int_def mult_sgn_abs)
  then have "word_of_int (sint a sdiv sint b) = - a" by simp
  then show ?thesis using True minus_min by simp
next
  case False
  then show ?thesis using assms unfolding c_div_def by (simp only: if_False simp_thms)
qed

lemma c_mod_guarded:
  assumes "b \<noteq> 0"
  shows "(if a = push_bit (LENGTH('a) - 1) 1 \<and> b = -1 then Inr 0 else c_mod a b)
    = Inr (word_of_int (sint a smod sint b) :: 'a::len word)"
  using assms by (auto simp: c_mod_def signed_modulo_int_def signed_divide_int_def)

lemma quotient_remainder: "word_of_int (sint a sdiv sint b) * b + word_of_int (sint a smod sint b) = (a :: 'a::len word)"
proof -
  have "word_of_int (sint a sdiv sint b * sint b + sint a smod sint b) = (word_of_int (sint a) :: 'a word)"
    by (simp only: sdiv_mult_smod_eq)
  then show ?thesis by simp
qed

section \<open>Properties\<close>

text \<open>
  C19: Parsing an integer literal agrees with its reading in unbounded
  arithmetic at every width up to 64 bits: exactly the well-formed literals
  that fit are accepted, despite the machine arithmetic of the overflow
  tests, and the result is the number denoted, the sum of the digits of the
  table weighted by their places in the base that the prefix names.
\<close>

theorem parse_intnat_correct:
  assumes "0 < nbits" and "nbits \<le> 64"
  shows "parse_intnat s nbits =
    (case int_literal s nbits of Some k \<Rightarrow> Inr (word_of_int k) | None \<Rightarrow> Inl Failure_int_of_string)"
  unfolding int_literal_scan using assms by (rule parse_intnat_spec)

theorem parse_intnat_correct_witness:
  "parse_intnat ''-0x1_f'' 63 = Inr (- 31) \<and> parse_intnat ''18446744073709551616'' 64 = Inl Failure_int_of_string"
proof -
  have "int_literal ''-0x1_f'' 63 = Some (- 31)"
    by (simp add: int_literal_scan lit_scan_def parse_sign_and_base_def char_at_def parse_digit_def lit_char_def lit_step_def
        lit_fits_def Let_def)
  moreover have "int_literal ''18446744073709551616'' 64 = None"
    by (simp add: int_literal_scan lit_scan_def parse_sign_and_base_def char_at_def parse_digit_def lit_char_def lit_step_def
        lit_fits_def Let_def)
  ultimately show ?thesis
    using parse_intnat_correct [of 63 "''-0x1_f''"] parse_intnat_correct [of 64 "''18446744073709551616''"] by simp
qed

text \<open>
  C20: Division and remainder of boxed 32-bit and native integers raise
  \<^verbatim>\<open>Division_by_zero\<close> exactly for a zero divisor, never run into the
  undefined cases of the C operators, and return the truncated quotient and
  remainder, which recombine to the dividend, modulo the width.
\<close>

theorem boxed_division:
  "(let a = Int32_val m v1; b = Int32_val m v2; q = word_of_int (sint a sdiv sint b); r = word_of_int (sint a smod sint b)
     in caml_int32_div m v1 v2 = (if b = 0 then Inl Division_by_zero else Inr q)
      \<and> caml_int32_mod m v1 v2 = (if b = 0 then Inl Division_by_zero else Inr r) \<and> q * b + r = a)
   \<and> (let a = Nativeint_val m v1; b = Nativeint_val m v2; q = word_of_int (sint a sdiv sint b); r = word_of_int (sint a smod sint b)
     in caml_nativeint_div m v1 v2 = (if b = 0 then Inl Division_by_zero else Inr q)
      \<and> caml_nativeint_mod m v1 v2 = (if b = 0 then Inl Division_by_zero else Inr r) \<and> q * b + r = a)"
  unfolding Let_def caml_int32_div_def caml_int32_mod_def caml_nativeint_div_def caml_nativeint_mod_def
  using c_div_guarded [of "Int32_val m v2" "Int32_val m v1"] c_mod_guarded [of "Int32_val m v2" "Int32_val m v1"]
    c_div_guarded [of "Nativeint_val m v2" "Nativeint_val m v1"] c_mod_guarded [of "Nativeint_val m v2" "Nativeint_val m v1"]
    quotient_remainder [of "Int32_val m v1" "Int32_val m v2"] quotient_remainder [of "Nativeint_val m v1" "Nativeint_val m v2"]
  by simp

end
