(* ===== verification/Int64.thy ===== *)
theory Int64
  imports Int64_Emul Ints
begin

text \<open>
  64-bit integers as \<^verbatim>\<open>ints.c\<close> sees them: through the macros \<^verbatim>\<open>I64_...\<close>, which
  are either the wrappers of \<^verbatim>\<open>int64_native.h\<close> or the emulation of
  \<^verbatim>\<open>int64_emul.h\<close>. The clients take the table of operations as an argument;
  the locale \<open>i64_arith\<close> is its contract, and what it gives the clients is
  proved once for both tables. The clients are the primitives on boxed
  64-bit integers (arithmetic, guarded division, shifts, comparison, hashing,
  conversion from and to 32 bits), the parser of 64-bit literals and the
  formatter of \<^verbatim>\<open>int64_format.h\<close>. The conversions from and to native integers,
  which are 32 bits wide where the emulation is used, and from and to floats
  are not modelled.
\<close>

section \<open>The interface\<close>

record 'a i64_ops =
  I64_literal :: "u32 \<Rightarrow> u32 \<Rightarrow> 'a"
  I64_split :: "'a \<Rightarrow> u32 \<times> u32"
  I64_ult :: "'a \<Rightarrow> 'a \<Rightarrow> bool"
  I64_compare :: "'a \<Rightarrow> 'a \<Rightarrow> int"
  I64_neg :: "'a \<Rightarrow> 'a"
  I64_add :: "'a \<Rightarrow> 'a \<Rightarrow> 'a"
  I64_sub :: "'a \<Rightarrow> 'a \<Rightarrow> 'a"
  I64_mul :: "'a \<Rightarrow> 'a \<Rightarrow> 'a"
  I64_is_zero :: "'a \<Rightarrow> bool"
  I64_is_negative :: "'a \<Rightarrow> bool"
  I64_is_min_int :: "'a \<Rightarrow> bool"
  I64_is_minus_one :: "'a \<Rightarrow> bool"
  I64_and :: "'a \<Rightarrow> 'a \<Rightarrow> 'a"
  I64_or :: "'a \<Rightarrow> 'a \<Rightarrow> 'a"
  I64_xor :: "'a \<Rightarrow> 'a \<Rightarrow> 'a"
  I64_lsl :: "'a \<Rightarrow> u32 \<Rightarrow> 'a"
  I64_lsr :: "'a \<Rightarrow> u32 \<Rightarrow> 'a"
  I64_asr :: "'a \<Rightarrow> u32 \<Rightarrow> 'a"
  I64_udivmod :: "'a \<Rightarrow> 'a \<Rightarrow> ('a \<times> 'a) option"
  I64_div :: "'a \<Rightarrow> 'a \<Rightarrow> 'a option"
  I64_mod :: "'a \<Rightarrow> 'a \<Rightarrow> 'a option"
  I64_of_int32 :: "u32 \<Rightarrow> 'a"
  I64_to_int32 :: "'a \<Rightarrow> u32"

text \<open>The table of the emulation.\<close>

definition emul_ops :: "int64_emul i64_ops" where
  "emul_ops = \<lparr>I64_literal = emul_literal, I64_split = emul_split, I64_ult = emul_ult,
     I64_compare = emul_compare, I64_neg = emul_neg, I64_add = emul_add, I64_sub = emul_sub,
     I64_mul = emul_mul, I64_is_zero = emul_is_zero, I64_is_negative = emul_is_negative,
     I64_is_min_int = emul_is_min_int, I64_is_minus_one = emul_is_minus_one,
     I64_and = emul_and, I64_or = emul_or, I64_xor = emul_xor,
     I64_lsl = emul_lsl, I64_lsr = emul_lsr, I64_asr = emul_asr,
     I64_udivmod = emul_udivmod, I64_div = emul_div, I64_mod = emul_mod,
     I64_of_int32 = emul_of_int32, I64_to_int32 = emul_to_int32\<rparr>"

text \<open>
  The native table. C division has no value for a zero divisor and for the
  quotient that overflows; shift counts are below 64 by contract.
\<close>

definition native_udivmod :: "u64 \<Rightarrow> u64 \<Rightarrow> (u64 \<times> u64) option" where
  "native_udivmod x y = (if y = 0 then None else Some (x div y, x mod y))"

definition native_div :: "u64 \<Rightarrow> u64 \<Rightarrow> u64 option" where
  "native_div x y = (case c_div x y of Inl _ \<Rightarrow> None | Inr q \<Rightarrow> Some q)"

definition native_mod :: "u64 \<Rightarrow> u64 \<Rightarrow> u64 option" where
  "native_mod x y = (case c_mod x y of Inl _ \<Rightarrow> None | Inr r \<Rightarrow> Some r)"

definition native_ops :: "u64 i64_ops" where
  "native_ops = \<lparr>I64_literal = (\<lambda>hi lo. push_bit 32 (ucast hi) OR ucast lo),
     I64_split = (\<lambda>x. (ucast (drop_bit 32 x), ucast x)),
     I64_ult = (<),
     I64_compare = (\<lambda>x y. of_bool (sint x > sint y) - of_bool (sint x < sint y)),
     I64_neg = uminus, I64_add = (+), I64_sub = (-), I64_mul = (*),
     I64_is_zero = (\<lambda>x. x = 0), I64_is_negative = (\<lambda>x. sint x < 0),
     I64_is_min_int = (\<lambda>x. x = push_bit 63 1), I64_is_minus_one = (\<lambda>x. x = -1),
     I64_and = (AND), I64_or = (OR), I64_xor = (XOR),
     I64_lsl = (\<lambda>x s. push_bit (unat s) x), I64_lsr = (\<lambda>x s. drop_bit (unat s) x),
     I64_asr = (\<lambda>x s. signed_drop_bit (unat s) x),
     I64_udivmod = native_udivmod, I64_div = native_div, I64_mod = native_mod,
     I64_of_int32 = scast, I64_to_int32 = ucast\<rparr>"

section \<open>The clients in \<^verbatim>\<open>ints.c\<close>\<close>

definition int64_hash :: "'a i64_ops \<Rightarrow> 'a \<Rightarrow> u64" where
  "int64_hash I x = (let (hi, lo) = I64_split I x in ucast (hi XOR lo))"

text \<open>The primitives on boxed 64-bit integers; a result is the integer put into the fresh block.\<close>

definition caml_int64_neg :: "'a i64_ops \<Rightarrow> 'a \<Rightarrow> 'a" where
  "caml_int64_neg I v = I64_neg I v"

definition caml_int64_add :: "'a i64_ops \<Rightarrow> 'a \<Rightarrow> 'a \<Rightarrow> 'a" where
  "caml_int64_add I v1 v2 = I64_add I v1 v2"

definition caml_int64_sub :: "'a i64_ops \<Rightarrow> 'a \<Rightarrow> 'a \<Rightarrow> 'a" where
  "caml_int64_sub I v1 v2 = I64_sub I v1 v2"

definition caml_int64_mul :: "'a i64_ops \<Rightarrow> 'a \<Rightarrow> 'a \<Rightarrow> 'a" where
  "caml_int64_mul I v1 v2 = I64_mul I v1 v2"

definition caml_int64_and :: "'a i64_ops \<Rightarrow> 'a \<Rightarrow> 'a \<Rightarrow> 'a" where
  "caml_int64_and I v1 v2 = I64_and I v1 v2"

definition caml_int64_or :: "'a i64_ops \<Rightarrow> 'a \<Rightarrow> 'a \<Rightarrow> 'a" where
  "caml_int64_or I v1 v2 = I64_or I v1 v2"

definition caml_int64_xor :: "'a i64_ops \<Rightarrow> 'a \<Rightarrow> 'a \<Rightarrow> 'a" where
  "caml_int64_xor I v1 v2 = I64_xor I v1 v2"

definition caml_int64_shift_left :: "'a i64_ops \<Rightarrow> 'a \<Rightarrow> mlvalue \<Rightarrow> 'a" where
  "caml_int64_shift_left I v1 v2 = I64_lsl I v1 (Int_val v2)"

definition caml_int64_shift_right :: "'a i64_ops \<Rightarrow> 'a \<Rightarrow> mlvalue \<Rightarrow> 'a" where
  "caml_int64_shift_right I v1 v2 = I64_asr I v1 (Int_val v2)"

definition caml_int64_shift_right_unsigned :: "'a i64_ops \<Rightarrow> 'a \<Rightarrow> mlvalue \<Rightarrow> 'a" where
  "caml_int64_shift_right_unsigned I v1 v2 = I64_lsr I v1 (Int_val v2)"

definition caml_int64_of_int32 :: "'a i64_ops \<Rightarrow> u32 \<Rightarrow> 'a" where
  "caml_int64_of_int32 I v = I64_of_int32 I v"

definition caml_int64_to_int32 :: "'a i64_ops \<Rightarrow> 'a \<Rightarrow> u32" where
  "caml_int64_to_int32 I v = I64_to_int32 I v"

definition int64_cmp :: "'a i64_ops \<Rightarrow> 'a \<Rightarrow> 'a \<Rightarrow> int" where
  "int64_cmp I i1 i2 = I64_compare I i1 i2"

definition caml_int64_compare :: "'a i64_ops \<Rightarrow> 'a \<Rightarrow> 'a \<Rightarrow> mlvalue" where
  "caml_int64_compare I i1 i2 = Val_int (word_of_int (I64_compare I i1 i2))"

definition caml_int64_div :: "'a i64_ops \<Rightarrow> 'a \<Rightarrow> 'a \<Rightarrow> ints_error + 'a" where
  "caml_int64_div I dividend divisor =
     (if I64_is_zero I divisor then Inl Division_by_zero
      else if I64_is_min_int I dividend \<and> I64_is_minus_one I divisor then Inr dividend
      else case I64_div I dividend divisor of None \<Rightarrow> Inl C_undefined | Some q \<Rightarrow> Inr q)"

definition caml_int64_mod :: "'a i64_ops \<Rightarrow> 'a \<Rightarrow> 'a \<Rightarrow> ints_error + 'a" where
  "caml_int64_mod I dividend divisor =
     (if I64_is_zero I divisor then Inl Division_by_zero
      else if I64_is_min_int I dividend \<and> I64_is_minus_one I divisor then Inr (I64_literal I 0 0)
      else case I64_mod I dividend divisor of None \<Rightarrow> Inl C_undefined | Some r \<Rightarrow> Inr r)"

text \<open>The digit loop of \<^verbatim>\<open>caml_int64_of_string_r\<close>.\<close>

function int64_digits :: "'a i64_ops \<Rightarrow> string \<Rightarrow> nat \<Rightarrow> 'a \<Rightarrow> nat \<Rightarrow> 'a \<Rightarrow> (nat \<times> 'a) option" where
  "int64_digits I s base threshold p res =
     (let c = char_at s p in
      if c = CHR ''_'' then int64_digits I s base threshold (p + 1) res
      else let d = parse_digit c in
           if d < 0 \<or> d \<ge> int base then Some (p, res)
           else if I64_ult I threshold res then None
           else let res' = I64_add I (I64_mul I (I64_of_int32 I (of_nat base)) res) (I64_of_int32 I (word_of_int d)) in
                if I64_ult I res' (I64_of_int32 I (word_of_int d)) then None
                else int64_digits I s base threshold (p + 1) res')"
  by pat_completeness auto
termination
proof (relation "measure (\<lambda>(I, s, _, _, p, _). length s - p)", goal_cases)
  case 1
  show ?case by simp
next
  case (2 I s base threshold p res c)
  then have "p < length s" by (cases "p < length s") auto
  then show ?case by simp
next
  case (3 I s base threshold p res c d res')
  then have "p < length s" by (cases "p < length s") auto
  then show ?case by simp
qed

declare int64_digits.simps [simp del]

definition caml_int64_of_string :: "'a i64_ops \<Rightarrow> string \<Rightarrow> ints_error + 'a" where
  "caml_int64_of_string I s =
     (let max_uint64 = I64_literal I 0xFFFFFFFF 0xFFFFFFFF;
          max_int64_pos = I64_literal I 0x7FFFFFFF 0xFFFFFFFF;
          max_int64_neg = I64_literal I 0x80000000 0x00000000;
          (p, base, sign) = parse_sign_and_base s
      in case I64_udivmod I max_uint64 (I64_of_int32 I (of_nat base)) of None \<Rightarrow> Inl C_undefined
         | Some (threshold, _) \<Rightarrow>
           (let d = parse_digit (char_at s p) in
            if d < 0 \<or> d \<ge> int base then Inl Failure_int_of_string
            else case int64_digits I s base threshold (p + 1) (I64_of_int32 I (word_of_int d)) of
              None \<Rightarrow> Inl Failure_int_of_string
            | Some (p', res) \<Rightarrow>
                if p' \<noteq> length s then Inl Failure_int_of_string
                else if base = 10 \<and> I64_ult I (if sign \<ge> 0 then max_int64_pos else max_int64_neg) res
                then Inl Failure_int_of_string
                else Inr (if sign < 0 then I64_neg I res else res)))"

section \<open>Formatting\<close>

text \<open>
  \<^verbatim>\<open>I64_format\<close> of \<^verbatim>\<open>int64_format.h\<close>: the directives collected from the format,
  the digits written backwards into a buffer of 24 characters, and the
  padding. The width is read as a number, without the limits of \<^verbatim>\<open>int\<close>.
\<close>

record format_spec =
  fmt_justify :: char
  fmt_signstyle :: char
  fmt_filler :: char
  fmt_alternate :: bool
  fmt_base :: nat
  fmt_signedconv :: bool
  fmt_width :: nat
  fmt_cvtbl :: string

definition format_start :: format_spec where
  "format_start = \<lparr>fmt_justify = CHR ''+'', fmt_signstyle = CHR ''-'', fmt_filler = CHR '' '', fmt_alternate = False,
     fmt_base = 0, fmt_signedconv = False, fmt_width = 0, fmt_cvtbl = ''0123456789abcdef''\<rparr>"

definition decimal_char :: "char \<Rightarrow> bool" where
  "decimal_char c = (c \<in> set ''0123456789'')"

definition atoi :: "string \<Rightarrow> nat" where
  "atoi s = foldl (\<lambda>a c. 10 * a + (of_char c - 48)) 0 (takeWhile decimal_char s)"

definition format_directive :: "char \<Rightarrow> format_spec \<Rightarrow> format_spec" where
  "format_directive c f =
     (if c = CHR ''-'' then f\<lparr>fmt_justify := CHR ''-''\<rparr>
      else if c = CHR ''+'' \<or> c = CHR '' '' then f\<lparr>fmt_signstyle := c\<rparr>
      else if c = CHR ''0'' then f\<lparr>fmt_filler := CHR ''0''\<rparr>
      else if c = CHR ''#'' then f\<lparr>fmt_alternate := True\<rparr>
      else if c = CHR ''d'' \<or> c = CHR ''i'' then f\<lparr>fmt_signedconv := True, fmt_base := 10\<rparr>
      else if c = CHR ''u'' then f\<lparr>fmt_base := 10\<rparr>
      else if c = CHR ''x'' then f\<lparr>fmt_base := 16\<rparr>
      else if c = CHR ''X'' then f\<lparr>fmt_base := 16, fmt_cvtbl := ''0123456789ABCDEF''\<rparr>
      else if c = CHR ''o'' then f\<lparr>fmt_base := 8\<rparr>
      else f)"

function format_parse :: "string \<Rightarrow> format_spec \<Rightarrow> format_spec" where
  "format_parse [] f = f"
| "format_parse (c # p) f =
     (if c \<noteq> CHR ''0'' \<and> decimal_char c
      then format_parse (dropWhile decimal_char p) (f\<lparr>fmt_width := atoi (c # p)\<rparr>)
      else format_parse p (format_directive c f))"
  by pat_completeness auto
termination
  by (relation "measure (\<lambda>(p, f). length p)") (auto simp: less_Suc_eq_le length_dropWhile_le)

text \<open>The digit loop; \<open>room\<close> is what is left of the buffer, and running out of it has no value.\<close>

primrec format_digits :: "nat \<Rightarrow> 'a i64_ops \<Rightarrow> string \<Rightarrow> 'a \<Rightarrow> 'a \<Rightarrow> string \<Rightarrow> string option" where
  "format_digits 0 I cvtbl wbase x r = None"
| "format_digits (Suc room) I cvtbl wbase x r =
     (case I64_udivmod I x wbase of None \<Rightarrow> None
      | Some (q, digit) \<Rightarrow>
          let r' = cvtbl ! unat (I64_to_int32 I digit) # r
          in if I64_is_zero I q then Some r' else format_digits room I cvtbl wbase q r')"

definition I64_format :: "'a i64_ops \<Rightarrow> string \<Rightarrow> 'a \<Rightarrow> string option" where
  "I64_format I fmt x =
     (let f = format_parse fmt format_start
      in if fmt_base f = 0 then Some ''''
         else let neg = (fmt_signedconv f \<and> I64_is_negative I x); x' = (if neg then I64_neg I x else x)
              in case format_digits 24 I (fmt_cvtbl f) (I64_of_int32 I (of_nat (fmt_base f))) x' [] of
                   None \<Rightarrow> None
                 | Some r \<Rightarrow>
                     let rawlen = length r + (if fmt_signedconv f \<and> (neg \<or> fmt_signstyle f \<noteq> CHR ''-'') then 1 else 0)
                           + (if fmt_alternate f \<and> fmt_base f = 8 then 1 else 0)
                           + (if fmt_alternate f \<and> fmt_base f = 16 then 2 else 0);
                         pad = fmt_width f - rawlen
                     in Some (
                         (if fmt_justify f = CHR ''+'' \<and> fmt_filler f = CHR '' '' then replicate pad CHR '' '' else [])
                       @ (if fmt_signedconv f then if neg then ''-''
                            else if fmt_signstyle f \<noteq> CHR ''-'' then [fmt_signstyle f] else [] else [])
                       @ (if fmt_alternate f \<and> fmt_base f = 8 then ''0'' else [])
                       @ (if fmt_alternate f \<and> fmt_base f = 16 then ''0x'' else [])
                       @ (if fmt_justify f = CHR ''+'' \<and> fmt_filler f = CHR ''0'' then replicate pad CHR ''0'' else [])
                       @ r
                       @ (if fmt_justify f = CHR ''-'' then replicate pad CHR '' '' else [])))"

section \<open>Lemmas on formats\<close>

text \<open>Only the three bases of the directives occur, or none.\<close>

lemma format_directive_base: "fmt_base f \<in> {0, 8, 10, 16} \<Longrightarrow> fmt_base (format_directive c f) \<in> {0, 8, 10, 16}"
  unfolding format_directive_def by simp

lemma format_parse_base: "fmt_base f \<in> {0, 8, 10, 16} \<Longrightarrow> fmt_base (format_parse p f) \<in> {0, 8, 10, 16}"
proof (induction p f rule: format_parse.induct)
  case (2 c p f)
  show ?case
  proof (cases "c \<noteq> CHR ''0'' \<and> decimal_char c")
    case True
    have "fmt_base (f\<lparr>fmt_width := atoi (c # p)\<rparr>) \<in> {0, 8, 10, 16}" using 2(3) by simp
    from 2(1) [OF True this] show ?thesis using True by (simp only: format_parse.simps if_True simp_thms)
  next
    case False
    from 2(2) [OF False format_directive_base [OF 2(3)]] show ?thesis using False by (simp only: format_parse.simps if_False)
  qed
qed simp

lemma format_base: "fmt_base (format_parse p format_start) \<in> {0, 8, 10, 16}"
  by (rule format_parse_base) (simp add: format_start_def)

lemma native_sel:
  "I64_udivmod native_ops = native_udivmod" "I64_to_int32 native_ops = ucast" "I64_of_int32 native_ops = scast"
  "I64_is_zero native_ops x \<longleftrightarrow> x = 0" "I64_is_negative native_ops x \<longleftrightarrow> sint x < 0" "I64_neg native_ops x = - x"
  by (simp_all add: native_ops_def)

section \<open>The contract\<close>

locale i64_arith =
  fixes I :: "'a i64_ops" and val :: "'a \<Rightarrow> u64"
  assumes literal_law: "val (I64_literal I hi lo) = push_bit 32 (ucast hi) OR ucast lo"
    and split_law: "I64_split I x = (ucast (drop_bit 32 (val x)), ucast (val x))"
    and ult_law: "I64_ult I x y \<longleftrightarrow> val x < val y"
    and compare_law: "I64_compare I x y = of_bool (sint (val x) > sint (val y)) - of_bool (sint (val x) < sint (val y))"
    and neg_law: "val (I64_neg I x) = - val x"
    and add_law: "val (I64_add I x y) = val x + val y"
    and sub_law: "val (I64_sub I x y) = val x - val y"
    and mul_law: "val (I64_mul I x y) = val x * val y"
    and is_zero_law: "I64_is_zero I x \<longleftrightarrow> val x = 0"
    and is_negative_law: "I64_is_negative I x \<longleftrightarrow> sint (val x) < 0"
    and is_min_int_law: "I64_is_min_int I x \<longleftrightarrow> val x = push_bit 63 1"
    and is_minus_one_law: "I64_is_minus_one I x \<longleftrightarrow> val x = -1"
    and bitwise_law: "val (I64_and I x y) = val x AND val y" "val (I64_or I x y) = val x OR val y"
      "val (I64_xor I x y) = val x XOR val y"
    and shift_law: "unat s < 64 \<Longrightarrow> val (I64_lsl I x s) = push_bit (unat s) (val x)"
      "unat s < 64 \<Longrightarrow> val (I64_lsr I x s) = drop_bit (unat s) (val x)"
      "unat s < 64 \<Longrightarrow> val (I64_asr I x s) = signed_drop_bit (unat s) (val x)"
    and udivmod_law: "val y \<noteq> 0 \<Longrightarrow>
      \<exists>q r. I64_udivmod I x y = Some (q, r) \<and> val q = val x div val y \<and> val r = val x mod val y"
    and div_law: "val y \<noteq> 0 \<Longrightarrow> \<not> (val x = push_bit 63 1 \<and> val y = -1) \<Longrightarrow>
      \<exists>q. I64_div I x y = Some q \<and> val q = word_of_int (sint (val x) sdiv sint (val y))"
    and mod_law: "val y \<noteq> 0 \<Longrightarrow> \<not> (val x = push_bit 63 1 \<and> val y = -1) \<Longrightarrow>
      \<exists>r. I64_mod I x y = Some r \<and> val r = word_of_int (sint (val x) smod sint (val y))"
    and of_int32_law: "val (I64_of_int32 I k) = scast k"
    and to_int32_law: "I64_to_int32 I x = ucast (val x)"
begin

text \<open>The guards of the callers keep the division away from its undefined cases.\<close>

lemma int64_div:
  "map_sum id val (caml_int64_div I x y) =
     (if val y = 0 then Inl Division_by_zero else Inr (word_of_int (sint (val x) sdiv sint (val y))))"
proof (cases "val y = 0 \<or> val x = push_bit 63 1 \<and> val y = -1")
  case True
  then show ?thesis
    using c_div_guarded [of "val y" "val x"]
    by (auto simp: caml_int64_div_def is_zero_law is_min_int_law is_minus_one_law)
next
  case False
  then obtain q where "I64_div I x y = Some q" "val q = word_of_int (sint (val x) sdiv sint (val y))"
    using div_law by blast
  then show ?thesis
    using False by (simp add: caml_int64_div_def is_zero_law is_min_int_law is_minus_one_law)
qed

lemma int64_mod:
  "map_sum id val (caml_int64_mod I x y) =
     (if val y = 0 then Inl Division_by_zero else Inr (word_of_int (sint (val x) smod sint (val y))))"
proof (cases "val y = 0 \<or> val x = push_bit 63 1 \<and> val y = -1")
  case True
  then show ?thesis
    using c_mod_guarded [of "val y" "val x"]
    by (auto simp: caml_int64_mod_def is_zero_law is_min_int_law is_minus_one_law literal_law)
next
  case False
  then obtain r where "I64_mod I x y = Some r" "val r = word_of_int (sint (val x) smod sint (val y))"
    using mod_law by blast
  then show ?thesis
    using False by (auto simp: caml_int64_mod_def is_zero_law is_min_int_law is_minus_one_law)
qed

text \<open>The digit loop runs in step with the one of \<^verbatim>\<open>parse_intnat_r\<close>.\<close>

lemma small_int32:
  assumes "0 \<le> k" and "k < 2 ^ 31"
  shows "(scast (word_of_int k :: u32) :: u64) = word_of_int k"
proof -
  have "sint (word_of_int k :: u32) = k"
    using assms by (simp only: sint_sbintrunc') (simp add: signed_take_bit_int_eq_self)
  then show ?thesis by (simp only: scast_eq)
qed

lemma int64_digits_val:
  assumes "base \<le> 16"
  shows "map_option (apsnd val) (int64_digits I s base threshold p res)
    = parse_digits s base (val threshold) p (val res)"
proof (induction "length s - p" arbitrary: p res rule: less_induct)
  case less
  let ?c = "char_at s p"
  let ?d = "parse_digit ?c"
  have step: "map_option (apsnd val) (int64_digits I s base threshold (p + 1) r)
      = parse_digits s base (val threshold) (p + 1) (val r)" if "p < length s" for r
    using less [of "p + 1" r] that by simp
  have base: "(scast (of_nat base :: u32) :: u64) = of_nat base"
    using small_int32 [of "int base"] assms by simp
  show ?case
  proof (cases "?c = CHR ''_'' \<or> 0 \<le> ?d \<and> ?d < int base")
    case False
    then show ?thesis by (auto simp: int64_digits.simps [of I s base _ p] parse_digits.simps [of s base _ p] Let_def)
  next
    case True
    then have p: "p < length s" by (cases "p < length s") auto
    show ?thesis
    proof (cases "?c = CHR ''_''")
      case True
      then show ?thesis using step [OF p]
        by (simp add: int64_digits.simps [of I s base _ p] parse_digits.simps [of s base _ p])
    next
      case False
      with True have d: "0 \<le> ?d" "?d < int base" by simp_all
      have dig: "(scast (word_of_int ?d :: u32) :: u64) = word_of_int ?d"
        using d assms by (intro small_int32) simp_all
      show ?thesis using step [OF p] False d
        by (simp add: int64_digits.simps [of I s base _ p] parse_digits.simps [of s base _ p] Let_def
            ult_law add_law mul_law of_int32_law base dig)
    qed
  qed
qed

lemma int64_of_string: "map_sum id val (caml_int64_of_string I s) = parse_intnat s 64"
proof -
  obtain p base sign where psb: "parse_sign_and_base s = (p, base, sign)" by (cases "parse_sign_and_base s") auto
  have b: "base \<in> {2, 8, 10, 16}" using psb by (auto simp: parse_sign_and_base_def Let_def split: if_splits)
  then have b16: "base \<le> 16" and bpos: "(of_nat base :: u64) \<noteq> 0" by auto
  have base: "(scast (of_nat base :: u32) :: u64) = of_nat base"
    using small_int32 [of "int base"] b16 by simp
  have lits: "val (I64_literal I 0xFFFFFFFF 0xFFFFFFFF) = -1"
    "val (I64_literal I 0x7FFFFFFF 0xFFFFFFFF) = 0x7FFFFFFFFFFFFFFF"
    "val (I64_literal I 0x80000000 0) = push_bit 63 1"
    by (simp_all add: literal_law)
  obtain q r where dm: "I64_udivmod I (I64_literal I 0xFFFFFFFF 0xFFFFFFFF) (I64_of_int32 I (of_nat base)) = Some (q, r)"
    and q: "val q = (-1) div of_nat base"
    using udivmod_law [of "I64_of_int32 I (of_nat base)"] bpos lits(1) by (metis of_int32_law base)
  let ?d = "parse_digit (char_at s p)"
  show ?thesis
  proof (cases "?d < 0 \<or> ?d \<ge> int base")
    case True
    then show ?thesis by (simp add: caml_int64_of_string_def parse_intnat_def psb dm)
  next
    case False
    then have dig: "(scast (word_of_int ?d :: u32) :: u64) = word_of_int ?d"
      using b16 by (intro small_int32) simp_all
    have loop: "parse_digits s base ((-1) div of_nat base) (p + 1) (word_of_int ?d)
      = map_option (apsnd val) (int64_digits I s base q (p + 1) (I64_of_int32 I (word_of_int ?d)))"
      using int64_digits_val [OF b16, of s q "p + 1" "I64_of_int32 I (word_of_int ?d)"]
      by (simp add: q of_int32_law dig)
    have top: "x \<ge> push_bit 63 1 \<longleftrightarrow> x > 0x7FFFFFFFFFFFFFFF" for x :: u64
      by (simp add: word_le_nat_alt word_less_nat_alt) linarith
    show ?thesis
    proof (cases "int64_digits I s base q (p + 1) (I64_of_int32 I (word_of_int ?d))")
      case None
      then show ?thesis using False loop by (simp add: caml_int64_of_string_def parse_intnat_def psb dm)
    next
      case (Some pr)
      obtain p' res where "pr = (p', res)" by fastforce
      then show ?thesis using False loop Some top [of "val res"]
        by (simp add: caml_int64_of_string_def parse_intnat_def psb dm ult_law neg_law lits)
    qed
  qed
qed

text \<open>The formatter works on the number alone.\<close>

lemma format_digits_val:
  assumes "val b \<noteq> 0"
  shows "format_digits room I tbl b x r = format_digits room native_ops tbl (val b) (val x) r"
proof (induction room arbitrary: x r)
  case (Suc room)
  obtain q d where "I64_udivmod I x b = Some (q, d)" "val q = val x div val b" "val d = val x mod val b"
    using udivmod_law [OF assms, of x] by blast
  then show ?case using Suc assms by (simp add: native_sel native_udivmod_def is_zero_law to_int32_law Let_def)
qed simp

lemma int64_format: "I64_format I fmt x = I64_format native_ops fmt (val x)"
proof -
  let ?b = "fmt_base (format_parse fmt format_start)"
  have dig: "format_digits 24 I tbl (I64_of_int32 I (of_nat ?b)) y r
      = format_digits 24 native_ops tbl (scast (of_nat ?b :: u32)) (val y) r" if "?b \<noteq> 0" for tbl y r
  proof -
    have "(scast (of_nat ?b :: u32) :: u64) \<noteq> 0" using that format_base [of fmt] by auto
    then show ?thesis using format_digits_val [of "I64_of_int32 I (of_nat ?b)" 24 tbl y r] by (simp add: of_int32_law)
  qed
  show ?thesis
    unfolding I64_format_def Let_def native_sel is_negative_law
    using dig by (simp add: neg_law)
qed

lemma int64_hash: "int64_hash I x = ucast (ucast (drop_bit 32 (val x)) XOR ucast (val x) :: u32)"
  by (simp add: int64_hash_def split_law)

end

text \<open>The emulation meets the contract, with the 64-bit word its halves denote as value.\<close>

lemma shift_count_id: "unat s < 64 \<Longrightarrow> s AND 63 = (s :: u32)"
proof -
  assume "unat s < 64"
  then have "take_bit 6 (unat s) = unat s" by (simp add: take_bit_nat_eq_self_iff)
  then have "take_bit 6 s = s" by (metis unsigned_take_bit_eq word_unat_eq_iff)
  moreover have "s AND 63 = take_bit 6 s" by (simp add: take_bit_eq_mask mask_eq_exp_minus_1)
  ultimately show ?thesis by simp
qed

lemma emul_literal_val: "i64_val (emul_literal hi lo) = push_bit 32 (ucast hi) OR ucast lo"
  by (simp add: emul_literal_def i64_val_def)

lemma emul_split_val: "emul_split x = (ucast (drop_bit 32 (i64_val x)), ucast (i64_val x))"
proof -
  have "i64_h x = ucast (drop_bit 32 (i64_val x))"
    by (rule bit_word_eqI) (auto simp: bit_i64_val bit_simps)
  then show ?thesis by (simp add: emul_split_def emul_to_int32_val [symmetric] emul_to_int32_def)
qed

lemma emul_ult_val: "emul_ult x y \<longleftrightarrow> i64_val x < i64_val y"
  by (simp add: emul_ult_def emul_ucompare_val less_not_sym)

lemma emul_udivmod_val:
  assumes "i64_val y \<noteq> 0"
  shows "\<exists>q r. emul_udivmod x y = Some (q, r)
     \<and> i64_val q = i64_val x div i64_val y \<and> i64_val r = i64_val x mod i64_val y"
proof -
  have "0 < unat (i64_val y)" using assms by (simp add: unat_gt_0)
  from emul_udivmod_spec [OF this, of x] show ?thesis
    by (simp only: word_unat_eq_iff unat_div unat_mod)
qed

lemmas emul_laws = emul_literal_val emul_split_val emul_ult_val emul_compare_val emul_neg_val emul_add_val emul_sub_val
  emul_mul_val emul_tests_val emul_bitwise_val emul_lsl_val emul_lsr_val emul_asr_val shift_count_id
  emul_udivmod_val emul_div_val emul_mod_val emul_of_int32_val emul_to_int32_val

interpretation emul: i64_arith emul_ops i64_val
  by unfold_locales (simp_all add: emul_ops_def emul_laws)

lemma native_division:
  assumes "y \<noteq> 0" "\<not> (x = push_bit 63 1 \<and> y = -1)"
  shows "native_div x y = Some (word_of_int (sint x sdiv sint y))"
    "native_mod x y = Some (word_of_int (sint x smod sint y))"
  using assms by (auto simp: native_div_def native_mod_def c_div_def c_mod_def)

interpretation native: i64_arith native_ops id
  by unfold_locales (use native_division in \<open>simp_all add: native_ops_def native_udivmod_def\<close>)

text \<open>The digits written are those of the number, and the buffer is long enough.\<close>

lemma format_digits_spec:
  assumes "2 \<le> unat b" and "0 < room" and "unat x < unat b ^ room" and "unat b \<le> 16"
  shows "\<exists>ds. format_digits room native_ops tbl b x r = Some (map ((!) tbl) ds @ r)
    \<and> list_all (\<lambda>d. d < unat b) ds \<and> foldl (\<lambda>a d. a * unat b + d) 0 ds = unat x"
  using assms(2,3)
proof (induction room arbitrary: x r)
  case (Suc room)
  let ?q = "x div b" and ?d = "x mod b"
  have b0: "b \<noteq> 0" using assms(1) by auto
  have d: "unat ?d < unat b" using assms(1) by (simp add: unat_mod)
  have "unat (ucast ?d :: u32) = unat ?d"
    using d assms(4) by (simp add: unsigned_ucast_eq take_bit_nat_eq_self)
  then have run: "format_digits (Suc room) native_ops tbl b x r =
      (if ?q = 0 then Some (tbl ! unat ?d # r) else format_digits room native_ops tbl b ?q (tbl ! unat ?d # r))"
    using b0 by (simp add: native_ops_def native_udivmod_def)
  have split: "unat ?q * unat b + unat ?d = unat x" by (simp add: unat_div unat_mod)
  show ?case
  proof (cases "?q = 0")
    case True
    then show ?thesis using run split d by (intro exI [of _ "[unat ?d]"]) simp
  next
    case False
    have "unat ?q < unat b ^ room" using Suc.prems assms(1) by (simp add: unat_div less_mult_imp_div_less mult.commute)
    moreover from this False have "0 < room" by (cases room) (auto simp: unat_eq_0)
    ultimately obtain ds where
      "format_digits room native_ops tbl b ?q (tbl ! unat ?d # r) = Some (map ((!) tbl) ds @ tbl ! unat ?d # r)"
      "list_all (\<lambda>d. d < unat b) ds" "foldl (\<lambda>a d. a * unat b + d) 0 ds = unat ?q"
      using Suc.IH [of ?q "tbl ! unat ?d # r"] by blast
    then show ?thesis using run split d False by (intro exI [of _ "ds @ [unat ?d]"]) simp
  qed
qed simp

lemma I64_format_native: "\<exists>out. I64_format native_ops fmt x = Some out"
proof -
  let ?b = "fmt_base (format_parse fmt format_start)"
  let ?w = "scast (of_nat ?b :: u32) :: u64"
  have "\<exists>r. format_digits 24 native_ops tbl ?w y [] = Some r" if "?b \<noteq> 0" for tbl y
  proof -
    have "unat ?w \<in> {8, 10, 16}" using format_base [of fmt] that by auto
    then have b: "2 \<le> unat ?w" "unat ?w \<le> 16" "8 \<le> unat ?w" by auto
    have "unat y < 8 ^ 24" by (rule less_le_trans [OF unat_lt_BASE]) (simp add: BASE_def)
    also have "\<dots> \<le> unat ?w ^ 24" using b(3) by (rule power_mono) simp
    finally show ?thesis using format_digits_spec [OF b(1) _ _ b(2), of 24 y tbl "[]"] by auto
  qed
  then obtain dig where "?b \<noteq> 0 \<longrightarrow> format_digits 24 native_ops tbl ?w y [] = Some (dig tbl y)" for tbl y by metis
  moreover have "I64_of_int32 native_ops k = scast k" for k by (simp add: native_ops_def)
  ultimately show ?thesis unfolding I64_format_def Let_def by simp
qed

lemmas int64_primitives = caml_int64_neg_def caml_int64_add_def caml_int64_sub_def caml_int64_mul_def caml_int64_and_def
  caml_int64_or_def caml_int64_xor_def caml_int64_shift_left_def caml_int64_shift_right_def
  caml_int64_shift_right_unsigned_def caml_int64_of_int32_def caml_int64_to_int32_def int64_cmp_def caml_int64_compare_def

lemmas emul_primitive_laws = emul.neg_law emul.add_law emul.sub_law emul.mul_law emul.bitwise_law emul.shift_law
  emul.of_int32_law emul.to_int32_law emul.compare_law

lemma emul_primitives:
  "i64_val (caml_int64_neg emul_ops x) = caml_int64_neg native_ops (i64_val x)"
    "i64_val (caml_int64_add emul_ops x y) = caml_int64_add native_ops (i64_val x) (i64_val y)"
    "i64_val (caml_int64_sub emul_ops x y) = caml_int64_sub native_ops (i64_val x) (i64_val y)"
    "i64_val (caml_int64_mul emul_ops x y) = caml_int64_mul native_ops (i64_val x) (i64_val y)"
    "i64_val (caml_int64_and emul_ops x y) = caml_int64_and native_ops (i64_val x) (i64_val y)"
    "i64_val (caml_int64_or emul_ops x y) = caml_int64_or native_ops (i64_val x) (i64_val y)"
    "i64_val (caml_int64_xor emul_ops x y) = caml_int64_xor native_ops (i64_val x) (i64_val y)"
    "i64_val (caml_int64_of_int32 emul_ops k) = caml_int64_of_int32 native_ops k"
    "caml_int64_to_int32 emul_ops x = caml_int64_to_int32 native_ops (i64_val x)"
    "int64_cmp emul_ops x y = int64_cmp native_ops (i64_val x) (i64_val y)"
    "caml_int64_compare emul_ops x y = caml_int64_compare native_ops (i64_val x) (i64_val y)"
  by (simp_all add: int64_primitives emul_primitive_laws) (simp_all add: native_ops_def)

lemma emul_shifts:
  "unat (Int_val n) < 64 \<longrightarrow>
        i64_val (caml_int64_shift_left emul_ops x n) = caml_int64_shift_left native_ops (i64_val x) n
      \<and> i64_val (caml_int64_shift_right emul_ops x n) = caml_int64_shift_right native_ops (i64_val x) n
      \<and> i64_val (caml_int64_shift_right_unsigned emul_ops x n) = caml_int64_shift_right_unsigned native_ops (i64_val x) n"
  by (simp add: int64_primitives emul_primitive_laws) (simp add: native_ops_def)

lemma emul_clients:
  "map_sum id i64_val (caml_int64_div emul_ops x y) = caml_int64_div native_ops (i64_val x) (i64_val y)"
    "map_sum id i64_val (caml_int64_mod emul_ops x y) = caml_int64_mod native_ops (i64_val x) (i64_val y)"
    "int64_hash emul_ops x = int64_hash native_ops (i64_val x)"
    "map_sum id i64_val (caml_int64_of_string emul_ops s) = caml_int64_of_string native_ops s"
  using emul.int64_div [of x y] emul.int64_mod [of x y] emul.int64_of_string [of s]
    native.int64_div [of "i64_val x" "i64_val y"] native.int64_mod [of "i64_val x" "i64_val y"]
    native.int64_of_string [of s] emul.int64_hash [of x] native.int64_hash [of "i64_val x"]
  by (simp_all add: sum.map_id0)

section \<open>Properties\<close>

text \<open>
  C17: On a machine without 64-bit integers the emulation with pairs of 32-bit
  words gives the primitives of \<^verbatim>\<open>ints.c\<close> the results of the native operations.
  Negation, sum, difference, product, the bitwise operations, shifts by less
  than 64, the conversions from and to 32 bits, the two comparisons and the
  hash agree on the denoted words; division and remainder agree including the
  exceptions raised and the overflowing quotient; parsing returns the
  representation of what the native parser returns on every string; and
  formatting never overruns its buffer of digits and writes the same
  characters for every format. Conversions from and to native integers and
  floats are not covered.
\<close>
theorem int64_emulation_refines_native:
  "i64_val (caml_int64_neg emul_ops x) = caml_int64_neg native_ops (i64_val x)
   \<and> i64_val (caml_int64_add emul_ops x y) = caml_int64_add native_ops (i64_val x) (i64_val y)
   \<and> i64_val (caml_int64_sub emul_ops x y) = caml_int64_sub native_ops (i64_val x) (i64_val y)
   \<and> i64_val (caml_int64_mul emul_ops x y) = caml_int64_mul native_ops (i64_val x) (i64_val y)
   \<and> map_sum id i64_val (caml_int64_div emul_ops x y) = caml_int64_div native_ops (i64_val x) (i64_val y)
   \<and> map_sum id i64_val (caml_int64_mod emul_ops x y) = caml_int64_mod native_ops (i64_val x) (i64_val y)
   \<and> i64_val (caml_int64_and emul_ops x y) = caml_int64_and native_ops (i64_val x) (i64_val y)
   \<and> i64_val (caml_int64_or emul_ops x y) = caml_int64_or native_ops (i64_val x) (i64_val y)
   \<and> i64_val (caml_int64_xor emul_ops x y) = caml_int64_xor native_ops (i64_val x) (i64_val y)
   \<and> (unat (Int_val n) < 64 \<longrightarrow>
        i64_val (caml_int64_shift_left emul_ops x n) = caml_int64_shift_left native_ops (i64_val x) n
      \<and> i64_val (caml_int64_shift_right emul_ops x n) = caml_int64_shift_right native_ops (i64_val x) n
      \<and> i64_val (caml_int64_shift_right_unsigned emul_ops x n) = caml_int64_shift_right_unsigned native_ops (i64_val x) n)
   \<and> i64_val (caml_int64_of_int32 emul_ops k) = caml_int64_of_int32 native_ops k
   \<and> caml_int64_to_int32 emul_ops x = caml_int64_to_int32 native_ops (i64_val x)
   \<and> int64_cmp emul_ops x y = int64_cmp native_ops (i64_val x) (i64_val y)
   \<and> caml_int64_compare emul_ops x y = caml_int64_compare native_ops (i64_val x) (i64_val y)
   \<and> int64_hash emul_ops x = int64_hash native_ops (i64_val x)
   \<and> map_sum id i64_val (caml_int64_of_string emul_ops s) = caml_int64_of_string native_ops s
   \<and> (\<exists>out. I64_format emul_ops s x = Some out \<and> I64_format native_ops s (i64_val x) = Some out)"
proof -
  have fmt: "\<exists>out. I64_format emul_ops s x = Some out \<and> I64_format native_ops s (i64_val x) = Some out"
    using emul.int64_format [of s x] I64_format_native [of s "i64_val x"] by simp
  show ?thesis by (intro conjI) (fact emul_primitives emul_shifts emul_clients fmt)+
qed

theorem int64_emulation_refines_native_witness:
  "i64_val (caml_int64_shift_right emul_ops (emul_literal 0x80000000 0) (Val_int 4))
   = caml_int64_shift_right native_ops (i64_val (emul_literal 0x80000000 0)) (Val_int 4)"
proof -
  have "unat (Int_val (Val_int 4)) < 64" by (simp add: Int_val_Val_int)
  then show ?thesis using int64_emulation_refines_native [of "emul_literal 0x80000000 0" _ "Val_int 4"] by blast
qed

text \<open>
  C18: The shift-and-subtract division of the emulation always returns for a
  non-zero divisor, with the unsigned quotient and remainder; with the
  four-part product it rebuilds the dividend.
\<close>
theorem emul_udivmod_correct:
  assumes "i64_val y \<noteq> 0"
  shows "\<exists>q r. emul_udivmod x y = Some (q, r)
    \<and> i64_val q = i64_val x div i64_val y \<and> i64_val r = i64_val x mod i64_val y
    \<and> emul_add (emul_mul q y) r = x"
proof -
  obtain q r where qr: "emul_udivmod x y = Some (q, r)"
    "i64_val q = i64_val x div i64_val y" "i64_val r = i64_val x mod i64_val y"
    using emul_udivmod_val [OF assms, of x] by blast
  then have "i64_val (emul_add (emul_mul q y) r) = i64_val x"
    by (simp add: emul_add_val emul_mul_val word_mod_div_equality)
  then show ?thesis using qr by (auto simp: i64_val_inject)
qed

theorem emul_udivmod_correct_witness:
  "\<exists>q r. emul_udivmod (emul_literal 5 7) (emul_literal 0 3) = Some (q, r)
    \<and> i64_val q = i64_val (emul_literal 5 7) div i64_val (emul_literal 0 3)
    \<and> i64_val r = i64_val (emul_literal 5 7) mod i64_val (emul_literal 0 3)
    \<and> emul_add (emul_mul q (emul_literal 0 3)) r = emul_literal 5 7"
  by (rule emul_udivmod_correct) (simp add: emul_literal_def i64_val_def)

end
