(* ===== verification/Runtime.thy ===== *)
theory Runtime
  imports Mlvalues
begin

text \<open>
  The part of a runtime context that the bytecode interpreter and the C code
  it calls share: one memory for heap and stack, the bytecode, the bounds of
  the stack and of the minor heap, the remembered set. It holds the
  allocation macro of \<^verbatim>\<open>memory.h\<close>, the write barrier (\<^verbatim>\<open>Modify\<close>,
  \<^verbatim>\<open>caml_initialize_r\<close>) and the raising of predefined exceptions
  (\<^verbatim>\<open>fail.c\<close>). The collector, the page table, \<^verbatim>\<open>malloc\<close>, the debugger and the
  C primitives are the functions of the record \<open>runtime\<close>, which the
  definitions take as an argument.

  Code words are 32 bits wide and indexed by byte address divided by 4; a
  code pointer stored in a value is four times the index.
\<close>

section \<open>The context\<close>

record ctxt =
  mem :: memory
  code :: "nat \<Rightarrow> u32"
  caml_stack_low :: ptr
  caml_stack_high :: ptr
  caml_stack_threshold :: ptr
  caml_extern_sp :: ptr
  caml_trapsp :: ptr
  caml_trap_barrier :: ptr
  caml_max_stack_size :: nat
  caml_young_ptr :: ptr
  caml_young_start :: ptr
  caml_young_end :: ptr
  caml_ref_table :: "ptr list"
  caml_gc_phase :: nat
  caml_global_data :: mlvalue
  caml_atom_table :: ptr
  caml_something_to_do :: bool
  caml_backtrace_active :: bool
  caml_event_count :: u64
  caml_callback_depth :: int
  caml_saved_code :: "nat \<Rightarrow> u8"
  caml_start_code :: nat

text \<open>A C call returns, or leaves by \<^verbatim>\<open>siglongjmp\<close> with an exception bucket.\<close>

datatype 'a outcome = Ret 'a ctxt | Exn mlvalue ctxt

datatype debugger_event = EVENT_COUNT | BREAKPOINT | TRAP_BARRIER

text \<open>
  The collector receives the values of the C local roots and returns them as
  updated; primitives are selected by number, by whether they take the
  context, and get their arguments as a list.
\<close>

record runtime =
  caml_minor_collection :: "mlvalue list \<Rightarrow> ctxt \<Rightarrow> mlvalue list \<times> ctxt"
  caml_alloc_shr :: "u64 \<Rightarrow> u32 \<Rightarrow> ctxt \<Rightarrow> mlvalue outcome"
  caml_darken :: "mlvalue \<Rightarrow> ctxt \<Rightarrow> ctxt"
  Is_in_heap :: "ctxt \<Rightarrow> ptr \<Rightarrow> bool"
  caml_stat_alloc :: "nat \<Rightarrow> ctxt \<Rightarrow> ptr outcome"
  caml_process_event :: "ctxt \<Rightarrow> unit outcome"
  caml_debugger :: "debugger_event \<Rightarrow> ctxt \<Rightarrow> ctxt"
  caml_stash_backtrace :: "mlvalue \<Rightarrow> nat \<Rightarrow> ptr \<Rightarrow> ctxt \<Rightarrow> ctxt"
  Primitive :: "u32 \<Rightarrow> bool \<Rightarrow> mlvalue list \<Rightarrow> ctxt \<Rightarrow> mlvalue outcome"

section \<open>Pointers as values\<close>

definition val_of_ptr :: "ptr \<Rightarrow> mlvalue" where
  "val_of_ptr p = of_nat (8 * p)"

definition val_of_code :: "nat \<Rightarrow> mlvalue" where
  "val_of_code p = of_nat (4 * p)"

definition code_of_val :: "mlvalue \<Rightarrow> nat" where
  "code_of_val v = unat v div 4"

text \<open>Pointer arithmetic with a signed offset.\<close>

definition ptr_off :: "nat \<Rightarrow> int \<Rightarrow> nat" where
  "ptr_off p i = nat (int p + i)"

definition Val_hp :: "ptr \<Rightarrow> mlvalue" where
  "Val_hp hp = val_of_ptr (hp + 1)"

definition Code_val :: "memory \<Rightarrow> mlvalue \<Rightarrow> nat" where
  "Code_val m v = code_of_val (Field m v 0)"

definition Atom :: "'a ctxt_scheme \<Rightarrow> int \<Rightarrow> mlvalue" where
  "Atom c tag = Val_hp (ptr_off (caml_atom_table c) tag)"

definition Is_young :: "'a ctxt_scheme \<Rightarrow> mlvalue \<Rightarrow> bool" where
  "Is_young c v \<longleftrightarrow> unat v < 8 * caml_young_end c \<and> unat v > 8 * caml_young_start c"

abbreviation (input) "Phase_mark \<equiv> (0 :: nat)"
abbreviation (input) "Phase_sweep \<equiv> (1 :: nat)"
abbreviation (input) "Phase_idle \<equiv> (2 :: nat)"
abbreviation (input) "Max_young_wosize \<equiv> (256 :: nat)"
abbreviation (input) "Stack_size_words \<equiv> (4096 :: nat)"
abbreviation (input) "Stack_threshold_words \<equiv> (256 :: nat)"

section \<open>The write barrier\<close>

definition Modify :: "runtime \<Rightarrow> ptr \<Rightarrow> mlvalue \<Rightarrow> ctxt \<Rightarrow> ctxt" where
  "Modify rt fp v c =
     (let old = mem c fp;
          c1 = c\<lparr>mem := (mem c)(fp := v)\<rparr>
      in if Is_in_heap rt c1 fp then
           let c2 = (if caml_gc_phase c1 = Phase_mark then caml_darken rt old c1 else c1)
           in if Is_block v \<and> Is_young c2 v \<and> \<not> (Is_block old \<and> Is_young c2 old)
              then c2\<lparr>caml_ref_table := caml_ref_table c2 @ [fp]\<rparr> else c2
         else c1)"

definition caml_modify :: "runtime \<Rightarrow> ptr \<Rightarrow> mlvalue \<Rightarrow> ctxt \<Rightarrow> ctxt" where
  "caml_modify rt fp v c = Modify rt fp v c"

definition caml_initialize :: "runtime \<Rightarrow> ptr \<Rightarrow> mlvalue \<Rightarrow> ctxt \<Rightarrow> ctxt" where
  "caml_initialize rt fp v c =
     (let c1 = c\<lparr>mem := (mem c)(fp := v)\<rparr>
      in if Is_block v \<and> Is_young c1 v \<and> Is_in_heap rt c1 fp
         then c1\<lparr>caml_ref_table := caml_ref_table c1 @ [fp]\<rparr> else c1)"

section \<open>Small allocations\<close>

text \<open>
  The allocation pointer moves down by the block and its header; when it
  would leave the minor heap, a minor collection runs first. The first
  definition is the macro's common tail, on the pointer already lowered.
\<close>

definition young_block :: "nat \<Rightarrow> u32 \<Rightarrow> 'a ctxt_scheme \<Rightarrow> mlvalue \<times> 'a ctxt_scheme" where
  "young_block wosize tag c =
     (let p = caml_young_ptr c - (wosize + 1)
      in (Val_hp p, c\<lparr>caml_young_ptr := p,
            mem := (mem c)(p := Make_header (of_nat wosize) tag Caml_black)\<rparr>))"

text \<open>\<^verbatim>\<open>caml_alloc_small_r\<close>, for callers whose values are the local roots.\<close>

definition caml_alloc_small :: "runtime \<Rightarrow> nat \<Rightarrow> u32 \<Rightarrow> mlvalue list \<Rightarrow> ctxt
    \<Rightarrow> mlvalue \<times> mlvalue list \<times> ctxt" where
  "caml_alloc_small rt wosize tag roots c =
     (let (roots', c1) = (if caml_young_ptr c < caml_young_start c + (wosize + 1)
                          then caml_minor_collection rt roots c else (roots, c));
          (b, c2) = young_block wosize tag c1
      in (b, roots', c2))"

section \<open>Raising exceptions from C\<close>

abbreviation (input) "OUT_OF_MEMORY_EXN \<equiv> (0 :: nat)"
abbreviation (input) "ZERO_DIVIDE_EXN \<equiv> (5 :: nat)"
abbreviation (input) "STACK_OVERFLOW_EXN \<equiv> (8 :: nat)"

definition caml_raise_constant :: "runtime \<Rightarrow> mlvalue \<Rightarrow> ctxt \<Rightarrow> 'a outcome" where
  "caml_raise_constant rt tag c =
     (let (bucket, roots, c') = caml_alloc_small rt 1 0 [tag] c
      in Exn bucket (c'\<lparr>mem := (mem c')(Op_val bucket := List.hd roots)\<rparr>))"

definition caml_raise_zero_divide :: "runtime \<Rightarrow> ctxt \<Rightarrow> 'a outcome" where
  "caml_raise_zero_divide rt c = caml_raise_constant rt (Field (mem c) (caml_global_data c) ZERO_DIVIDE_EXN) c"

definition caml_raise_stack_overflow :: "runtime \<Rightarrow> ctxt \<Rightarrow> 'a outcome" where
  "caml_raise_stack_overflow rt c = caml_raise_constant rt (Field (mem c) (caml_global_data c) STACK_OVERFLOW_EXN) c"

section \<open>A concrete context and runtime\<close>

text \<open>
  Used to evaluate the model on concrete inputs: a context with a given
  memory and everything else zero, and a runtime whose collector does
  nothing, whose \<^verbatim>\<open>malloc\<close> always returns the same address and whose
  primitives return their first argument.
\<close>

definition blank_ctxt :: "memory \<Rightarrow> ctxt" where
  "blank_ctxt m = \<lparr>mem = m, code = (\<lambda>_. 0), caml_stack_low = 0, caml_stack_high = 0,
     caml_stack_threshold = 0, caml_extern_sp = 0, caml_trapsp = 0, caml_trap_barrier = 0,
     caml_max_stack_size = 0, caml_young_ptr = 0, caml_young_start = 0, caml_young_end = 0,
     caml_ref_table = [], caml_gc_phase = Phase_idle, caml_global_data = 0, caml_atom_table = 0,
     caml_something_to_do = False, caml_backtrace_active = False, caml_event_count = 0,
     caml_callback_depth = 0, caml_saved_code = (\<lambda>_. 0), caml_start_code = 0\<rparr>"

definition blank_runtime :: "ptr \<Rightarrow> runtime" where
  "blank_runtime p = \<lparr>caml_minor_collection = (\<lambda>roots c. (roots, c)), caml_alloc_shr = (\<lambda>_ _. Ret 0),
     caml_darken = (\<lambda>_ c. c), Is_in_heap = (\<lambda>_ _. False), caml_stat_alloc = (\<lambda>_. Ret p),
     caml_process_event = Ret (), caml_debugger = (\<lambda>_ c. c), caml_stash_backtrace = (\<lambda>_ _ _ c. c),
     Primitive = (\<lambda>_ _ vs. Ret (List.hd vs))\<rparr>"

section \<open>Lemmas on pointers\<close>

lemma ptr_off_nat [simp]: "ptr_off p (int n) = p + n"
  by (simp add: ptr_off_def nat_add_distrib)

lemma ptr_off_0 [simp]: "ptr_off p 0 = p"
  by (simp add: ptr_off_def)

lemma ptr_off_numeral [simp]: "ptr_off p (numeral k) = p + numeral k" "ptr_off p 1 = p + 1"
  by (simp_all add: ptr_off_def nat_add_distrib)

lemma Op_val_of_ptr [simp]: "8 * p < 2 ^ 64 \<Longrightarrow> Op_val (val_of_ptr p) = p"
  unfolding Op_val_def val_of_ptr_def by (subst unat_of_nat_small) simp_all

lemma code_of_val_of_code [simp]: "4 * p < 2 ^ 64 \<Longrightarrow> code_of_val (val_of_code p) = p"
  unfolding code_of_val_def val_of_code_def by (subst unat_of_nat_small) simp_all

end
