(* ===== verification/Stacks.thy ===== *)
theory Stacks
  imports Runtime
begin

text \<open>
  The bytecode stack of \<^verbatim>\<open>stacks.c\<close>: creation, growth by doubling with
  relocation of the chain of trap frames, and the limits. The stack grows
  downward in the memory of the context, from \<^verbatim>\<open>caml_stack_high\<close> to
  \<^verbatim>\<open>caml_stack_low\<close>; \<^verbatim>\<open>caml_trapsp\<close> points to the topmost trap frame, whose
  second word links to the next one. Growing keeps every word at its distance
  from the top of the stack and the trap frames linked in the same order.
\<close>

section \<open>Operations\<close>

definition Trap_link :: "memory \<Rightarrow> ptr \<Rightarrow> ptr" where
  "Trap_link m tp = Op_val (m (tp + 1))"

definition caml_init_stack :: "runtime \<Rightarrow> nat \<Rightarrow> ctxt \<Rightarrow> unit outcome" where
  "caml_init_stack rt initial_max_size c =
     (case caml_stat_alloc rt (8 * Stack_size_words) c of
        Exn v c' \<Rightarrow> Exn v c'
      | Ret low c' \<Rightarrow>
          Ret () (c'\<lparr>caml_stack_low := low, caml_stack_high := low + Stack_size_words,
            caml_stack_threshold := low + Stack_threshold_words,
            caml_extern_sp := low + Stack_size_words, caml_trapsp := low + Stack_size_words,
            caml_trap_barrier := low + Stack_size_words + 1, caml_max_stack_size := initial_max_size\<rparr>))"

text \<open>The doubling loop; \<open>Inl\<close> is the exit by stack overflow.\<close>

partial_function (option) stack_double :: "nat \<Rightarrow> nat \<Rightarrow> nat \<Rightarrow> (unit + nat) option" where
  "stack_double max_size needed sz =
     (if sz \<ge> max_size then Some (Inl ())
      else if sz * 2 < needed then stack_double max_size needed (sz * 2)
      else Some (Inr (sz * 2)))"

text \<open>\<^verbatim>\<open>shift(ptr)\<close>: the same distance from the new top of the stack.\<close>

definition shift :: "ptr \<Rightarrow> ptr \<Rightarrow> ptr \<Rightarrow> ptr" where
  "shift high new_high p = new_high + p - high"

definition memmove :: "memory \<Rightarrow> ptr \<Rightarrow> ptr \<Rightarrow> nat \<Rightarrow> memory" where
  "memmove m dst src n = (\<lambda>p. if dst \<le> p \<and> p < dst + n then m (src + (p - dst)) else m p)"

partial_function (option) relocate_traps :: "ptr \<Rightarrow> ptr \<Rightarrow> ptr \<Rightarrow> memory \<Rightarrow> memory option" where
  "relocate_traps high new_high p m =
     (if p < new_high then
        let q = shift high new_high (Trap_link m p)
        in relocate_traps high new_high q (m(p + 1 := val_of_ptr q))
      else Some m)"

definition caml_realloc_stack :: "runtime \<Rightarrow> nat \<Rightarrow> ctxt \<Rightarrow> unit outcome option" where
  "caml_realloc_stack rt required_space c =
     (let high = caml_stack_high c; used = high - caml_extern_sp c
      in case stack_double (caml_max_stack_size c) (used + required_space) (high - caml_stack_low c) of
           None \<Rightarrow> None
         | Some (Inl _) \<Rightarrow> Some (caml_raise_stack_overflow rt c)
         | Some (Inr sz) \<Rightarrow>
             (case caml_stat_alloc rt (8 * sz) c of
                Exn v c' \<Rightarrow> Some (Exn v c')
              | Ret new_low c1 \<Rightarrow>
                  let new_high = new_low + sz;
                      new_sp = shift high new_high (caml_extern_sp c1);
                      m = memmove (mem c1) new_sp (caml_extern_sp c1) used;
                      trapsp = shift high new_high (caml_trapsp c1)
                  in case relocate_traps high new_high trapsp m of
                       None \<Rightarrow> None
                     | Some m' \<Rightarrow>
                         Some (Ret () (c1\<lparr>mem := m', caml_trapsp := trapsp,
                           caml_trap_barrier := shift high new_high (caml_trap_barrier c1),
                           caml_stack_low := new_low, caml_stack_high := new_high,
                           caml_stack_threshold := new_low + Stack_threshold_words,
                           caml_extern_sp := new_sp\<rparr>))))"

definition caml_ensure_stack_capacity :: "runtime \<Rightarrow> mlvalue \<Rightarrow> ctxt \<Rightarrow> mlvalue outcome option" where
  "caml_ensure_stack_capacity rt required_space c =
     (let req = unat (Long_val required_space)
      in if int (caml_extern_sp c) - int req < int (caml_stack_low c)
         then (case caml_realloc_stack rt req c of
                 None \<Rightarrow> None
               | Some (Exn v c') \<Rightarrow> Some (Exn v c')
               | Some (Ret _ c') \<Rightarrow> Some (Ret Val_unit c'))
         else Some (Ret Val_unit c))"

definition caml_change_max_stack_size :: "nat \<Rightarrow> ctxt \<Rightarrow> ctxt" where
  "caml_change_max_stack_size new_max_size c =
     (let sz = caml_stack_high c - caml_extern_sp c + Stack_threshold_words;
          new_max = (if new_max_size < sz then sz else new_max_size)
      in c\<lparr>caml_max_stack_size := new_max\<rparr>)"

definition caml_stack_usage :: "(unit \<Rightarrow> nat) option \<Rightarrow> ctxt \<Rightarrow> nat" where
  "caml_stack_usage hook c =
     (let sz = caml_stack_high c - caml_extern_sp c
      in case hook of None \<Rightarrow> sz | Some f \<Rightarrow> sz + f ())"

section \<open>Growth\<close>

lemma stack_double_spec:
  assumes "0 < sz"
  shows "\<exists>r. stack_double max_size needed sz = Some r
    \<and> (\<forall>n. r = Inr n \<longrightarrow> needed \<le> n \<and> 2 * sz \<le> n \<and> n < 2 * max_size \<and> (n = 2 * sz \<or> n < 2 * needed))
    \<and> (r = Inl () \<longrightarrow> max_size \<le> sz \<or> max_size < needed)"
  using assms
proof (induction "max_size - sz" arbitrary: sz rule: less_induct)
  case less
  show ?case
  proof (cases "max_size \<le> sz \<or> needed \<le> sz * 2")
    case True
    then show ?thesis by (subst stack_double.simps) auto
  next
    case False
    then have "\<exists>r. stack_double max_size needed (sz * 2) = Some r
      \<and> (\<forall>n. r = Inr n \<longrightarrow> needed \<le> n \<and> 2 * (sz * 2) \<le> n \<and> n < 2 * max_size \<and> (n = 2 * (sz * 2) \<or> n < 2 * needed))
      \<and> (r = Inl () \<longrightarrow> max_size \<le> sz * 2 \<or> max_size < needed)"
      using less.prems by (intro less.hyps) (auto intro: diff_less_mono2)
    then show ?thesis using False by (subst stack_double.simps) auto
  qed
qed

text \<open>
  The trap frames reachable from \<open>p\<close>, in order of increasing address, each
  four words below the top or below the next one.
\<close>

primrec trap_chain :: "memory \<Rightarrow> ptr \<Rightarrow> ptr \<Rightarrow> ptr list \<Rightarrow> bool" where
  "trap_chain m high p [] \<longleftrightarrow> p = high"
| "trap_chain m high p (t # ts) \<longleftrightarrow> p = t \<and> t + 4 \<le> Trap_link m t \<and> trap_chain m high (Trap_link m t) ts"

lemma trap_chain_bounds:
  "trap_chain m high p ts \<Longrightarrow> p \<le> high \<and> (\<forall>t \<in> set ts. p \<le> t \<and> t + 4 \<le> high)"
proof (induction ts arbitrary: p)
  case (Cons t ts)
  then show ?case by (fastforce dest: Cons.IH)
qed simp

lemma trap_chain_cong:
  assumes "trap_chain m high p ts" and "\<And>t. t \<in> set ts \<Longrightarrow> m' (t + 1) = m (t + 1)"
  shows "trap_chain m' high p ts"
  using assms by (induction ts arbitrary: p) (auto simp: Trap_link_def)

text \<open>
  Relocation, on the moved copy: the frames are linked by the old addresses
  and become linked by the new ones; nothing but the link words changes.
\<close>

lemma relocate_traps_spec:
  assumes "trap_chain m0 high p ts" and "8 * new_high < 2 ^ 64" and "high \<le> new_high + p"
    and "\<And>t. t \<in> set ts \<Longrightarrow> m (shift high new_high t + 1) = m0 (t + 1)"
  shows "\<exists>m'. relocate_traps high new_high (shift high new_high p) m = Some m'
    \<and> trap_chain m' new_high (shift high new_high p) (map (shift high new_high) ts)
    \<and> (\<forall>q. q \<notin> (\<lambda>t. shift high new_high t + 1) ` set ts \<longrightarrow> m' q = m q)"
  using assms
proof (induction ts arbitrary: p m)
  case Nil
  then show ?case by (subst relocate_traps.simps) (simp add: shift_def)
next
  case (Cons t ts)
  let ?sh = "shift high new_high"
  define q where "q = Trap_link m0 t"
  have t: "p = t" "t + 4 \<le> q" "trap_chain m0 high q ts" using Cons.prems(1) by (simp_all add: q_def)
  then have b: "q \<le> high" "\<forall>u \<in> set ts. q \<le> u \<and> u + 4 \<le> high" using trap_chain_bounds by blast+
  have link: "Trap_link m (?sh t) = q" using Cons.prems(4) [of t] by (simp add: Trap_link_def q_def)
  have lt: "?sh t < new_high" and hq: "high \<le> new_high + q" using b t Cons.prems(3) by (auto simp: shift_def)
  have small: "8 * ?sh q < 2 ^ 64" using Cons.prems(2) b hq by (simp add: shift_def)
  let ?m = "m(?sh t + 1 := val_of_ptr (?sh q))"
  have keep: "?m (?sh u + 1) = m0 (u + 1)" if "u \<in> set ts" for u
    using that b t Cons.prems(3,4) by (auto simp: shift_def)
  obtain m' where m': "relocate_traps high new_high (?sh q) ?m = Some m'"
    "trap_chain m' new_high (?sh q) (map ?sh ts)"
    "\<forall>r. r \<notin> (\<lambda>t. ?sh t + 1) ` set ts \<longrightarrow> m' r = ?m r"
    using Cons.IH [OF t(3) Cons.prems(2) hq keep] by blast
  have "?sh t + 1 \<notin> (\<lambda>t. ?sh t + 1) ` set ts"
    using b t Cons.prems(3) by (auto simp: shift_def)
  then have "m' (?sh t + 1) = val_of_ptr (?sh q)" using m'(3) by simp
  then have "Trap_link m' (?sh t) = ?sh q" using small by (simp add: Trap_link_def)
  moreover have "?sh t + 4 \<le> ?sh q" using t b Cons.prems(3) by (simp add: shift_def)
  moreover have "relocate_traps high new_high (?sh p) m = Some m'"
    using lt link m'(1) t(1) by (subst relocate_traps.simps) simp
  ultimately show ?case using m' t(1) by auto
qed

text \<open>What a grown stack owes its client, relative to the tops of both stacks.\<close>

definition stack_moved :: "nat \<Rightarrow> ptr list \<Rightarrow> ctxt \<Rightarrow> ctxt \<Rightarrow> bool" where
  "stack_moved n ts c c' \<longleftrightarrow>
     (let sh = shift (caml_stack_high c) (caml_stack_high c') in
      caml_extern_sp c' = sh (caml_extern_sp c) \<and> caml_stack_low c' + n \<le> caml_extern_sp c'
      \<and> 2 * (caml_stack_high c - caml_stack_low c) \<le> caml_stack_high c' - caml_stack_low c'
      \<and> caml_stack_high c' - caml_stack_low c' < 2 * caml_max_stack_size c
      \<and> (caml_stack_high c' - caml_stack_low c' = 2 * (caml_stack_high c - caml_stack_low c)
          \<or> caml_stack_high c' - caml_stack_low c' < 2 * (caml_stack_high c - caml_extern_sp c + n))
      \<and> caml_stack_threshold c' = caml_stack_low c' + Stack_threshold_words
      \<and> caml_trapsp c' = sh (caml_trapsp c) \<and> caml_trap_barrier c' = sh (caml_trap_barrier c)
      \<and> trap_chain (mem c') (caml_stack_high c') (caml_trapsp c') (map sh ts)
      \<and> (\<forall>q. caml_extern_sp c \<le> q \<and> q < caml_stack_high c \<and> (\<forall>t \<in> set ts. q \<noteq> t + 1)
           \<longrightarrow> mem c' (sh q) = mem c q)
      \<and> (\<forall>q. q < caml_stack_low c' \<or> caml_stack_high c' \<le> q \<longrightarrow> mem c' q = mem c q)
      \<and> c' = c\<lparr>mem := mem c', caml_trapsp := caml_trapsp c', caml_trap_barrier := caml_trap_barrier c',
          caml_stack_low := caml_stack_low c', caml_stack_high := caml_stack_high c',
          caml_stack_threshold := caml_stack_threshold c', caml_extern_sp := caml_extern_sp c'\<rparr>)"

text \<open>
  Why growing fails: the limit on the stack size is reached or below what is
  needed, or the allocation of a stack of the doubled size fails.
\<close>

definition stack_not_grown :: "runtime \<Rightarrow> nat \<Rightarrow> ctxt \<Rightarrow> unit outcome \<Rightarrow> bool" where
  "stack_not_grown rt n c r \<longleftrightarrow>
     (let used = caml_stack_high c - caml_extern_sp c; size = caml_stack_high c - caml_stack_low c in
      r = caml_raise_stack_overflow rt c \<and> (caml_max_stack_size c \<le> size \<or> caml_max_stack_size c < used + n)
      \<or> (\<exists>sz v c'. used + n \<le> sz \<and> 2 * size \<le> sz \<and> sz < 2 * caml_max_stack_size c
           \<and> (sz = 2 * size \<or> sz < 2 * (used + n)) \<and> caml_stat_alloc rt (8 * sz) c = Exn v c' \<and> r = Exn v c'))"

text \<open>Copying the words in use to a new stack of \<open>k\<close> words at \<open>low\<close> and relocating the trap frames.\<close>

lemma realloc_stack_moved:
  fixes c :: ctxt and low k n :: nat
  defines "nh \<equiv> low + k" and "h \<equiv> caml_stack_high c" and "used \<equiv> caml_stack_high c - caml_extern_sp c"
  assumes bounds: "caml_stack_low c \<le> caml_extern_sp c" "caml_stack_low c < caml_stack_high c"
      "caml_extern_sp c \<le> caml_trapsp c"
    and chain: "trap_chain (mem c) (caml_stack_high c) (caml_trapsp c) ts"
    and small: "8 * nh < 2 ^ 64"
    and size: "used + n \<le> k" "2 * (h - caml_stack_low c) \<le> k" "k < 2 * caml_max_stack_size c"
      "k = 2 * (h - caml_stack_low c) \<or> k < 2 * (used + n)"
  shows "\<exists>m'. relocate_traps h nh (shift h nh (caml_trapsp c))
      (memmove (mem c) (shift h nh (caml_extern_sp c)) (caml_extern_sp c) used) = Some m'
    \<and> stack_moved n ts c (c\<lparr>mem := m', caml_trapsp := shift h nh (caml_trapsp c),
        caml_trap_barrier := shift h nh (caml_trap_barrier c), caml_stack_low := low, caml_stack_high := nh,
        caml_stack_threshold := low + Stack_threshold_words, caml_extern_sp := shift h nh (caml_extern_sp c)\<rparr>)"
proof -
  let ?h = "caml_stack_high c" and ?sp = "caml_extern_sp c"
  let ?used = "?h - ?sp"
  have k: "?used + n \<le> k" "2 * (?h - caml_stack_low c) \<le> k" "k < 2 * caml_max_stack_size c"
    and tight: "k = 2 * (?h - caml_stack_low c) \<or> k < 2 * (?used + n)"
    using size by (simp_all add: used_def h_def)
  let ?nh = "low + k"
  let ?sh = "shift ?h ?nh"
  let ?m = "memmove (mem c) (?sh ?sp) ?sp ?used"
  have le: "?sp \<le> ?h" "caml_trapsp c \<le> ?h" using trap_chain_bounds [OF chain] bounds by simp_all
  have sh: "?sh q = low + (k - (?h - q))" if "?sp \<le> q" "q \<le> ?h" for q
    unfolding shift_def using that k by linarith
  have copy: "?m (?sh q) = mem c q" if "?sp \<le> q" "q < ?h" for q
    using that k by (auto simp: memmove_def shift_def)
  have inside: "?sp \<le> t + 1" "t + 1 < ?h" if "t \<in> set ts" for t
    using that trap_chain_bounds [OF chain] bounds by fastforce+
  have shS: "?sh t + 1 = ?sh (t + 1)" if "t \<in> set ts" for t
    using that trap_chain_bounds [OF chain] bounds k by (auto simp: shift_def)
  obtain m' where m': "relocate_traps ?h ?nh (?sh (caml_trapsp c)) ?m = Some m'"
    "trap_chain m' ?nh (?sh (caml_trapsp c)) (map ?sh ts)"
    "\<forall>q. q \<notin> (\<lambda>t. ?sh t + 1) ` set ts \<longrightarrow> m' q = ?m q"
  proof -
    have "?h \<le> ?nh + caml_trapsp c" using k bounds by simp
    moreover have "?m (?sh t + 1) = mem c (t + 1)" if "t \<in> set ts" for t
      using copy [OF inside [OF that]] shS [OF that] by simp
    ultimately show ?thesis
      using relocate_traps_spec [OF chain small [unfolded nh_def], of ?m] that by blast
  qed
  have keep: "m' (?sh q) = mem c q" if q: "?sp \<le> q" "q < ?h" "\<forall>t \<in> set ts. q \<noteq> t + 1" for q
  proof -
    have "?sh q \<noteq> ?sh t + 1" if "t \<in> set ts" for t
      using that q shS [OF that] inside [OF that] k by (auto simp: shift_def)
    then have "?sh q \<notin> (\<lambda>t. ?sh t + 1) ` set ts" by blast
    then show ?thesis using m'(3) copy [OF q(1,2)] by metis
  qed
  have frame: "m' q = mem c q" if q: "q < low \<or> ?nh \<le> q" for q
  proof -
    have "q \<noteq> ?sh t + 1" if "t \<in> set ts" for t
      using q shS [OF that] sh [OF inside(1) [OF that]] inside [OF that] k by auto
    then have "m' q = ?m q" using m'(3) by blast
    then show ?thesis using q sh [of ?sp] le k by (auto simp: memmove_def)
  qed
  show ?thesis
    using m' keep frame sh [of ?sp] le k tight
    by (simp add: stack_moved_def Let_def nh_def h_def used_def)
qed

lemma caml_realloc_stack_spec:
  assumes bounds: "caml_stack_low c \<le> caml_extern_sp c" "caml_stack_low c < caml_stack_high c"
      "caml_extern_sp c \<le> caml_trapsp c"
    and chain: "trap_chain (mem c) (caml_stack_high c) (caml_trapsp c) ts"
    and alloc: "\<And>sz p c1. caml_stat_alloc rt (8 * sz) c = Ret p c1 \<Longrightarrow> c1 = c \<and> 8 * (p + sz) < 2 ^ 64
      \<and> (p + sz \<le> caml_stack_low c \<or> caml_stack_high c \<le> p)"
  shows "\<exists>r. caml_realloc_stack rt n c = Some r \<and>
    (case r of Ret _ c' \<Rightarrow> stack_moved n ts c c' | Exn _ _ \<Rightarrow> stack_not_grown rt n c r)"
proof -
  let ?h = "caml_stack_high c" and ?sp = "caml_extern_sp c"
  let ?used = "?h - ?sp"
  obtain r where r: "stack_double (caml_max_stack_size c) (?used + n) (?h - caml_stack_low c) = Some r"
    "\<And>k. r = Inr k \<Longrightarrow> ?used + n \<le> k \<and> 2 * (?h - caml_stack_low c) \<le> k \<and> k < 2 * caml_max_stack_size c
      \<and> (k = 2 * (?h - caml_stack_low c) \<or> k < 2 * (?used + n))"
    "r = Inl () \<Longrightarrow> caml_max_stack_size c \<le> ?h - caml_stack_low c \<or> caml_max_stack_size c < ?used + n"
    using stack_double_spec [of "?h - caml_stack_low c" "caml_max_stack_size c" "?used + n"] bounds by auto
  show ?thesis
  proof (cases r)
    case (Inl u)
    then show ?thesis using r
      by (auto simp: caml_realloc_stack_def Let_def stack_not_grown_def caml_raise_stack_overflow_def caml_raise_constant_def
          split: prod.splits)
  next
    case (Inr k)
    note k = r(2) [OF Inr]
    show ?thesis
    proof (cases "caml_stat_alloc rt (8 * k) c")
      case (Exn v c')
      then show ?thesis using r(1) Inr k by (auto simp: caml_realloc_stack_def Let_def stack_not_grown_def)
    next
      case (Ret low c1)
      note a = alloc [OF Ret]
      then show ?thesis using r(1) Inr Ret realloc_stack_moved [OF bounds chain, of low k n] k
        by (auto simp: caml_realloc_stack_def Let_def split: option.split)
    qed
  qed
qed
section \<open>Properties\<close>

text \<open>
  C26: Growing the stack always terminates. Either \<^verbatim>\<open>Stack_overflow\<close> is
  raised, and then the limit is reached or is below what is needed; or the
  allocation of a stack of the doubled size fails and its exception is
  passed on; or the new stack, at least twice as large, has the required
  space below its stack pointer, the stack pointer, the trap pointer and the
  trap barrier are at the same distance from the top, the threshold is that
  of the new stack, every word that is not a trap link is at the same
  distance from the top, the trap frames form the same chain, at the same
  distances, with relocated links, and the rest of the context is unchanged.
  An allocation that succeeds returns memory apart from the old stack.
\<close>
theorem realloc_stack_correct:
  assumes "caml_stack_low c \<le> caml_extern_sp c" and "caml_stack_low c < caml_stack_high c"
    and "caml_extern_sp c \<le> caml_trapsp c"
    and "trap_chain (mem c) (caml_stack_high c) (caml_trapsp c) ts"
    and "\<And>sz p c1. caml_stat_alloc rt (8 * sz) c = Ret p c1 \<Longrightarrow> c1 = c \<and> 8 * (p + sz) < 2 ^ 64
      \<and> (p + sz \<le> caml_stack_low c \<or> caml_stack_high c \<le> p)"
  shows "\<exists>r. caml_realloc_stack rt n c = Some r \<and>
    (case r of Ret _ c' \<Rightarrow> stack_moved n ts c c' | Exn _ _ \<Rightarrow> stack_not_grown rt n c r)"
  using assms by (rule caml_realloc_stack_spec)

text \<open>A runtime whose \<^verbatim>\<open>malloc\<close> serves up to 800 bytes, at word 200, and a stack of four words with one trap frame.\<close>

definition small_runtime :: runtime where
  "small_runtime = (blank_runtime 0)\<lparr>caml_stat_alloc := (\<lambda>n c. if n \<le> 800 then Ret 200 c else Exn 7 c)\<rparr>"

definition small_stack :: ctxt where
  "small_stack = (blank_ctxt ((\<lambda>p. of_nat p)(101 := 832)))\<lparr>caml_stack_low := 100, caml_stack_high := 104,
     caml_extern_sp := 100, caml_trapsp := 100, caml_trap_barrier := 105, caml_max_stack_size := 1000\<rparr>"

theorem realloc_stack_correct_witness:
  "(\<exists>c'. caml_realloc_stack small_runtime 2 small_stack = Some (Ret () c') \<and> stack_moved 2 [100] small_stack c')
   \<and> (\<exists>r. caml_realloc_stack small_runtime 2000 small_stack = Some r \<and> stack_not_grown small_runtime 2000 small_stack r)"
proof -
  have main: "\<exists>r. caml_realloc_stack small_runtime n small_stack = Some r
    \<and> (case r of Ret _ c' \<Rightarrow> stack_moved n [100] small_stack c' | Exn _ _ \<Rightarrow> stack_not_grown small_runtime n small_stack r)" for n
    by (rule realloc_stack_correct)
      (auto simp: small_runtime_def small_stack_def blank_ctxt_def Trap_link_def Op_val_def split: if_splits)
  have "\<not> stack_not_grown small_runtime 2 small_stack r" for r
    by (auto simp: stack_not_grown_def Let_def small_runtime_def small_stack_def)
  moreover have "\<not> stack_moved 2000 [100] small_stack c'" for c'
    by (auto simp: stack_moved_def Let_def small_stack_def shift_def)
  moreover have "(case r of Ret _ c' \<Rightarrow> P c' | Exn _ _ \<Rightarrow> Q r) \<Longrightarrow> (\<exists>c'. r = Ret () c' \<and> P c') \<or> Q r"
    for r :: "unit outcome" and P Q by (cases r) auto
  ultimately show ?thesis using main [of 2] main [of 2000] by blast
qed

end
