(* ===== verification/Interp.thy ===== *)
theory Interp
  imports Stacks Ints
begin

text \<open>
  The bytecode interpreter of \<^verbatim>\<open>interp.c\<close> (switch dispatch, no
  \<^verbatim>\<open>THREADED_CODE\<close>, no \<^verbatim>\<open>DEBUG\<close>): the registers of the abstract machine beside
  the context, the macros that save and restore them around the collector, C
  calls, signal handlers and the debugger, and one branch per instruction, in
  the order of the switch. \<open>step\<close> executes the instruction at \<^verbatim>\<open>pc\<close>;
  \<open>caml_interprete\<close> is the whole loop, undefined (\<open>None\<close>) exactly
  when it runs forever. The saving and restoring of \<^verbatim>\<open>caml_external_raise\<close> and
  of the local roots is left out: a C function that leaves by \<^verbatim>\<open>siglongjmp\<close>
  is an \<open>Exn\<close> outcome handled by the interpreter that called it.

  Signed arithmetic wraps around. A shift by 64 or more, which C leaves
  undefined, shifts everything out.
\<close>

section \<open>Registers\<close>

record machine = ctxt +
  pc :: nat
  sp :: ptr
  accu :: mlvalue
  env :: mlvalue
  extra_args :: u64
  saved_pc :: nat
  initial_sp_offset :: nat

text \<open>
  What one round of the loop does: go on with the next instruction, execute a
  given opcode at the same place (after a breakpoint), return from the
  interpreter, or stop on an unknown opcode.
\<close>

datatype result = Next machine | Dispatch u32 machine | Return mlvalue ctxt | Fatal_error u32

definition ctxt_of :: "machine \<Rightarrow> ctxt" where
  "ctxt_of s = ctxt.truncate s"

definition with_ctxt :: "machine \<Rightarrow> ctxt \<Rightarrow> machine" where
  "with_ctxt s c = ctxt.extend c (ctxt.more s)"

abbreviation stk :: "machine \<Rightarrow> nat \<Rightarrow> mlvalue" where
  "stk s i \<equiv> mem s (sp s + i)"

abbreviation operand :: "machine \<Rightarrow> nat \<Rightarrow> int" where
  "operand s i \<equiv> sint (code s (pc s + i))"

abbreviation skip :: "nat \<Rightarrow> machine \<Rightarrow> machine" where
  "skip n s \<equiv> s\<lparr>pc := pc s + n\<rparr>"

abbreviation set_accu :: "mlvalue \<Rightarrow> machine \<Rightarrow> machine" where
  "set_accu v s \<equiv> s\<lparr>accu := v\<rparr>"

abbreviation drop_stk :: "nat \<Rightarrow> machine \<Rightarrow> machine" where
  "drop_stk n s \<equiv> s\<lparr>sp := sp s + n\<rparr>"

definition push :: "mlvalue \<Rightarrow> machine \<Rightarrow> machine" where
  "push v s = s\<lparr>sp := sp s - 1, mem := (mem s)(sp s - 1 := v)\<rparr>"

definition FieldZ :: "memory \<Rightarrow> mlvalue \<Rightarrow> int \<Rightarrow> mlvalue" where
  "FieldZ m v i = m (ptr_off (Op_val v) i)"

text \<open>\<open>for (i = 0; i < n; i++) dst[i] = src[i]\<close> and its downward form.\<close>

primrec copy_up :: "nat \<Rightarrow> ptr \<Rightarrow> ptr \<Rightarrow> memory \<Rightarrow> memory" where
  "copy_up 0 dst src m = m"
| "copy_up (Suc n) dst src m = (let m' = copy_up n dst src m in m'(dst + n := m' (src + n)))"

primrec copy_down :: "nat \<Rightarrow> ptr \<Rightarrow> ptr \<Rightarrow> memory \<Rightarrow> memory" where
  "copy_down 0 dst src m = m"
| "copy_down (Suc n) dst src m = copy_down n dst src (m(dst + n := m (src + n)))"

section \<open>Saving and restoring registers\<close>

definition Setup_for_gc :: "machine \<Rightarrow> machine" where
  "Setup_for_gc s =
     (let p = sp s - 2
      in s\<lparr>sp := p, mem := (mem s)(p := accu s, p + 1 := env s), caml_extern_sp := p\<rparr>)"

definition Restore_after_gc :: "machine \<Rightarrow> machine" where
  "Restore_after_gc s = s\<lparr>accu := stk s 0, env := stk s 1, sp := sp s + 2\<rparr>"

definition Setup_for_c_call :: "machine \<Rightarrow> machine" where
  "Setup_for_c_call s =
     (let s' = push (env s) s in s'\<lparr>saved_pc := pc s, caml_extern_sp := sp s'\<rparr>)"

definition Restore_after_c_call :: "machine \<Rightarrow> machine" where
  "Restore_after_c_call s =
     s\<lparr>env := mem s (caml_extern_sp s), sp := caml_extern_sp s + 1, saved_pc := 0\<rparr>"

definition Setup_for_event :: "machine \<Rightarrow> machine" where
  "Setup_for_event s =
     (let p = sp s - 6
      in s\<lparr>sp := p, mem := (mem s)(p := accu s, p + 1 := Val_unit, p + 2 := Val_unit,
             p + 3 := val_of_code (pc s), p + 4 := env s, p + 5 := Val_long (extra_args s)),
           caml_extern_sp := p\<rparr>)"

definition Restore_after_event :: "machine \<Rightarrow> machine" where
  "Restore_after_event s =
     (let p = caml_extern_sp s
      in s\<lparr>accu := mem s p, pc := code_of_val (mem s (p + 3)), env := mem s (p + 4),
           extra_args := Long_val (mem s (p + 5)), sp := p + 6\<rparr>)"

definition Setup_for_debugger :: "machine \<Rightarrow> machine" where
  "Setup_for_debugger s =
     (let p = sp s - 4
      in s\<lparr>sp := p, mem := (mem s)(p := accu s, p + 1 := val_of_code (pc s - 1), p + 2 := env s,
             p + 3 := Val_long (extra_args s)), caml_extern_sp := p\<rparr>)"

definition Restore_after_debugger :: "machine \<Rightarrow> machine" where
  "Restore_after_debugger s = drop_stk 4 s"

text \<open>\<^verbatim>\<open>Alloc_small\<close> with the interpreter's saving of registers around the collector.\<close>

definition Alloc_small :: "runtime \<Rightarrow> nat \<Rightarrow> u32 \<Rightarrow> machine \<Rightarrow> mlvalue \<times> machine" where
  "Alloc_small rt wosize tag s =
     young_block wosize tag
       (if caml_young_ptr s < caml_young_start s + (wosize + 1)
        then let s1 = Setup_for_gc s
             in Restore_after_gc (with_ctxt s1 (snd (caml_minor_collection rt [] (ctxt_of s1))))
        else s)"

section \<open>Exceptions, stack checks and signals\<close>

definition Make_exception_result :: "mlvalue \<Rightarrow> mlvalue" where
  "Make_exception_result v = v OR 2"

definition Is_exception_result :: "mlvalue \<Rightarrow> bool" where
  "Is_exception_result v \<longleftrightarrow> v AND 3 = 2"

definition Extract_exception :: "mlvalue \<Rightarrow> mlvalue" where
  "Extract_exception v = v AND NOT 3"

definition Trap_pc :: "memory \<Rightarrow> ptr \<Rightarrow> nat" where
  "Trap_pc m tp = code_of_val (m tp)"

definition raise_exception :: "runtime \<Rightarrow> machine \<Rightarrow> result" where
  "raise_exception rt s =
     (let s1 = (if caml_trapsp s \<ge> caml_trap_barrier s
                then with_ctxt s (caml_debugger rt TRAP_BARRIER (ctxt_of s)) else s);
          s2 = (if caml_backtrace_active s1
                then with_ctxt s1 (caml_stash_backtrace rt (accu s1) (pc s1) (sp s1) (ctxt_of s1)) else s1);
          base = caml_stack_high s2 - initial_sp_offset s2
      in if caml_trapsp s2 \<ge> base
         then Return (Make_exception_result (accu s2))
                ((ctxt_of s2)\<lparr>caml_extern_sp := base, caml_callback_depth := caml_callback_depth s2 - 1\<rparr>)
         else let tp = caml_trapsp s2
              in Next (s2\<lparr>pc := Trap_pc (mem s2) tp, caml_trapsp := Trap_link (mem s2) tp,
                   env := mem s2 (tp + 2), extra_args := Long_val (mem s2 (tp + 3)), sp := tp + 4\<rparr>))"

text \<open>The branch of \<^verbatim>\<open>sigsetjmp\<close>, for a C function that raised the bucket \<open>v\<close>.\<close>

definition longjmp_handler :: "runtime \<Rightarrow> machine \<Rightarrow> mlvalue \<Rightarrow> ctxt \<Rightarrow> result" where
  "longjmp_handler rt s v c =
     (let s' = with_ctxt s c
      in raise_exception rt (s'\<lparr>sp := caml_extern_sp s', accu := v,
           pc := (if saved_pc s' \<noteq> 0 then saved_pc s' + 2 else 0), saved_pc := 0\<rparr>))"

definition process_signal :: "runtime \<Rightarrow> machine \<Rightarrow> result" where
  "process_signal rt s =
     (let s1 = Setup_for_event (s\<lparr>caml_something_to_do := False\<rparr>)
      in case caml_process_event rt (ctxt_of s1) of
           Exn v c \<Rightarrow> longjmp_handler rt s1 v c
         | Ret _ c \<Rightarrow> Next (Restore_after_event (with_ctxt s1 c)))"

definition check_signals :: "runtime \<Rightarrow> machine \<Rightarrow> result" where
  "check_signals rt s = (if caml_something_to_do s then process_signal rt s else Next s)"

definition check_stacks :: "runtime \<Rightarrow> machine \<Rightarrow> result option" where
  "check_stacks rt s =
     (if sp s < caml_stack_threshold s then
        let s1 = s\<lparr>caml_extern_sp := sp s\<rparr>
        in case caml_realloc_stack rt Stack_threshold_words (ctxt_of s1) of
             None \<Rightarrow> None
           | Some (Exn v c) \<Rightarrow> Some (longjmp_handler rt s1 v c)
           | Some (Ret _ c) \<Rightarrow>
               let s2 = with_ctxt s1 c in Some (check_signals rt (s2\<lparr>sp := caml_extern_sp s2\<rparr>))
      else Some (check_signals rt s))"

section \<open>Instructions\<close>

text \<open>The opcodes, as the constants of the enumeration \<^verbatim>\<open>instructions\<close>.\<close>

abbreviation (input) "ACC0 \<equiv> (0 :: u32)"
abbreviation (input) "ACC1 \<equiv> (1 :: u32)"
abbreviation (input) "ACC2 \<equiv> (2 :: u32)"
abbreviation (input) "ACC3 \<equiv> (3 :: u32)"
abbreviation (input) "ACC4 \<equiv> (4 :: u32)"
abbreviation (input) "ACC5 \<equiv> (5 :: u32)"
abbreviation (input) "ACC6 \<equiv> (6 :: u32)"
abbreviation (input) "ACC7 \<equiv> (7 :: u32)"
abbreviation (input) "ACC \<equiv> (8 :: u32)"
abbreviation (input) "PUSH \<equiv> (9 :: u32)"
abbreviation (input) "PUSHACC0 \<equiv> (10 :: u32)"
abbreviation (input) "PUSHACC1 \<equiv> (11 :: u32)"
abbreviation (input) "PUSHACC2 \<equiv> (12 :: u32)"
abbreviation (input) "PUSHACC3 \<equiv> (13 :: u32)"
abbreviation (input) "PUSHACC4 \<equiv> (14 :: u32)"
abbreviation (input) "PUSHACC5 \<equiv> (15 :: u32)"
abbreviation (input) "PUSHACC6 \<equiv> (16 :: u32)"
abbreviation (input) "PUSHACC7 \<equiv> (17 :: u32)"
abbreviation (input) "PUSHACC \<equiv> (18 :: u32)"
abbreviation (input) "POP \<equiv> (19 :: u32)"
abbreviation (input) "ASSIGN \<equiv> (20 :: u32)"
abbreviation (input) "ENVACC1 \<equiv> (21 :: u32)"
abbreviation (input) "ENVACC2 \<equiv> (22 :: u32)"
abbreviation (input) "ENVACC3 \<equiv> (23 :: u32)"
abbreviation (input) "ENVACC4 \<equiv> (24 :: u32)"
abbreviation (input) "ENVACC \<equiv> (25 :: u32)"
abbreviation (input) "PUSHENVACC1 \<equiv> (26 :: u32)"
abbreviation (input) "PUSHENVACC2 \<equiv> (27 :: u32)"
abbreviation (input) "PUSHENVACC3 \<equiv> (28 :: u32)"
abbreviation (input) "PUSHENVACC4 \<equiv> (29 :: u32)"
abbreviation (input) "PUSHENVACC \<equiv> (30 :: u32)"
abbreviation (input) "PUSH_RETADDR \<equiv> (31 :: u32)"
abbreviation (input) "APPLY \<equiv> (32 :: u32)"
abbreviation (input) "APPLY1 \<equiv> (33 :: u32)"
abbreviation (input) "APPLY2 \<equiv> (34 :: u32)"
abbreviation (input) "APPLY3 \<equiv> (35 :: u32)"
abbreviation (input) "APPTERM \<equiv> (36 :: u32)"
abbreviation (input) "APPTERM1 \<equiv> (37 :: u32)"
abbreviation (input) "APPTERM2 \<equiv> (38 :: u32)"
abbreviation (input) "APPTERM3 \<equiv> (39 :: u32)"
abbreviation (input) "RETURN \<equiv> (40 :: u32)"
abbreviation (input) "RESTART \<equiv> (41 :: u32)"
abbreviation (input) "GRAB \<equiv> (42 :: u32)"
abbreviation (input) "CLOSURE \<equiv> (43 :: u32)"
abbreviation (input) "CLOSUREREC \<equiv> (44 :: u32)"
abbreviation (input) "OFFSETCLOSUREM2 \<equiv> (45 :: u32)"
abbreviation (input) "OFFSETCLOSURE0 \<equiv> (46 :: u32)"
abbreviation (input) "OFFSETCLOSURE2 \<equiv> (47 :: u32)"
abbreviation (input) "OFFSETCLOSURE \<equiv> (48 :: u32)"
abbreviation (input) "PUSHOFFSETCLOSUREM2 \<equiv> (49 :: u32)"
abbreviation (input) "PUSHOFFSETCLOSURE0 \<equiv> (50 :: u32)"
abbreviation (input) "PUSHOFFSETCLOSURE2 \<equiv> (51 :: u32)"
abbreviation (input) "PUSHOFFSETCLOSURE \<equiv> (52 :: u32)"
abbreviation (input) "GETGLOBAL \<equiv> (53 :: u32)"
abbreviation (input) "PUSHGETGLOBAL \<equiv> (54 :: u32)"
abbreviation (input) "GETGLOBALFIELD \<equiv> (55 :: u32)"
abbreviation (input) "PUSHGETGLOBALFIELD \<equiv> (56 :: u32)"
abbreviation (input) "SETGLOBAL \<equiv> (57 :: u32)"
abbreviation (input) "ATOM0 \<equiv> (58 :: u32)"
abbreviation (input) "ATOM \<equiv> (59 :: u32)"
abbreviation (input) "PUSHATOM0 \<equiv> (60 :: u32)"
abbreviation (input) "PUSHATOM \<equiv> (61 :: u32)"
abbreviation (input) "MAKEBLOCK \<equiv> (62 :: u32)"
abbreviation (input) "MAKEBLOCK1 \<equiv> (63 :: u32)"
abbreviation (input) "MAKEBLOCK2 \<equiv> (64 :: u32)"
abbreviation (input) "MAKEBLOCK3 \<equiv> (65 :: u32)"
abbreviation (input) "MAKEFLOATBLOCK \<equiv> (66 :: u32)"
abbreviation (input) "GETFIELD0 \<equiv> (67 :: u32)"
abbreviation (input) "GETFIELD1 \<equiv> (68 :: u32)"
abbreviation (input) "GETFIELD2 \<equiv> (69 :: u32)"
abbreviation (input) "GETFIELD3 \<equiv> (70 :: u32)"
abbreviation (input) "GETFIELD \<equiv> (71 :: u32)"
abbreviation (input) "GETFLOATFIELD \<equiv> (72 :: u32)"
abbreviation (input) "SETFIELD0 \<equiv> (73 :: u32)"
abbreviation (input) "SETFIELD1 \<equiv> (74 :: u32)"
abbreviation (input) "SETFIELD2 \<equiv> (75 :: u32)"
abbreviation (input) "SETFIELD3 \<equiv> (76 :: u32)"
abbreviation (input) "SETFIELD \<equiv> (77 :: u32)"
abbreviation (input) "SETFLOATFIELD \<equiv> (78 :: u32)"
abbreviation (input) "VECTLENGTH \<equiv> (79 :: u32)"
abbreviation (input) "GETVECTITEM \<equiv> (80 :: u32)"
abbreviation (input) "SETVECTITEM \<equiv> (81 :: u32)"
abbreviation (input) "GETSTRINGCHAR \<equiv> (82 :: u32)"
abbreviation (input) "SETSTRINGCHAR \<equiv> (83 :: u32)"
abbreviation (input) "BRANCH \<equiv> (84 :: u32)"
abbreviation (input) "BRANCHIF \<equiv> (85 :: u32)"
abbreviation (input) "BRANCHIFNOT \<equiv> (86 :: u32)"
abbreviation (input) "SWITCH \<equiv> (87 :: u32)"
abbreviation (input) "BOOLNOT \<equiv> (88 :: u32)"
abbreviation (input) "PUSHTRAP \<equiv> (89 :: u32)"
abbreviation (input) "POPTRAP \<equiv> (90 :: u32)"
abbreviation (input) "RAISE \<equiv> (91 :: u32)"
abbreviation (input) "CHECK_SIGNALS \<equiv> (92 :: u32)"
abbreviation (input) "C_CALL1 \<equiv> (93 :: u32)"
abbreviation (input) "C_CALL2 \<equiv> (94 :: u32)"
abbreviation (input) "C_CALL3 \<equiv> (95 :: u32)"
abbreviation (input) "C_CALL4 \<equiv> (96 :: u32)"
abbreviation (input) "C_CALL5 \<equiv> (97 :: u32)"
abbreviation (input) "C_CALLN \<equiv> (98 :: u32)"
abbreviation (input) "CONST0 \<equiv> (99 :: u32)"
abbreviation (input) "CONST1 \<equiv> (100 :: u32)"
abbreviation (input) "CONST2 \<equiv> (101 :: u32)"
abbreviation (input) "CONST3 \<equiv> (102 :: u32)"
abbreviation (input) "CONSTINT \<equiv> (103 :: u32)"
abbreviation (input) "PUSHCONST0 \<equiv> (104 :: u32)"
abbreviation (input) "PUSHCONST1 \<equiv> (105 :: u32)"
abbreviation (input) "PUSHCONST2 \<equiv> (106 :: u32)"
abbreviation (input) "PUSHCONST3 \<equiv> (107 :: u32)"
abbreviation (input) "PUSHCONSTINT \<equiv> (108 :: u32)"
abbreviation (input) "NEGINT \<equiv> (109 :: u32)"
abbreviation (input) "ADDINT \<equiv> (110 :: u32)"
abbreviation (input) "SUBINT \<equiv> (111 :: u32)"
abbreviation (input) "MULINT \<equiv> (112 :: u32)"
abbreviation (input) "DIVINT \<equiv> (113 :: u32)"
abbreviation (input) "MODINT \<equiv> (114 :: u32)"
abbreviation (input) "ANDINT \<equiv> (115 :: u32)"
abbreviation (input) "ORINT \<equiv> (116 :: u32)"
abbreviation (input) "XORINT \<equiv> (117 :: u32)"
abbreviation (input) "LSLINT \<equiv> (118 :: u32)"
abbreviation (input) "LSRINT \<equiv> (119 :: u32)"
abbreviation (input) "ASRINT \<equiv> (120 :: u32)"
abbreviation (input) "EQ \<equiv> (121 :: u32)"
abbreviation (input) "NEQ \<equiv> (122 :: u32)"
abbreviation (input) "LTINT \<equiv> (123 :: u32)"
abbreviation (input) "LEINT \<equiv> (124 :: u32)"
abbreviation (input) "GTINT \<equiv> (125 :: u32)"
abbreviation (input) "GEINT \<equiv> (126 :: u32)"
abbreviation (input) "OFFSETINT \<equiv> (127 :: u32)"
abbreviation (input) "OFFSETREF \<equiv> (128 :: u32)"
abbreviation (input) "ISINT \<equiv> (129 :: u32)"
abbreviation (input) "GETMETHOD \<equiv> (130 :: u32)"
abbreviation (input) "BEQ \<equiv> (131 :: u32)"
abbreviation (input) "BNEQ \<equiv> (132 :: u32)"
abbreviation (input) "BLTINT \<equiv> (133 :: u32)"
abbreviation (input) "BLEINT \<equiv> (134 :: u32)"
abbreviation (input) "BGTINT \<equiv> (135 :: u32)"
abbreviation (input) "BGEINT \<equiv> (136 :: u32)"
abbreviation (input) "ULTINT \<equiv> (137 :: u32)"
abbreviation (input) "UGEINT \<equiv> (138 :: u32)"
abbreviation (input) "BULTINT \<equiv> (139 :: u32)"
abbreviation (input) "BUGEINT \<equiv> (140 :: u32)"
abbreviation (input) "GETPUBMET \<equiv> (141 :: u32)"
abbreviation (input) "GETDYNMET \<equiv> (142 :: u32)"
abbreviation (input) "STOP \<equiv> (143 :: u32)"
abbreviation (input) "EVENT \<equiv> (144 :: u32)"
abbreviation (input) "BREAK \<equiv> (145 :: u32)"

text \<open>Basic stack operations.\<close>

definition exec_stack :: "u32 \<Rightarrow> machine \<Rightarrow> result" where
  "exec_stack op s = Next (
     if op = ACC0 then set_accu (stk s 0) s
     else if op = ACC1 then set_accu (stk s 1) s
     else if op = ACC2 then set_accu (stk s 2) s
     else if op = ACC3 then set_accu (stk s 3) s
     else if op = ACC4 then set_accu (stk s 4) s
     else if op = ACC5 then set_accu (stk s 5) s
     else if op = ACC6 then set_accu (stk s 6) s
     else if op = ACC7 then set_accu (stk s 7) s
     else if op = PUSH \<or> op = PUSHACC0 then push (accu s) s
     else if op = PUSHACC1 then (let s1 = push (accu s) s in set_accu (stk s1 1) s1)
     else if op = PUSHACC2 then (let s1 = push (accu s) s in set_accu (stk s1 2) s1)
     else if op = PUSHACC3 then (let s1 = push (accu s) s in set_accu (stk s1 3) s1)
     else if op = PUSHACC4 then (let s1 = push (accu s) s in set_accu (stk s1 4) s1)
     else if op = PUSHACC5 then (let s1 = push (accu s) s in set_accu (stk s1 5) s1)
     else if op = PUSHACC6 then (let s1 = push (accu s) s in set_accu (stk s1 6) s1)
     else if op = PUSHACC7 then (let s1 = push (accu s) s in set_accu (stk s1 7) s1)
     else if op = PUSHACC \<or> op = ACC then
       (let s1 = (if op = PUSHACC then push (accu s) s else s)
        in skip 1 (set_accu (mem s1 (ptr_off (sp s1) (operand s1 0))) s1))
     else if op = POP then skip 1 (s\<lparr>sp := ptr_off (sp s) (operand s 0)\<rparr>)
     else skip 1 (s\<lparr>mem := (mem s)(ptr_off (sp s) (operand s 0) := accu s), accu := Val_unit\<rparr>))"

text \<open>Access in the heap-allocated environment.\<close>

definition exec_env :: "u32 \<Rightarrow> machine \<Rightarrow> result" where
  "exec_env op s = Next (
     if op = ENVACC1 then set_accu (Field (mem s) (env s) 1) s
     else if op = ENVACC2 then set_accu (Field (mem s) (env s) 2) s
     else if op = ENVACC3 then set_accu (Field (mem s) (env s) 3) s
     else if op = ENVACC4 then set_accu (Field (mem s) (env s) 4) s
     else if op = PUSHENVACC1 then (let s1 = push (accu s) s in set_accu (Field (mem s1) (env s1) 1) s1)
     else if op = PUSHENVACC2 then (let s1 = push (accu s) s in set_accu (Field (mem s1) (env s1) 2) s1)
     else if op = PUSHENVACC3 then (let s1 = push (accu s) s in set_accu (Field (mem s1) (env s1) 3) s1)
     else if op = PUSHENVACC4 then (let s1 = push (accu s) s in set_accu (Field (mem s1) (env s1) 4) s1)
     else (let s1 = (if op = PUSHENVACC then push (accu s) s else s)
           in skip 1 (set_accu (FieldZ (mem s1) (env s1) (operand s1 0)) s1)))"

text \<open>Function application.\<close>

definition exec_PUSH_RETADDR :: "machine \<Rightarrow> machine" where
  "exec_PUSH_RETADDR s =
     (let p = sp s - 3
      in s\<lparr>sp := p, mem := (mem s)(p := val_of_code (ptr_off (pc s) (operand s 0)), p + 1 := env s,
             p + 2 := Val_long (extra_args s)), pc := pc s + 1\<rparr>)"

text \<open>\<^verbatim>\<open>pc = Code_val(accu); env = accu\<close>, common to all applications.\<close>

definition enter_closure :: "machine \<Rightarrow> machine" where
  "enter_closure s = s\<lparr>pc := Code_val (mem s) (accu s), env := accu s\<rparr>"

definition exec_APPLY :: "machine \<Rightarrow> machine" where
  "exec_APPLY s = enter_closure (s\<lparr>extra_args := scast (code s (pc s) - 1)\<rparr>)"

definition exec_APPLY1 :: "machine \<Rightarrow> machine" where
  "exec_APPLY1 s =
     (let arg1 = stk s 0; p = sp s - 3
      in enter_closure (s\<lparr>sp := p, mem := (mem s)(p := arg1, p + 1 := val_of_code (pc s), p + 2 := env s,
           p + 3 := Val_long (extra_args s)), extra_args := 0\<rparr>))"

definition exec_APPLY2 :: "machine \<Rightarrow> machine" where
  "exec_APPLY2 s =
     (let arg1 = stk s 0; arg2 = stk s 1; p = sp s - 3
      in enter_closure (s\<lparr>sp := p, mem := (mem s)(p := arg1, p + 1 := arg2, p + 2 := val_of_code (pc s),
           p + 3 := env s, p + 4 := Val_long (extra_args s)), extra_args := 1\<rparr>))"

definition exec_APPLY3 :: "machine \<Rightarrow> machine" where
  "exec_APPLY3 s =
     (let arg1 = stk s 0; arg2 = stk s 1; arg3 = stk s 2; p = sp s - 3
      in enter_closure (s\<lparr>sp := p, mem := (mem s)(p := arg1, p + 1 := arg2, p + 2 := arg3,
           p + 3 := val_of_code (pc s), p + 4 := env s, p + 5 := Val_long (extra_args s)), extra_args := 2\<rparr>))"

definition exec_APPTERM :: "machine \<Rightarrow> machine" where
  "exec_APPTERM s =
     (let nargs = operand s 0; slotsize = operand s 1;
          newsp = ptr_off (sp s) (slotsize - nargs)
      in enter_closure (s\<lparr>mem := copy_down (nat nargs) newsp (sp s) (mem s), sp := newsp,
           extra_args := extra_args s + scast (code s (pc s) - 1)\<rparr>))"

definition exec_APPTERM1 :: "machine \<Rightarrow> machine" where
  "exec_APPTERM1 s =
     (let arg1 = stk s 0; p = ptr_off (sp s) (operand s 0 - 1)
      in enter_closure (s\<lparr>sp := p, mem := (mem s)(p := arg1)\<rparr>))"

definition exec_APPTERM2 :: "machine \<Rightarrow> machine" where
  "exec_APPTERM2 s =
     (let arg1 = stk s 0; arg2 = stk s 1; p = ptr_off (sp s) (operand s 0 - 2)
      in enter_closure (s\<lparr>sp := p, mem := (mem s)(p := arg1, p + 1 := arg2), extra_args := extra_args s + 1\<rparr>))"

definition exec_APPTERM3 :: "machine \<Rightarrow> machine" where
  "exec_APPTERM3 s =
     (let arg1 = stk s 0; arg2 = stk s 1; arg3 = stk s 2; p = ptr_off (sp s) (operand s 0 - 3)
      in enter_closure (s\<lparr>sp := p, mem := (mem s)(p := arg1, p + 1 := arg2, p + 2 := arg3),
           extra_args := extra_args s + 2\<rparr>))"

text \<open>Leaving a function through the return frame at \<^verbatim>\<open>sp\<close>.\<close>

definition return_frame :: "machine \<Rightarrow> machine" where
  "return_frame s = s\<lparr>pc := code_of_val (stk s 0), env := stk s 1, extra_args := Long_val (stk s 2), sp := sp s + 3\<rparr>"

definition exec_RETURN :: "machine \<Rightarrow> machine" where
  "exec_RETURN s =
     (let s1 = skip 1 (s\<lparr>sp := ptr_off (sp s) (operand s 0)\<rparr>)
      in if sint (extra_args s1) > 0 then enter_closure (s1\<lparr>extra_args := extra_args s1 - 1\<rparr>)
         else return_frame s1)"

definition exec_RESTART :: "machine \<Rightarrow> machine" where
  "exec_RESTART s =
     (let num_args = ucast (Wosize_val (mem s) (env s) - 2) :: u32;
          p = ptr_off (sp s) (- sint num_args);
          m = copy_up (nat (sint num_args)) p (Op_val (env s) + 2) (mem s)
      in s\<lparr>sp := p, mem := m, env := Field m (env s) 1, extra_args := extra_args s + scast num_args\<rparr>)"

definition exec_GRAB :: "runtime \<Rightarrow> machine \<Rightarrow> machine" where
  "exec_GRAB rt s =
     (let required = operand s 0; s1 = skip 1 s
      in if sint (extra_args s1) \<ge> required then s1\<lparr>extra_args := extra_args s1 - scast (code s (pc s))\<rparr>
         else let num_args = unat (1 + extra_args s1);
                  (b, s2) = Alloc_small rt (num_args + 2) Closure_tag s1;
                  m = copy_up num_args (Op_val b + 2) (sp s2) ((mem s2)(Op_val b + 1 := env s2));
                  s3 = s2\<lparr>accu := b, mem := m(Op_val b := val_of_code (pc s2 - 3)), sp := sp s2 + num_args\<rparr>
              in return_frame s3)"

definition exec_CLOSURE :: "runtime \<Rightarrow> machine \<Rightarrow> machine" where
  "exec_CLOSURE rt s =
     (let nvars = nat (operand s 0); s1 = skip 1 s;
          s2 = (if nvars > 0 then push (accu s1) s1 else s1);
          (b, s3) = Alloc_small rt (1 + nvars) Closure_tag s2;
          m = (mem s3)(Op_val b := val_of_code (ptr_off (pc s3) (operand s3 0)))
      in s3\<lparr>accu := b, pc := pc s3 + 1, mem := copy_up nvars (Op_val b + 1) (sp s3) m, sp := sp s3 + nvars\<rparr>)"

text \<open>The loop of \<^verbatim>\<open>CLOSUREREC\<close> over the functions after the first.\<close>

primrec closurerec_loop :: "nat \<Rightarrow> nat \<Rightarrow> ptr \<Rightarrow> machine \<Rightarrow> machine" where
  "closurerec_loop 0 i p s = s"
| "closurerec_loop (Suc n) i p s =
     (let s1 = s\<lparr>mem := (mem s)(p := Make_header (of_nat (i * 2)) Infix_tag Caml_white,
                  p + 1 := val_of_code (ptr_off (pc s) (operand s i)))\<rparr>
      in closurerec_loop n (i + 1) (p + 2) (push (val_of_ptr (p + 1)) s1))"

definition exec_CLOSUREREC :: "runtime \<Rightarrow> machine \<Rightarrow> machine" where
  "exec_CLOSUREREC rt s =
     (let nfuncs = nat (operand s 0); nvars = nat (operand s 1); s1 = skip 2 s;
          s2 = (if nvars > 0 then push (accu s1) s1 else s1);
          (b, s3) = Alloc_small rt (nfuncs * 2 - 1 + nvars) Closure_tag s2;
          m = copy_up nvars (Op_val b + (nfuncs * 2 - 1)) (sp s3) (mem s3);
          s4 = s3\<lparr>accu := b, sp := sp s3 + nvars,
                 mem := m(Op_val b := val_of_code (ptr_off (pc s3) (operand s3 0)))\<rparr>
      in skip nfuncs (closurerec_loop (nfuncs - 1) 1 (Op_val b + 1) (push b s4)))"

definition exec_OFFSETCLOSURE :: "u32 \<Rightarrow> machine \<Rightarrow> machine" where
  "exec_OFFSETCLOSURE op s =
     (let s1 = (if op = PUSHOFFSETCLOSURE \<or> op = PUSHOFFSETCLOSUREM2 \<or> op = PUSHOFFSETCLOSURE0 \<or> op = PUSHOFFSETCLOSURE2
                then push (accu s) s else s)
      in if op = PUSHOFFSETCLOSURE \<or> op = OFFSETCLOSURE
         then skip 1 (set_accu (env s1 + scast (code s1 (pc s1)) * 8) s1)
         else if op = PUSHOFFSETCLOSUREM2 \<or> op = OFFSETCLOSUREM2 then set_accu (env s1 - 2 * 8) s1
         else if op = PUSHOFFSETCLOSURE0 \<or> op = OFFSETCLOSURE0 then set_accu (env s1) s1
         else set_accu (env s1 + 2 * 8) s1)"

definition exec_apply :: "runtime \<Rightarrow> u32 \<Rightarrow> machine \<Rightarrow> result option" where
  "exec_apply rt op s =
     (if op = PUSH_RETADDR then Some (Next (exec_PUSH_RETADDR s))
      else if op = APPLY then check_stacks rt (exec_APPLY s)
      else if op = APPLY1 then check_stacks rt (exec_APPLY1 s)
      else if op = APPLY2 then check_stacks rt (exec_APPLY2 s)
      else if op = APPLY3 then check_stacks rt (exec_APPLY3 s)
      else if op = APPTERM then check_stacks rt (exec_APPTERM s)
      else if op = APPTERM1 then check_stacks rt (exec_APPTERM1 s)
      else if op = APPTERM2 then check_stacks rt (exec_APPTERM2 s)
      else if op = APPTERM3 then check_stacks rt (exec_APPTERM3 s)
      else if op = RETURN then Some (Next (exec_RETURN s))
      else if op = RESTART then Some (Next (exec_RESTART s))
      else if op = GRAB then Some (Next (exec_GRAB rt s))
      else if op = CLOSURE then Some (Next (exec_CLOSURE rt s))
      else if op = CLOSUREREC then Some (Next (exec_CLOSUREREC rt s))
      else Some (Next (exec_OFFSETCLOSURE op s)))"

text \<open>Access to global variables.\<close>

definition exec_global :: "runtime \<Rightarrow> u32 \<Rightarrow> machine \<Rightarrow> result" where
  "exec_global rt op s = Next (
     if op = PUSHGETGLOBAL \<or> op = GETGLOBAL then
       (let s1 = (if op = PUSHGETGLOBAL then push (accu s) s else s)
        in skip 1 (set_accu (FieldZ (mem s1) (caml_global_data s1) (operand s1 0)) s1))
     else if op = PUSHGETGLOBALFIELD \<or> op = GETGLOBALFIELD then
       (let s1 = (if op = PUSHGETGLOBALFIELD then push (accu s) s else s);
            v = FieldZ (mem s1) (caml_global_data s1) (operand s1 0)
        in skip 2 (set_accu (FieldZ (mem s1) v (operand s1 1)) s1))
     else (let fp = ptr_off (Op_val (caml_global_data s)) (operand s 0);
               s1 = with_ctxt s (caml_modify rt fp (accu s) (ctxt_of s))
           in skip 1 (set_accu Val_unit s1)))"

text \<open>Allocation of blocks.\<close>

text \<open>\<open>for (i = 1; i < wosize; i++) caml_initialize(&Field(block, i), *sp++)\<close>\<close>

primrec initialize_fields :: "runtime \<Rightarrow> nat \<Rightarrow> nat \<Rightarrow> mlvalue \<Rightarrow> machine \<Rightarrow> machine" where
  "initialize_fields rt 0 i block s = s"
| "initialize_fields rt (Suc n) i block s =
     initialize_fields rt n (i + 1) block
       (drop_stk 1 (with_ctxt s (caml_initialize rt (Op_val block + i) (stk s 0) (ctxt_of s))))"

definition exec_MAKEBLOCK :: "runtime \<Rightarrow> machine \<Rightarrow> result" where
  "exec_MAKEBLOCK rt s =
     (let wosize = unat (scast (code s (pc s)) :: u64); tag = code s (pc s + 1); s1 = skip 2 s
      in if wosize \<le> Max_young_wosize
         then let (block, s2) = Alloc_small rt wosize tag s1;
                  m = (mem s2)(Op_val block := accu s2)
              in Next (s2\<lparr>mem := copy_up (wosize - 1) (Op_val block + 1) (sp s2) m, sp := sp s2 + (wosize - 1), accu := block\<rparr>)
         else (case caml_alloc_shr rt (of_nat wosize) tag (ctxt_of s1) of
                 Exn v c \<Rightarrow> longjmp_handler rt s1 v c
               | Ret block c \<Rightarrow>
                   let s2 = with_ctxt s1 c;
                       s3 = with_ctxt s2 (caml_initialize rt (Op_val block) (accu s2) (ctxt_of s2))
                   in Next (set_accu block (initialize_fields rt (wosize - 1) 1 block s3))))"

definition exec_MAKEBLOCK1 :: "runtime \<Rightarrow> machine \<Rightarrow> machine" where
  "exec_MAKEBLOCK1 rt s =
     (let tag = code s (pc s); (block, s1) = Alloc_small rt 1 tag (skip 1 s)
      in s1\<lparr>mem := (mem s1)(Op_val block := accu s1), accu := block\<rparr>)"

definition exec_MAKEBLOCK2 :: "runtime \<Rightarrow> machine \<Rightarrow> machine" where
  "exec_MAKEBLOCK2 rt s =
     (let tag = code s (pc s); (block, s1) = Alloc_small rt 2 tag (skip 1 s);
          m = (mem s1)(Op_val block := accu s1)
      in s1\<lparr>mem := m(Op_val block + 1 := m (sp s1)), sp := sp s1 + 1, accu := block\<rparr>)"

definition exec_MAKEBLOCK3 :: "runtime \<Rightarrow> machine \<Rightarrow> machine" where
  "exec_MAKEBLOCK3 rt s =
     (let tag = code s (pc s); (block, s1) = Alloc_small rt 3 tag (skip 1 s);
          m = (mem s1)(Op_val block := accu s1);
          m' = m(Op_val block + 1 := m (sp s1))
      in s1\<lparr>mem := m'(Op_val block + 2 := m' (sp s1 + 1)), sp := sp s1 + 2, accu := block\<rparr>)"

text \<open>A double occupies one word, which is copied without being interpreted.\<close>

primrec store_doubles :: "nat \<Rightarrow> nat \<Rightarrow> mlvalue \<Rightarrow> machine \<Rightarrow> machine" where
  "store_doubles 0 i block s = s"
| "store_doubles (Suc n) i block s =
     store_doubles n (i + 1) block (drop_stk 1 (s\<lparr>mem := (mem s)(Op_val block + i := Field (mem s) (stk s 0) 0)\<rparr>))"

definition exec_MAKEFLOATBLOCK :: "runtime \<Rightarrow> machine \<Rightarrow> result" where
  "exec_MAKEFLOATBLOCK rt s =
     (let sz = unat (scast (code s (pc s)) :: u64); s1 = skip 1 s;
          fill = (\<lambda>block s2. Next (set_accu block (store_doubles (sz - 1) 1 block
                    (s2\<lparr>mem := (mem s2)(Op_val block := Field (mem s2) (accu s2) 0)\<rparr>))))
      in if sz \<le> Max_young_wosize
         then let (block, s2) = Alloc_small rt sz Double_array_tag s1 in fill block s2
         else (case caml_alloc_shr rt (of_nat sz) Double_array_tag (ctxt_of s1) of
                 Exn v c \<Rightarrow> longjmp_handler rt s1 v c
               | Ret block c \<Rightarrow> fill block (with_ctxt s1 c)))"

definition exec_block :: "runtime \<Rightarrow> u32 \<Rightarrow> machine \<Rightarrow> result" where
  "exec_block rt op s =
     (if op = PUSHATOM0 \<or> op = ATOM0 then
        (let s1 = (if op = PUSHATOM0 then push (accu s) s else s) in Next (set_accu (Atom s1 0) s1))
      else if op = PUSHATOM \<or> op = ATOM then
        (let s1 = (if op = PUSHATOM then push (accu s) s else s)
         in Next (skip 1 (set_accu (Atom s1 (operand s1 0)) s1)))
      else if op = MAKEBLOCK then exec_MAKEBLOCK rt s
      else if op = MAKEBLOCK1 then Next (exec_MAKEBLOCK1 rt s)
      else if op = MAKEBLOCK2 then Next (exec_MAKEBLOCK2 rt s)
      else if op = MAKEBLOCK3 then Next (exec_MAKEBLOCK3 rt s)
      else exec_MAKEFLOATBLOCK rt s)"

text \<open>Access to components of blocks, arrays and strings.\<close>

definition modify :: "runtime \<Rightarrow> ptr \<Rightarrow> mlvalue \<Rightarrow> machine \<Rightarrow> machine" where
  "modify rt dest newval s = set_accu Val_unit (with_ctxt s (Modify rt dest newval (ctxt_of s)))"

definition exec_getfield :: "runtime \<Rightarrow> u32 \<Rightarrow> machine \<Rightarrow> machine" where
  "exec_getfield rt op s =
     (if op = GETFIELD0 then set_accu (Field (mem s) (accu s) 0) s
      else if op = GETFIELD1 then set_accu (Field (mem s) (accu s) 1) s
      else if op = GETFIELD2 then set_accu (Field (mem s) (accu s) 2) s
      else if op = GETFIELD3 then set_accu (Field (mem s) (accu s) 3) s
      else if op = GETFIELD then skip 1 (set_accu (FieldZ (mem s) (accu s) (operand s 0)) s)
      else (let d = FieldZ (mem s) (accu s) (operand s 0);
                (b, s1) = Alloc_small rt 1 Double_tag s
            in skip 1 (s1\<lparr>accu := b, mem := (mem s1)(Op_val b := d)\<rparr>)))"

definition exec_setfield :: "runtime \<Rightarrow> u32 \<Rightarrow> machine \<Rightarrow> machine" where
  "exec_setfield rt op s =
     (if op = SETFIELD0 then modify rt (Op_val (accu s)) (stk s 0) (drop_stk 1 s)
      else if op = SETFIELD1 then modify rt (Op_val (accu s) + 1) (stk s 0) (drop_stk 1 s)
      else if op = SETFIELD2 then modify rt (Op_val (accu s) + 2) (stk s 0) (drop_stk 1 s)
      else if op = SETFIELD3 then modify rt (Op_val (accu s) + 3) (stk s 0) (drop_stk 1 s)
      else if op = SETFIELD
      then modify rt (ptr_off (Op_val (accu s)) (operand s 0)) (stk s 0) (drop_stk 1 (skip 1 s))
      else skip 1 (drop_stk 1 (s\<lparr>mem := (mem s)(ptr_off (Op_val (accu s)) (operand s 0) := Field (mem s) (stk s 0) 0),
             accu := Val_unit\<rparr>)))"

text \<open>Storing a byte into a word of a little-endian memory.\<close>

definition set_Byte_u :: "memory \<Rightarrow> mlvalue \<Rightarrow> nat \<Rightarrow> u8 \<Rightarrow> memory" where
  "set_Byte_u m v i b =
     (let p = Op_val v + i div 8; k = 8 * (i mod 8)
      in m(p := m p AND NOT (push_bit k 0xFF) OR push_bit k (ucast b)))"

definition exec_array :: "runtime \<Rightarrow> u32 \<Rightarrow> machine \<Rightarrow> machine" where
  "exec_array rt op s =
     (if op = VECTLENGTH then set_accu (Val_long (Wosize_val (mem s) (accu s))) s
      else if op = GETVECTITEM
      then drop_stk 1 (set_accu (FieldZ (mem s) (accu s) (sint (Long_val (stk s 0)))) s)
      else if op = SETVECTITEM
      then modify rt (ptr_off (Op_val (accu s)) (sint (Long_val (stk s 0)))) (stk s 1) (drop_stk 2 s)
      else if op = GETSTRINGCHAR
      then drop_stk 1 (set_accu (Val_int (ucast (Byte_u (mem s) (accu s) (unat (Long_val (stk s 0)))))) s)
      else drop_stk 2 (s\<lparr>mem := set_Byte_u (mem s) (accu s) (unat (Long_val (stk s 0))) (ucast (Int_val (stk s 1))),
             accu := Val_unit\<rparr>))"

text \<open>Branches.\<close>

abbreviation branch :: "machine \<Rightarrow> machine" where
  "branch s \<equiv> s\<lparr>pc := ptr_off (pc s) (operand s 0)\<rparr>"

definition exec_SWITCH :: "machine \<Rightarrow> machine" where
  "exec_SWITCH s =
     (let sizes = code s (pc s); s1 = skip 1 s;
          k = (if Is_block (accu s1) then int (unat (sizes AND 0xFFFF)) + int (unat (Tag_val (mem s1) (accu s1)))
               else sint (Long_val (accu s1)))
      in s1\<lparr>pc := ptr_off (pc s1) (sint (code s1 (ptr_off (pc s1) k)))\<rparr>)"

definition exec_branch :: "u32 \<Rightarrow> machine \<Rightarrow> machine" where
  "exec_branch op s =
     (if op = BRANCH then branch s
      else if op = BRANCHIF then (if accu s \<noteq> Val_false then branch s else skip 1 s)
      else if op = BRANCHIFNOT then (if accu s = Val_false then branch s else skip 1 s)
      else if op = SWITCH then exec_SWITCH s
      else set_accu (Val_not (accu s)) s)"

text \<open>Exceptions and signals.\<close>

definition exec_PUSHTRAP :: "machine \<Rightarrow> machine" where
  "exec_PUSHTRAP s =
     (let p = sp s - 4
      in s\<lparr>sp := p, mem := (mem s)(p := val_of_code (ptr_off (pc s) (operand s 0)),
             p + 1 := val_of_ptr (caml_trapsp s), p + 2 := env s, p + 3 := Val_long (extra_args s)),
           caml_trapsp := p, pc := pc s + 1\<rparr>)"

definition exec_POPTRAP :: "runtime \<Rightarrow> machine \<Rightarrow> result" where
  "exec_POPTRAP rt s =
     (if caml_something_to_do s then process_signal rt (s\<lparr>pc := pc s - 1\<rparr>)
      else Next (s\<lparr>caml_trapsp := Trap_link (mem s) (sp s), sp := sp s + 4\<rparr>))"

definition exec_trap :: "runtime \<Rightarrow> u32 \<Rightarrow> machine \<Rightarrow> result" where
  "exec_trap rt op s =
     (if op = PUSHTRAP then Next (exec_PUSHTRAP s)
      else if op = POPTRAP then exec_POPTRAP rt s
      else if op = RAISE then raise_exception rt s
      else check_signals rt s)"

text \<open>
  Calling C functions: after the optional count of \<^verbatim>\<open>C_CALLN\<close>, a flag tells
  whether the primitive takes the context, and the next word is its number.
\<close>

definition c_call :: "runtime \<Rightarrow> nat \<Rightarrow> machine \<Rightarrow> mlvalue list \<Rightarrow> result" where
  "c_call rt pops s args =
     (let s1 = Setup_for_c_call s
      in case Primitive rt (code s1 (pc s1 + 1)) (code s1 (pc s1) \<noteq> 0) args (ctxt_of s1) of
           Exn v c \<Rightarrow> longjmp_handler rt s1 v c
         | Ret v c \<Rightarrow> Next (skip 2 (drop_stk pops (Restore_after_c_call (set_accu v (with_ctxt s1 c))))))"

definition exec_c_call :: "runtime \<Rightarrow> u32 \<Rightarrow> machine \<Rightarrow> result" where
  "exec_c_call rt op s =
     (if op = C_CALL1 then c_call rt 0 s [accu s]
      else if op = C_CALL2 then c_call rt 1 s [accu s, stk s 0]
      else if op = C_CALL3 then c_call rt 2 s [accu s, stk s 0, stk s 1]
      else if op = C_CALL4 then c_call rt 3 s [accu s, stk s 0, stk s 1, stk s 2]
      else if op = C_CALL5 then c_call rt 4 s [accu s, stk s 0, stk s 1, stk s 2, stk s 3]
      else (let nargs = nat (operand s 0); s1 = push (accu s) (skip 1 s)
            in c_call rt nargs s1 (map (stk s1) [0..<nargs])))"

text \<open>Integer constants.\<close>

definition exec_const :: "u32 \<Rightarrow> machine \<Rightarrow> machine" where
  "exec_const op s =
     (let s1 = (if op \<ge> PUSHCONST0 then push (accu s) s else s)
      in if op = CONST0 \<or> op = PUSHCONST0 then set_accu (Val_int 0) s1
         else if op = CONST1 \<or> op = PUSHCONST1 then set_accu (Val_int 1) s1
         else if op = CONST2 \<or> op = PUSHCONST2 then set_accu (Val_int 2) s1
         else if op = CONST3 \<or> op = PUSHCONST3 then set_accu (Val_int 3) s1
         else skip 1 (set_accu (Val_int (code s1 (pc s1))) s1))"

text \<open>Integer arithmetic on tagged integers.\<close>

definition exec_DIVINT :: "runtime \<Rightarrow> u32 \<Rightarrow> machine \<Rightarrow> result" where
  "exec_DIVINT rt op s =
     (let divisor = Long_val (stk s 0); s1 = drop_stk 1 s
      in if divisor = 0
         then let s2 = Setup_for_c_call s1
              in case caml_raise_zero_divide rt (ctxt_of s2) of
                   Exn v c \<Rightarrow> longjmp_handler rt s2 v c
                 | Ret () c \<Rightarrow> Next (with_ctxt s2 c)
         else if op = DIVINT
         then Next (set_accu (Val_long (word_of_int (sint (Long_val (accu s1)) sdiv sint divisor))) s1)
         else Next (set_accu (Val_long (word_of_int (sint (Long_val (accu s1)) smod sint divisor))) s1))"

definition int_arith :: "u32 \<Rightarrow> mlvalue \<Rightarrow> mlvalue \<Rightarrow> mlvalue" where
  "int_arith op a b =
     (if op = ADDINT then a + b - 1
      else if op = SUBINT then a - b + 1
      else if op = MULINT then Val_long (Long_val a * Long_val b)
      else if op = ANDINT then a AND b
      else if op = ORINT then a OR b
      else if op = XORINT then (a XOR b) OR 1
      else if op = LSLINT then push_bit (unat (Long_val b)) (a - 1) + 1
      else if op = LSRINT then drop_bit (unat (Long_val b)) (a - 1) OR 1
      else signed_drop_bit (unat (Long_val b)) (a - 1) OR 1)"

definition int_comparison :: "u32 \<Rightarrow> mlvalue \<Rightarrow> mlvalue \<Rightarrow> bool" where
  "int_comparison op a b \<longleftrightarrow>
     (if op = EQ then a = b
      else if op = NEQ then a \<noteq> b
      else if op = LTINT then sint a < sint b
      else if op = LEINT then sint a \<le> sint b
      else if op = GTINT then sint a > sint b
      else if op = GEINT then sint a \<ge> sint b
      else if op = ULTINT then a < b
      else a \<ge> b)"

definition int_branch :: "u32 \<Rightarrow> u32 \<Rightarrow> mlvalue \<Rightarrow> bool" where
  "int_branch op k a \<longleftrightarrow>
     (if op = BEQ then sint k = sint (Long_val a)
      else if op = BNEQ then sint k \<noteq> sint (Long_val a)
      else if op = BLTINT then sint k < sint (Long_val a)
      else if op = BLEINT then sint k \<le> sint (Long_val a)
      else if op = BGTINT then sint k > sint (Long_val a)
      else if op = BGEINT then sint k \<ge> sint (Long_val a)
      else if op = BULTINT then (scast k :: u64) < Long_val a
      else (scast k :: u64) \<ge> Long_val a)"

definition exec_arith :: "runtime \<Rightarrow> u32 \<Rightarrow> machine \<Rightarrow> result" where
  "exec_arith rt op s =
     (if op = NEGINT then Next (set_accu (2 - accu s) s)
      else if op = DIVINT \<or> op = MODINT then exec_DIVINT rt op s
      else if op \<le> ASRINT then Next (drop_stk 1 (set_accu (int_arith op (accu s) (stk s 0)) s))
      else if op \<le> GEINT \<or> op = ULTINT \<or> op = UGEINT
      then Next (drop_stk 1 (set_accu (Val_bool (int_comparison op (accu s) (stk s 0))) s))
      else if op = OFFSETINT then Next (skip 1 (set_accu (accu s + scast (push_bit 1 (code s (pc s)))) s))
      else if op = OFFSETREF
      then Next (skip 1 (s\<lparr>mem := (mem s)(Op_val (accu s) := Field (mem s) (accu s) 0 + scast (push_bit 1 (code s (pc s)))),
             accu := Val_unit\<rparr>))
      else if op = ISINT then Next (set_accu (Val_long (accu s AND 1)) s)
      else (let s1 = skip 1 s in Next (if int_branch op (code s (pc s)) (accu s) then branch s1 else skip 1 s1)))"

text \<open>
  Method lookup: binary search in the table of a class, whose word 0 holds
  the index of the last label and whose labels stand at odd indices from 3.
\<close>

partial_function (option) method_search :: "(int \<Rightarrow> mlvalue) \<Rightarrow> mlvalue \<Rightarrow> int \<Rightarrow> int \<Rightarrow> int option" where
  "method_search tbl tag li hi =
     (if li < hi then
        let mi = drop_bit 1 (li + hi) OR 1
        in if sint tag < sint (tbl mi) then method_search tbl tag li (mi - 2)
           else method_search tbl tag mi hi
      else Some li)"

definition find_method :: "memory \<Rightarrow> mlvalue \<Rightarrow> mlvalue \<Rightarrow> int option" where
  "find_method m meths tag = method_search (FieldZ m meths) tag 3 (sint (ucast (Field m meths 0) :: u32))"

definition exec_GETPUBMET :: "machine \<Rightarrow> machine option" where
  "exec_GETPUBMET s =
     (let meths = Field (mem s) (accu s) 0;
          s1 = push (accu s) s;
          tag = Val_int (code s1 (pc s1));
          ofs = scast (code s1 (pc s1 + 1)) AND Field (mem s1) meths 1
      in if mem s1 (Op_val (meths + 3 * 8 + ofs)) = tag
         then Some (skip 2 (set_accu (mem s1 (Op_val (meths + 2 * 8 + ofs))) s1))
         else case find_method (mem s1) meths tag of None \<Rightarrow> None
              | Some li \<Rightarrow> Some (skip 2 (s1\<lparr>code := (code s1)(pc s1 + 1 := word_of_int ((li - 3) * 8)),
                             accu := FieldZ (mem s1) meths (li - 1)\<rparr>)))"

definition exec_GETDYNMET :: "machine \<Rightarrow> machine option" where
  "exec_GETDYNMET s =
     (let meths = Field (mem s) (stk s 0) 0
      in map_option (\<lambda>li. set_accu (FieldZ (mem s) meths (li - 1)) s) (find_method (mem s) meths (accu s)))"

definition exec_GETMETHOD :: "machine \<Rightarrow> machine" where
  "exec_GETMETHOD s = set_accu (FieldZ (mem s) (Field (mem s) (stk s 0) 0) (sint (Int_val (accu s)))) s"

text \<open>Debugging and machine control.\<close>

definition exec_control :: "runtime \<Rightarrow> u32 \<Rightarrow> machine \<Rightarrow> result" where
  "exec_control rt op s =
     (let restart = (\<lambda>s'. Dispatch (ucast (caml_saved_code s' (pc s' - 1 - caml_start_code s'))) s');
          debugger = (\<lambda>ev s'. let s1 = Setup_for_debugger s'
                               in Restore_after_debugger (with_ctxt s1 (caml_debugger rt ev (ctxt_of s1))))
      in if op = STOP
         then Return (accu s) ((ctxt_of s)\<lparr>caml_extern_sp := sp s, caml_callback_depth := caml_callback_depth s - 1\<rparr>)
         else if op = EVENT
         then let s1 = s\<lparr>caml_event_count := caml_event_count s - 1\<rparr>
              in restart (if caml_event_count s1 = 0 then debugger EVENT_COUNT s1 else s1)
         else restart (debugger BREAKPOINT s))"

section \<open>The loop\<close>

definition dispatch_instr :: "runtime \<Rightarrow> u32 \<Rightarrow> machine \<Rightarrow> result option" where
  "dispatch_instr rt op s =
     (if op \<le> ASSIGN then Some (exec_stack op s)
      else if op \<le> PUSHENVACC then Some (exec_env op s)
      else if op \<le> PUSHOFFSETCLOSURE then exec_apply rt op s
      else if op \<le> SETGLOBAL then Some (exec_global rt op s)
      else if op \<le> MAKEFLOATBLOCK then Some (exec_block rt op s)
      else if op \<le> GETFLOATFIELD then Some (Next (exec_getfield rt op s))
      else if op \<le> SETFLOATFIELD then Some (Next (exec_setfield rt op s))
      else if op \<le> SETSTRINGCHAR then Some (Next (exec_array rt op s))
      else if op \<le> BOOLNOT then Some (Next (exec_branch op s))
      else if op \<le> CHECK_SIGNALS then Some (exec_trap rt op s)
      else if op \<le> C_CALLN then Some (exec_c_call rt op s)
      else if op \<le> PUSHCONSTINT then Some (Next (exec_const op s))
      else if op \<le> ISINT then Some (exec_arith rt op s)
      else if op = GETMETHOD then Some (Next (exec_GETMETHOD s))
      else if op \<le> BUGEINT then Some (exec_arith rt op s)
      else if op = GETPUBMET then map_option Next (exec_GETPUBMET s)
      else if op = GETDYNMET then map_option Next (exec_GETDYNMET s)
      else if op \<le> BREAK then Some (exec_control rt op s)
      else Some (Fatal_error op))"

definition step :: "runtime \<Rightarrow> machine \<Rightarrow> result option" where
  "step rt s = dispatch_instr rt (code s (pc s)) (skip 1 s)"

partial_function (option) interp_loop :: "runtime \<Rightarrow> result \<Rightarrow> (u32 + (mlvalue \<times> ctxt)) option" where
  "interp_loop rt r =
     (case r of
        Return v c \<Rightarrow> Some (Inr (v, c))
      | Fatal_error op \<Rightarrow> Some (Inl op)
      | Next s \<Rightarrow> Option.bind (step rt s) (interp_loop rt)
      | Dispatch op s \<Rightarrow> Option.bind (dispatch_instr rt op s) (interp_loop rt))"

definition initial_machine :: "nat \<Rightarrow> ctxt \<Rightarrow> machine" where
  "initial_machine prog c =
     ctxt.extend (c\<lparr>caml_callback_depth := caml_callback_depth c + 1\<rparr>)
       \<lparr>pc = prog, sp = caml_extern_sp c, accu = Val_int 0, env = Atom c 0, extra_args = 0,
        saved_pc = 0, initial_sp_offset = caml_stack_high c - caml_extern_sp c\<rparr>"

definition caml_interprete :: "runtime \<Rightarrow> nat \<Rightarrow> ctxt \<Rightarrow> (u32 + (mlvalue \<times> ctxt)) option" where
  "caml_interprete rt prog c =
     (if prog = 0 then Some (Inr (Val_unit, c)) else interp_loop rt (Next (initial_machine prog c)))"

end
