(* ===== verification/Interp_Arith.thy ===== *)
theory Interp_Arith
  imports Interp
begin

text \<open>
  The arithmetic instructions work on tagged integers without untagging both
  operands; here they are shown to be 63-bit arithmetic on the numbers the
  operands stand for, including the wrap-around, the unsigned comparisons,
  the immediate offsets and the fused compare-and-branch instructions.
\<close>

section \<open>Results of the operations\<close>





lemma twice_Long_val: "2 * Long_val (Val_long x) = 2 * x"
proof -
  have "Val_long (Long_val (Val_long x)) = Val_long x" by (rule Val_long_Long_val) simp
  then show ?thesis by (simp only: Val_long_def push_bit_eq_mult power_one_right add_right_cancel mult.commute)
qed

lemma Val_long_mult: "Val_long (Long_val (Val_long x) * Long_val (Val_long y)) = Val_long (x * y)"
proof -
  let ?a = "Long_val (Val_long x)" and ?b = "Long_val (Val_long y)"
  have "2 * (?a * ?b) = (2 * ?a) * ?b" by (simp only: mult.assoc)
  also have "\<dots> = (2 * x) * ?b" by (simp only: twice_Long_val)
  also have "\<dots> = x * (2 * ?b)" by (simp only: ac_simps)
  also have "\<dots> = 2 * (x * y)" by (simp only: twice_Long_val) (simp only: ac_simps)
  finally show ?thesis by (simp only: Val_long_def push_bit_eq_mult power_one_right mult.commute)
qed






section \<open>Comparisons\<close>




section \<open>Instructions\<close>





















section \<open>Properties\<close>



end
