(* ===== verification/Interp_Methods.thy ===== *)
theory Interp_Methods
  imports Interp
begin

text \<open>
  Method lookup by the instructions \<^verbatim>\<open>GETPUBMET\<close> and \<^verbatim>\<open>GETDYNMET\<close> of
  \<^verbatim>\<open>interp.c\<close> and the functions of \<^verbatim>\<open>obj.c\<close> that repeat their code. The binary
  search ends on every table with an odd last index and finds a label that is
  there; the inline cache in the code can only shortcut to the same method.
\<close>

section \<open>The functions of \<^verbatim>\<open>obj.c\<close>\<close>

definition caml_get_public_method :: "memory \<Rightarrow> mlvalue \<Rightarrow> mlvalue \<Rightarrow> mlvalue option" where
  "caml_get_public_method m obj tag =
     (let meths = Field m obj 0
      in map_option (\<lambda>li. if tag = FieldZ m meths li then FieldZ m meths (li - 1) else 0) (find_method m meths tag))"

text \<open>The cache is returned beside the method.\<close>

definition caml_cache_public_method :: "memory \<Rightarrow> mlvalue \<Rightarrow> mlvalue \<Rightarrow> (mlvalue \<times> mlvalue) option" where
  "caml_cache_public_method m meths tag =
     map_option (\<lambda>li. (FieldZ m meths (li - 1), word_of_int ((li - 3) * 8))) (find_method m meths tag)"

definition caml_cache_public_method2 :: "memory \<Rightarrow> mlvalue \<Rightarrow> mlvalue \<Rightarrow> mlvalue \<Rightarrow> (mlvalue \<times> mlvalue) option" where
  "caml_cache_public_method2 m meths tag cache =
     (let ofs = cache AND Field m meths 1
      in if m (Op_val (meths + 3 * 8 + ofs)) = tag then Some (m (Op_val (meths + 2 * 8 + ofs)), cache)
         else map_option (\<lambda>li. (FieldZ m meths (li - 1), word_of_int ((li - 3) * 8))) (find_method m meths tag))"

section \<open>Binary search\<close>

lemma search_middle:
  assumes "odd li" and "odd hi" and "li < (hi :: int)"
  shows "odd (drop_bit 1 (li + hi) OR 1)" "li < drop_bit 1 (li + hi) OR 1" "drop_bit 1 (li + hi) OR 1 \<le> hi"
proof -
  obtain a b where ab: "li = 2 * a + 1" "hi = 2 * b + 1" using assms by (meson oddE)
  have "drop_bit 1 (li + hi) = a + b + 1" by (simp add: ab drop_bit_eq_div)
  then have mi: "drop_bit 1 (li + hi) OR 1 = a + b + 1 + of_bool (even (a + b + 1))" by (simp only: or_one_eq)
  then show "odd (drop_bit 1 (li + hi) OR 1)" by simp
  have "even (a + b + 1) \<Longrightarrow> a + b + 1 \<noteq> 2 * b + 1" by presburger
  then show "li < drop_bit 1 (li + hi) OR 1" "drop_bit 1 (li + hi) OR 1 \<le> hi"
    unfolding mi using ab assms(3) by (cases "even (a + b + 1)"; simp)+
qed

definition labels_sorted :: "(int \<Rightarrow> mlvalue) \<Rightarrow> int \<Rightarrow> int \<Rightarrow> bool" where
  "labels_sorted tbl lo hi \<longleftrightarrow>
     (\<forall>i j. odd i \<and> odd j \<and> lo \<le> i \<and> i < j \<and> j \<le> hi \<longrightarrow> sint (tbl i) < sint (tbl j))"

lemma labels_sortedD:
  "labels_sorted tbl lo hi \<Longrightarrow> odd i \<Longrightarrow> odd j \<Longrightarrow> lo \<le> i \<Longrightarrow> i < j \<Longrightarrow> j \<le> hi \<Longrightarrow> sint (tbl i) < sint (tbl j)"
  by (simp add: labels_sorted_def)

lemma method_search_step:
  assumes "odd li" and "odd hi" and "li < hi"
  obtains mi where "odd mi" "li \<le> mi - 2" "mi \<le> hi"
    "method_search tbl tag li hi =
       (if sint tag < sint (tbl mi) then method_search tbl tag li (mi - 2) else method_search tbl tag mi hi)"
proof
  let ?mi = "drop_bit 1 (li + hi) OR 1"
  show "odd ?mi" "?mi \<le> hi" using search_middle [OF assms] by blast+
  show "li \<le> ?mi - 2" using search_middle(1,2) [OF assms] assms(1) by presburger
  show "method_search tbl tag li hi =
    (if sint tag < sint (tbl ?mi) then method_search tbl tag li (?mi - 2) else method_search tbl tag ?mi hi)"
    using assms(3) by (subst method_search.simps) (simp only: if_True Let_def)
qed

lemma method_search_returns:
  assumes "odd li" and "odd hi" and "li \<le> hi"
  shows "\<exists>k. method_search tbl tag li hi = Some k \<and> odd k \<and> li \<le> k \<and> k \<le> hi"
  using assms
proof (induction "nat (hi - li)" arbitrary: li hi rule: less_induct)
  case less
  show ?case
  proof (cases "li < hi")
    case False
    then show ?thesis using less.prems by (subst method_search.simps) auto
  next
    case True
    obtain mi where mi: "odd mi" "li \<le> mi - 2" "mi \<le> hi"
      "method_search tbl tag li hi =
        (if sint tag < sint (tbl mi) then method_search tbl tag li (mi - 2) else method_search tbl tag mi hi)"
      by (rule method_search_step [OF less.prems(1,2) True])
    have "\<exists>k. method_search tbl tag li (mi - 2) = Some k \<and> odd k \<and> li \<le> k \<and> k \<le> mi - 2"
      using mi less.prems by (intro less.hyps) simp_all
    moreover have "\<exists>k. method_search tbl tag mi hi = Some k \<and> odd k \<and> mi \<le> k \<and> k \<le> hi"
      using mi less.prems by (intro less.hyps) simp_all
    ultimately show ?thesis unfolding mi(4) using mi(2,3) by (cases "sint tag < sint (tbl mi)") fastforce+
  qed
qed

lemma method_search_finds:
  assumes "labels_sorted tbl li hi" and "odd li" and "odd hi" and "odd i" and "li \<le> i" and "i \<le> hi" and "tbl i = tag"
  shows "method_search tbl tag li hi = Some i"
  using assms
proof (induction "nat (hi - li)" arbitrary: li hi rule: less_induct)
  case less
  show ?case
  proof (cases "li < hi")
    case False
    then show ?thesis using less.prems by (subst method_search.simps) simp
  next
    case True
    obtain mi where mi: "odd mi" "li \<le> mi - 2" "mi \<le> hi"
      "method_search tbl tag li hi =
        (if sint tag < sint (tbl mi) then method_search tbl tag li (mi - 2) else method_search tbl tag mi hi)"
      by (rule method_search_step [OF less.prems(2,3) True])
    have sorted: "labels_sorted tbl li (mi - 2)" "labels_sorted tbl mi hi"
      using less.prems(1) mi(2,3) unfolding labels_sorted_def by auto
    show ?thesis
    proof (cases "sint tag < sint (tbl mi)")
      case lt: True
      have "\<not> mi \<le> i"
      proof
        assume "mi \<le> i"
        then have "sint (tbl mi) \<le> sint (tbl i)"
          using less.prems mi unfolding labels_sorted_def by (cases "mi = i") force+
        then show False using lt less.prems(7) by simp
      qed
      then have "i \<le> mi - 2" using less.prems(4) mi(1) by presburger
      then have "method_search tbl tag li (mi - 2) = Some i"
        using mi less.prems sorted by (intro less.hyps) simp_all
      then show ?thesis unfolding mi(4) using lt by simp
    next
      case ge: False
      have "mi \<le> i"
      proof (rule ccontr)
        assume "\<not> mi \<le> i"
        then have "sint (tbl i) < sint (tbl mi)"
          using less.prems mi unfolding labels_sorted_def by auto
        then show False using ge less.prems(7) by simp
      qed
      then have "method_search tbl tag mi hi = Some i"
        using mi less.prems sorted by (intro less.hyps) simp_all
      then show ?thesis unfolding mi(4) using ge by simp
    qed
  qed
qed

section \<open>Method tables and the inline cache\<close>

text \<open>
  A table as \<^verbatim>\<open>camlinternalOO.ml\<close> builds it: \<open>n\<close> methods, sorted by label, in an
  array padded to \<open>2 ^ e\<close> entries; word 1 is the mask for cached offsets.
\<close>

definition method_table :: "memory \<Rightarrow> mlvalue \<Rightarrow> nat \<Rightarrow> nat \<Rightarrow> bool" where
  "method_table m meths n e \<longleftrightarrow>
     8 dvd unat meths \<and> unat meths + 16 * 2 ^ e + 32 < 2 ^ 64 \<and> e \<le> 26 \<and> 0 < n \<and> n \<le> 2 ^ e
     \<and> Field m meths 0 = of_nat (2 * n + 1) \<and> Field m meths 1 = mask (e + 4)
     \<and> labels_sorted (FieldZ m meths) 3 (2 * int n + 1)"

text \<open>The label \<open>tag\<close> is that of the method at index \<open>k\<close>, and of no padding entry.\<close>

definition has_method :: "memory \<Rightarrow> mlvalue \<Rightarrow> nat \<Rightarrow> nat \<Rightarrow> mlvalue \<Rightarrow> nat \<Rightarrow> bool" where
  "has_method m meths n e tag k \<longleftrightarrow>
     odd k \<and> 3 \<le> k \<and> k \<le> 2 * n + 1 \<and> Field m meths k = tag
     \<and> (\<forall>j. odd j \<and> 2 * n + 1 < j \<and> j \<le> 2 * 2 ^ e + 1 \<longrightarrow> Field m meths j \<noteq> tag)"

lemma FieldZ_int [simp]: "FieldZ m v (int i) = Field m v i"
  by (simp add: FieldZ_def Field_def)

lemma ucast_of_nat_32: "(ucast (of_nat x :: u64) :: u32) = of_nat x"
  by (rule bit_word_eqI) (simp add: bit_unsigned_iff bit_of_nat_iff)

lemma method_table_last:
  assumes "method_table m meths n e"
  shows "sint (ucast (Field m meths 0) :: u32) = 2 * int n + 1"
proof -
  have n: "n \<le> 2 ^ 26" using assms power_increasing [of e 26 "2 :: nat"] unfolding method_table_def by linarith
  have "(ucast (of_nat (2 * n + 1) :: u64) :: u32) = of_nat (2 * n + 1)" by (rule ucast_of_nat_32)
  also have "\<dots> = word_of_int (2 * int n + 1)" by simp
  finally have "sint (ucast (of_nat (2 * n + 1) :: u64) :: u32) = 2 * int n + 1"
    using n by (simp only: sint_sbintrunc') (simp add: signed_take_bit_int_eq_self)
  then show ?thesis using assms unfolding method_table_def by simp
qed

lemma find_method_returns:
  assumes "method_table m meths n e"
  shows "\<exists>k. find_method m meths tag = Some k \<and> odd k \<and> 3 \<le> k \<and> k \<le> 2 * int n + 1"
proof -
  have "0 < n" using assms unfolding method_table_def by simp
  then show ?thesis
    unfolding find_method_def method_table_last [OF assms] by (intro method_search_returns) simp_all
qed

lemma find_method_label:
  assumes "method_table m meths n e" and "has_method m meths n e tag k"
  shows "find_method m meths tag = Some (int k)"
  unfolding find_method_def method_table_last [OF assms(1)]
  using assms unfolding method_table_def has_method_def by (auto intro!: method_search_finds)

lemma cached_offset:
  assumes "method_table m meths n e" and "16 dvd unat (c :: u32)"
  obtains q where "q < 2 ^ e" "Op_val (meths + 3 * 8 + (scast c AND Field m meths 1)) = Op_val meths + (2 * q + 3)"
    "Op_val (meths + 2 * 8 + (scast c AND Field m meths 1)) = Op_val meths + (2 * q + 2)"
proof -
  let ?ofs = "scast c AND Field m meths 1 :: u64"
  have e: "e \<le> 26" and mask: "Field m meths 1 = mask (e + 4)"
    and room: "unat meths + 16 * 2 ^ e + 32 < 2 ^ 64" and al: "8 dvd unat meths"
    using assms(1) unfolding method_table_def by simp_all
  have "?ofs = take_bit (e + 4) (ucast c)"
    unfolding mask take_bit_eq_mask [symmetric]
    by (rule bit_word_eqI) (use e in \<open>auto simp: bit_take_bit_iff bit_signed_iff bit_unsigned_iff\<close>)
  then have ofs: "unat ?ofs = unat c mod 2 ^ (e + 4)"
    by (simp only: unsigned_take_bit_eq unat_ucast_32_64) (simp only: take_bit_eq_mod)
  have "16 dvd (2 :: nat) ^ (e + 4)" by (simp add: power_add)
  then have "16 dvd unat ?ofs" unfolding ofs using assms(2) by (simp add: dvd_mod)
  then obtain q where q: "unat ?ofs = 16 * q" by (elim dvdE)
  have "2 ^ (e + 4) = 16 * (2 :: nat) ^ e" by (simp add: power_add)
  then have "unat ?ofs < 16 * 2 ^ e" unfolding ofs using mod_less_divisor [of "2 ^ (e + 4)" "unat c"] by simp
  then have q_lt: "q < 2 ^ e" unfolding q by simp
  obtain b where b: "unat meths = 8 * b" using al by (elim dvdE)
  have "unat (meths + 3 * 8 + ?ofs) = 8 * b + 24 + 16 * q" "unat (meths + 2 * 8 + ?ofs) = 8 * b + 16 + 16 * q"
    using room q q_lt b by (simp_all add: unat_add_u64)
  then show ?thesis using b q_lt by (intro that [of q]) (simp_all add: Op_val_def)
qed

lemma cache_hit_is_label:
  assumes "method_table m meths n e" and "has_method m meths n e tag k"
    and "q < 2 ^ e" and "Field m meths (2 * q + 3) = tag"
  shows "2 * q + 3 = k"
proof (rule ccontr)
  assume ne: "2 * q + 3 \<noteq> k"
  have le: "2 * q + 3 \<le> 2 * n + 1"
  proof (rule ccontr)
    assume "\<not> 2 * q + 3 \<le> 2 * n + 1"
    then have "Field m meths (2 * q + 3) \<noteq> tag"
      using assms(2,3) unfolding has_method_def by (auto dest: spec [of _ "2 * q + 3"])
    then show False using assms(4) by simp
  qed
  have "Field m meths k = tag" "odd k" "3 \<le> k" "k \<le> 2 * n + 1" using assms(2) unfolding has_method_def by simp_all
  moreover have "sint (Field m meths i) < sint (Field m meths j)"
    if "odd i" "odd j" "3 \<le> i" "i < j" "j \<le> 2 * n + 1" for i j
  proof -
    have "labels_sorted (FieldZ m meths) 3 (2 * int n + 1)" using assms(1) unfolding method_table_def by simp
    then have "sint (FieldZ m meths (int i)) < sint (FieldZ m meths (int j))"
      by (rule labels_sortedD) (use that in simp_all)
    then show ?thesis by simp
  qed
  from this [of k "2 * q + 3"] this [of "2 * q + 3" k]
  show False using ne le calculation assms(4) by (cases "k < 2 * q + 3") auto
qed

lemma new_cache_aligned:
  assumes "odd k" and "3 \<le> k"
  shows "16 dvd unat (word_of_int ((int k - 3) * 8) :: u32)"
proof -
  obtain a where "k = 2 * a + 1" using assms(1) by (elim oddE)
  then have "k = 2 * (a - 1) + 3" using assms(2) by linarith
  then obtain j where "k = 2 * j + 3" by blast
  then have "(int k - 3) * 8 = int (16 * j)" by simp
  then have "unat (word_of_int ((int k - 3) * 8) :: u32) = 16 * j mod 2 ^ 32"
    by (simp only: of_int_of_nat_eq unsigned_of_nat take_bit_eq_mod) simp
  then show ?thesis by (simp add: dvd_mod)
qed

lemma step_GETPUBMET:
  assumes "code s (pc s) = GETPUBMET"
  shows "step rt s =
     (let m = (mem s)(sp s - 1 := accu s); meths = Field (mem s) (accu s) 0;
          tag = Val_int (code s (pc s + 1)); ofs = scast (code s (pc s + 2)) AND Field m meths 1
      in if m (Op_val (meths + 3 * 8 + ofs)) = tag
         then Some (Next (s\<lparr>pc := pc s + 3, sp := sp s - 1, mem := m, accu := m (Op_val (meths + 2 * 8 + ofs))\<rparr>))
         else case find_method m meths tag of None \<Rightarrow> None
              | Some li \<Rightarrow> Some (Next (s\<lparr>pc := pc s + 3, sp := sp s - 1, mem := m,
                  code := (code s)(pc s + 2 := word_of_int ((li - 3) * 8)), accu := FieldZ m meths (li - 1)\<rparr>)))"
  using assms
  by (simp add: step_def dispatch_instr_def exec_GETPUBMET_def push_def Let_def numeral_3_eq_3 split: option.split)

section \<open>Properties\<close>

text \<open>
  C29: \<^verbatim>\<open>GETPUBMET\<close> finds the method with the label in the instruction
  whatever the inline cache holds, as long as the cache is a multiple of the
  entry size; it leaves the receiver on the stack, changes no code but the
  cache, and leaves the cache in the same shape for the next execution.
\<close>
theorem GETPUBMET_correct:
  assumes "code s (pc s) = GETPUBMET" and "meths = Field (mem s) (accu s) 0"
    and "method_table (mem s) meths n e"
    and "has_method (mem s) meths n e (Val_int (code s (pc s + 1))) k"
    and "16 dvd unat (code s (pc s + 2))"
    and "sp s - 1 < Op_val meths \<or> Op_val meths + 2 * 2 ^ e + 2 \<le> sp s - 1"
  shows "\<exists>s'. step rt s = Some (Next s') \<and> accu s' = Field (mem s) meths (k - 1)
    \<and> pc s' = pc s + 3 \<and> sp s' = sp s - 1 \<and> mem s' = (mem s)(sp s - 1 := accu s)
    \<and> 16 dvd unat (code s' (pc s + 2)) \<and> (\<forall>p. p \<noteq> pc s + 2 \<longrightarrow> code s' p = code s p)"
proof -
  let ?m = "(mem s)(sp s - 1 := accu s)" and ?tag = "Val_int (code s (pc s + 1))"
  have same: "Field ?m meths i = Field (mem s) meths i" if "i \<le> 2 * 2 ^ e + 1" for i
    using assms(6) that by (auto simp: Field_def)
  have k: "odd k" "3 \<le> k" "k \<le> 2 * n + 1" "n \<le> 2 ^ e"
    using assms(3,4) unfolding has_method_def method_table_def by simp_all
  have "labels_sorted (FieldZ ?m meths) 3 (2 * int n + 1)"
    unfolding labels_sorted_def
  proof (intro allI impI, elim conjE)
    fix i j :: int
    assume ij: "odd i" "odd j" "3 \<le> i" "i < j" "j \<le> 2 * int n + 1"
    then have "FieldZ ?m meths i = FieldZ (mem s) meths i" "FieldZ ?m meths j = FieldZ (mem s) meths j"
      using same [of "nat i"] same [of "nat j"] k(4) FieldZ_int [of _ meths "nat i"] FieldZ_int [of _ meths "nat j"] by simp_all
    then show "sint (FieldZ ?m meths i) < sint (FieldZ ?m meths j)"
      using assms(3) ij unfolding method_table_def labels_sorted_def by simp
  qed
  then have tbl: "method_table ?m meths n e" and has: "has_method ?m meths n e ?tag k"
    using assms(3,4) same k unfolding method_table_def has_method_def by auto
  obtain q where q: "q < 2 ^ e"
    "Op_val (meths + 3 * 8 + (scast (code s (pc s + 2)) AND Field ?m meths 1)) = Op_val meths + (2 * q + 3)"
    "Op_val (meths + 2 * 8 + (scast (code s (pc s + 2)) AND Field ?m meths 1)) = Op_val meths + (2 * q + 2)"
    using cached_offset [OF tbl assms(5)] by blast
  have prev: "FieldZ ?m meths (int k - 1) = Field (mem s) meths (k - 1)"
    using same [of "k - 1"] k FieldZ_int [of ?m meths "k - 1"] by (simp add: of_nat_diff)
  note step = step_GETPUBMET [OF assms(1), of rt, unfolded Let_def assms(2) [symmetric] q(2,3)]
  show ?thesis
  proof (cases "Field ?m meths (2 * q + 3) = ?tag")
    case True
    then have "2 * q + 3 = k" by (rule cache_hit_is_label [OF tbl has q(1)])
    then have "Field ?m meths (2 * q + 2) = Field (mem s) meths (k - 1)"
      using same [of "2 * q + 2"] q(1) by auto
    then show ?thesis using True assms(5) unfolding step Field_def by simp
  next
    case False
    then show ?thesis
      using new_cache_aligned [OF k(1,2)] prev find_method_label [OF tbl has] unfolding step Field_def by simp
  qed
qed

text \<open>A small table: labels 3 and 9 with methods at 4000 and 5000.\<close>

definition example_methods :: memory where
  "example_methods = (\<lambda>_. 0)(200 := 800, 100 := 5, 101 := 31, 102 := 4000, 103 := Val_int 3, 104 := 5000, 105 := Val_int 9)"

lemma labels_sorted_two: "sint (tbl 3) < sint (tbl 5) \<Longrightarrow> labels_sorted tbl 3 5"
  unfolding labels_sorted_def
proof (intro allI impI, elim conjE)
  fix i j :: int
  assume "sint (tbl 3) < sint (tbl 5)" "odd i" "odd j" "3 \<le> i" "i < j" "j \<le> 5"
  moreover from this have "i = 3" "j = 5" by presburger+
  ultimately show "sint (tbl i) < sint (tbl j)" by simp
qed

lemma example_table: "method_table example_methods 800 2 1"
  unfolding method_table_def
  by (auto simp: Field_def Op_val_def example_methods_def FieldZ_def Val_int_def Val_long_def mask_eq_exp_minus_1
      intro!: labels_sorted_two)

lemma example_has_method: "has_method example_methods 800 2 1 (Val_int 9) 5"
  unfolding has_method_def by (auto simp: Field_def Op_val_def example_methods_def)

theorem GETPUBMET_correct_witness:
  "let s = (initial_machine 10 ((blank_ctxt example_methods)\<lparr>caml_extern_sp := 1000,
              code := (\<lambda>_. 0)(10 := GETPUBMET, 11 := 9)\<rparr>))\<lparr>accu := 1600\<rparr>
   in \<exists>s'. step (blank_runtime 0) s = Some (Next s') \<and> accu s' = Field (mem s) 800 (5 - 1)
    \<and> pc s' = pc s + 3 \<and> sp s' = sp s - 1 \<and> mem s' = (mem s)(sp s - 1 := accu s)
    \<and> 16 dvd unat (code s' (pc s + 2)) \<and> (\<forall>p. p \<noteq> pc s + 2 \<longrightarrow> code s' p = code s p)"
  unfolding Let_def
  by (rule GETPUBMET_correct [where n = 2 and e = 1])
    (simp_all add: initial_machine_def blank_ctxt_def ctxt.extend_def example_table [unfolded One_nat_def] example_has_method [unfolded One_nat_def],
     simp_all add: Field_def Op_val_def example_methods_def)

text \<open>
  \<^verbatim>\<open>caml_get_public_method\<close> returns on every class table: the method of the
  given label when the table has it, and 0 when no entry has that label.
\<close>
lemma caml_get_public_method_correct:
  assumes "method_table m (Field m obj 0) n e"
  shows "(has_method m (Field m obj 0) n e tag k \<longrightarrow>
      caml_get_public_method m obj tag = Some (Field m (Field m obj 0) (k - 1)))
    \<and> ((\<forall>j. odd j \<and> 3 \<le> j \<and> j \<le> 2 * n + 1 \<longrightarrow> Field m (Field m obj 0) j \<noteq> tag) \<longrightarrow>
      caml_get_public_method m obj tag = Some 0)"
proof (intro conjI impI)
  assume has: "has_method m (Field m obj 0) n e tag k"
  then have k: "3 \<le> k" "Field m (Field m obj 0) k = tag" unfolding has_method_def by simp_all
  then have "FieldZ m (Field m obj 0) (int k - 1) = Field m (Field m obj 0) (k - 1)"
    using FieldZ_int [of m "Field m obj 0" "k - 1"] by (simp add: of_nat_diff)
  then show "caml_get_public_method m obj tag = Some (Field m (Field m obj 0) (k - 1))"
    using k find_method_label [OF assms has] by (simp add: caml_get_public_method_def)
next
  assume none: "\<forall>j. odd j \<and> 3 \<le> j \<and> j \<le> 2 * n + 1 \<longrightarrow> Field m (Field m obj 0) j \<noteq> tag"
  obtain k where k: "find_method m (Field m obj 0) tag = Some k" "odd k" "3 \<le> k" "k \<le> 2 * int n + 1"
    using find_method_returns [OF assms] by blast
  have "FieldZ m (Field m obj 0) k \<noteq> tag"
  proof -
    have "3 \<le> nat k" "nat k \<le> 2 * n + 1" "odd (nat k)" using k(2-4) by (auto simp: even_nat_iff)
    then have "Field m (Field m obj 0) (nat k) \<noteq> tag" using none by blast
    then show ?thesis using FieldZ_int [of m "Field m obj 0" "nat k"] k(3) by simp
  qed
  then show "caml_get_public_method m obj tag = Some 0"
    using k by (simp add: caml_get_public_method_def)
qed

end
