(* ===== verification/Interp_Refine.thy ===== *)
theory Interp_Refine
  imports Interp
begin

text \<open>
  An abstract machine for the instructions that only use registers, stack and
  code: the stack is a list of values, top first, instead of a region of
  memory that grows downward. The concrete machine of \<^verbatim>\<open>interp.c\<close> simulates it
  step by step as long as the stack has the headroom that \<^verbatim>\<open>check_stacks\<close>
  maintains and no signal is pending.
\<close>

section \<open>The abstract machine\<close>

record zam =
  zpc :: nat
  zaccu :: mlvalue
  zenv :: mlvalue
  zextra :: u64
  zstack :: "mlvalue list"

definition zpop :: "nat \<Rightarrow> zam \<Rightarrow> (mlvalue list \<Rightarrow> zam \<Rightarrow> zam) \<Rightarrow> zam option" where
  "zpop n z f = (if n \<le> length (zstack z)
     then Some (f (take n (zstack z)) (z\<lparr>zstack := drop n (zstack z)\<rparr>)) else None)"

definition zacc :: "nat \<Rightarrow> zam \<Rightarrow> zam option" where
  "zacc n z = (if n < length (zstack z) then Some (z\<lparr>zaccu := zstack z ! n\<rparr>) else None)"

definition zpush :: "mlvalue list \<Rightarrow> zam \<Rightarrow> zam" where
  "zpush vs z = z\<lparr>zstack := vs @ zstack z\<rparr>"

definition zframe :: "zam \<Rightarrow> mlvalue list" where
  "zframe z = [val_of_code (zpc z), zenv z, Val_long (zextra z)]"

definition zenter :: "(mlvalue \<Rightarrow> nat) \<Rightarrow> u64 \<Rightarrow> zam \<Rightarrow> zam" where
  "zenter clos n z = z\<lparr>zpc := clos (zaccu z), zenv := zaccu z, zextra := n\<rparr>"

definition zapply :: "(mlvalue \<Rightarrow> nat) \<Rightarrow> nat \<Rightarrow> zam \<Rightarrow> zam option" where
  "zapply clos n z = zpop n z (\<lambda>args z'. zenter clos (of_nat (n - 1)) (zpush (args @ zframe z') z'))"

definition zappterm :: "(mlvalue \<Rightarrow> nat) \<Rightarrow> nat \<Rightarrow> int \<Rightarrow> zam \<Rightarrow> zam option" where
  "zappterm clos n slot z =
     (if int n \<le> slot \<and> slot \<le> int (length (zstack z))
      then Some (zenter clos (zextra z + of_nat n - 1)
             (z\<lparr>zstack := take n (zstack z) @ drop (nat slot) (zstack z)\<rparr>))
      else None)"

definition zreturn :: "(mlvalue \<Rightarrow> nat) \<Rightarrow> int \<Rightarrow> zam \<Rightarrow> zam option" where
  "zreturn clos n z =
     (if 0 \<le> n \<and> n + 3 \<le> int (length (zstack z)) then
        let st = drop (nat n) (zstack z)
        in Some (if sint (zextra z) > 0 then zenter clos (zextra z - 1) (z\<lparr>zstack := st\<rparr>)
                 else z\<lparr>zpc := code_of_val (st ! 0), zenv := st ! 1, zextra := Long_val (st ! 2), zstack := drop 3 st\<rparr>)
      else None)"

text \<open>One instruction; the program counter is already past the opcode.\<close>

definition zexec :: "(nat \<Rightarrow> u32) \<Rightarrow> (mlvalue \<Rightarrow> nat) \<Rightarrow> u32 \<Rightarrow> zam \<Rightarrow> zam option" where
  "zexec cd clos op z =
     (let arg = sint (cd (zpc z)); z1 = z\<lparr>zpc := zpc z + 1\<rparr>; pushed = zpush [zaccu z]
      in if op \<le> ACC7 then zacc (unat op) z
         else if op = ACC then (if 0 \<le> arg then zacc (nat arg) z1 else None)
         else if op = PUSH then Some (pushed z)
         else if op \<le> PUSHACC7 then zacc (unat (op - PUSHACC0)) (pushed z)
         else if op = PUSHACC then (if 0 \<le> arg then zacc (nat arg) (pushed z1) else None)
         else if op = POP then (if 0 \<le> arg then zpop (nat arg) z1 (\<lambda>_ z'. z') else None)
         else if op = ASSIGN then
           (if 0 \<le> arg \<and> nat arg < length (zstack z)
            then Some (z1\<lparr>zstack := (zstack z)[nat arg := zaccu z], zaccu := Val_unit\<rparr>) else None)
         else if op = PUSH_RETADDR then
           Some (z1\<lparr>zstack := [val_of_code (ptr_off (zpc z) arg), zenv z, Val_long (zextra z)] @ zstack z\<rparr>)
         else if op = APPLY then Some (zenter clos (scast (cd (zpc z) - 1)) z)
         else if op = APPLY1 then zapply clos 1 z
         else if op = APPLY2 then zapply clos 2 z
         else if op = APPLY3 then zapply clos 3 z
         else if op = APPTERM then (if 1 \<le> arg then zappterm clos (nat arg) (sint (cd (zpc z + 1))) z else None)
         else if op = APPTERM1 then zappterm clos 1 arg z
         else if op = APPTERM2 then zappterm clos 2 arg z
         else if op = APPTERM3 then zappterm clos 3 arg z
         else if op = RETURN then zreturn clos arg z1
         else if op = BRANCH then Some (z\<lparr>zpc := ptr_off (zpc z) arg\<rparr>)
         else if op = BRANCHIF then Some (if zaccu z \<noteq> Val_false then z\<lparr>zpc := ptr_off (zpc z) arg\<rparr> else z1)
         else if op = BRANCHIFNOT then Some (if zaccu z = Val_false then z\<lparr>zpc := ptr_off (zpc z) arg\<rparr> else z1)
         else if op = BOOLNOT then Some (z\<lparr>zaccu := Val_not (zaccu z)\<rparr>)
         else if CONST0 \<le> op \<and> op \<le> CONST3 then Some (z\<lparr>zaccu := Val_int (op - CONST0)\<rparr>)
         else if op = CONSTINT then Some (z1\<lparr>zaccu := Val_int (cd (zpc z))\<rparr>)
         else if PUSHCONST0 \<le> op \<and> op \<le> PUSHCONST3 then Some ((pushed z)\<lparr>zaccu := Val_int (op - PUSHCONST0)\<rparr>)
         else if op = PUSHCONSTINT then Some ((pushed z1)\<lparr>zaccu := Val_int (cd (zpc z))\<rparr>)
         else None)"

definition zstep :: "(nat \<Rightarrow> u32) \<Rightarrow> (mlvalue \<Rightarrow> nat) \<Rightarrow> zam \<Rightarrow> zam option" where
  "zstep cd clos z = zexec cd clos (cd (zpc z)) (z\<lparr>zpc := zpc z + 1\<rparr>)"

section \<open>Abstraction\<close>

definition stack_of :: "machine \<Rightarrow> mlvalue list" where
  "stack_of s = map (mem s) [sp s..<caml_stack_high s]"

definition zam_of :: "machine \<Rightarrow> zam" where
  "zam_of s = \<lparr>zpc = pc s, zaccu = accu s, zenv = env s, zextra = extra_args s, zstack = stack_of s\<rparr>"

text \<open>Headroom, no pending signal, and the closure in the accumulator outside the free part of the stack.\<close>

definition steady :: "machine \<Rightarrow> bool" where
  "steady s \<longleftrightarrow> caml_stack_threshold s + 6 \<le> sp s \<and> sp s \<le> caml_stack_high s \<and> \<not> caml_something_to_do s
     \<and> (Op_val (accu s) < caml_stack_threshold s \<or> caml_stack_high s \<le> Op_val (accu s))"

lemma length_stack_of [simp]: "length (stack_of s) = caml_stack_high s - sp s"
  by (simp add: stack_of_def)

lemma nth_stack_of: "i < caml_stack_high s - sp s \<Longrightarrow> stack_of s ! i = stk s i"
  by (simp add: stack_of_def)

lemma drop_stack_of: "drop n (stack_of s) = map (mem s) [sp s + n..<caml_stack_high s]"
  by (simp add: stack_of_def drop_map)

lemma take_stack_of: "sp s + n \<le> caml_stack_high s \<Longrightarrow> take n (stack_of s) = map (mem s) [sp s..<sp s + n]"
  by (simp add: stack_of_def take_map)

lemma stack_of_push:
  "0 < sp s \<Longrightarrow> sp s \<le> caml_stack_high s \<Longrightarrow> stack_of (push v s) = v # stack_of s"
  by (auto simp: stack_of_def push_def upt_conv_Cons)

lemma list_of_words:
  "[p..<p + 1] = [p]" "[p..<p + 2] = [p, p + 1]" "[p..<p + 3] = [p, p + 1, p + 2]"
  by (simp_all add: upt_conv_Cons numeral_2_eq_2 numeral_3_eq_3)

section \<open>Simulation\<close>

lemma word_le_7:
  assumes "(w :: u32) \<le> 7"
  obtains "w = 0" | "w = 1" | "w = 2" | "w = 3" | "w = 4" | "w = 5" | "w = 6" | "w = 7"
proof -
  have "unat w \<le> 7" using assms by (simp add: word_le_nat_alt)
  then have "unat w \<in> {0, 1, 2, 3, 4, 5, 6, 7}" by auto
  then show thesis by (auto simp: word_unat_eq_iff intro: that)
qed

lemma exec_ACC: "op \<le> ACC7 \<Longrightarrow> exec_stack op s = Next (set_accu (stk s (unat op)) s)"
  by (erule word_le_7) (simp_all add: exec_stack_def)

lemma exec_PUSHACC:
  assumes "PUSHACC0 \<le> op" and "op \<le> PUSHACC7" and "0 < sp s"
  shows "exec_stack op s = Next (set_accu (stk (push (accu s) s) (unat (op - PUSHACC0))) (push (accu s) s))"
proof -
  have "unat (op - PUSHACC0) = unat op - 10" using unat_sub [OF assms(1)] by simp
  moreover have "unat op \<le> 17" using assms(2) by (simp add: word_le_nat_alt)
  ultimately have "op - PUSHACC0 \<le> 7" by (simp add: word_le_nat_alt)
  then consider "op - PUSHACC0 = 0" | "op - PUSHACC0 = 1" | "op - PUSHACC0 = 2" | "op - PUSHACC0 = 3"
    | "op - PUSHACC0 = 4" | "op - PUSHACC0 = 5" | "op - PUSHACC0 = 6" | "op - PUSHACC0 = 7" by (rule word_le_7)
  then show ?thesis
    by cases (simp_all add: exec_stack_def diff_eq_eq push_def)
qed

lemma zam_of_simps [simp]:
  "zpc (zam_of s) = pc s" "zaccu (zam_of s) = accu s" "zenv (zam_of s) = env s"
  "zextra (zam_of s) = extra_args s" "zstack (zam_of s) = stack_of s"
  by (simp_all add: zam_of_def)

lemma zam_eqI:
  "zpc z = zpc z' \<Longrightarrow> zaccu z = zaccu z' \<Longrightarrow> zenv z = zenv z' \<Longrightarrow> zextra z = zextra z' \<Longrightarrow> zstack z = zstack z' \<Longrightarrow> z = (z' :: zam)"
  by simp

lemma steady_sp: "steady s \<Longrightarrow> 6 \<le> sp s \<and> sp s \<le> caml_stack_high s"
  by (simp add: steady_def)

lemma zacc_sim: "zacc n (zam_of s) = Some z \<Longrightarrow> z = zam_of (set_accu (stk s n) s)"
  by (auto simp: zacc_def zam_of_def stack_of_def split: if_splits)

lemma zpush_sim: "0 < sp s \<Longrightarrow> sp s \<le> caml_stack_high s \<Longrightarrow> zpush [v] (zam_of s) = zam_of (push v s)"
  by (auto simp: zpush_def zam_of_def stack_of_push) (simp_all add: push_def)

lemma skip_sim: "(zam_of s)\<lparr>zpc := zpc (zam_of s) + n\<rparr> = zam_of (skip n s)"
  by (simp add: zam_of_def stack_of_def)

lemma ptr_off_nonneg: "0 \<le> k \<Longrightarrow> ptr_off p k = p + nat k"
  by (simp add: ptr_off_def nat_add_distrib)

lemma stack_assign:
  assumes "i < caml_stack_high s - sp s"
  shows "stack_of (s\<lparr>mem := (mem s)(sp s + i := v)\<rparr>) = (stack_of s)[i := v]"
  using assms by (intro nth_equalityI) (auto simp: stack_of_def nth_list_update)

lemma stack_opcode_cases:
  assumes "op \<le> ASSIGN"
  obtains (acc) "op \<le> ACC7" | (ACC) "op = ACC" | (PUSH) "op = PUSH"
    | (pushacc) "PUSHACC0 \<le> op" "op \<le> PUSHACC7" | (PUSHACC) "op = PUSHACC" | (POP) "op = POP" | (ASSIGN) "op = ASSIGN"
proof -
  have "unat op \<le> 20" using assms by (simp add: word_le_nat_alt)
  then consider "unat op \<le> 7" | "unat op = 8" | "unat op = 9" | "10 \<le> unat op" "unat op \<le> 17"
    | "unat op = 18" | "unat op = 19" | "unat op = 20" by linarith
  then show thesis by cases (auto simp: word_le_nat_alt word_unat_eq_iff intro: that)
qed

lemma sim_stack:
  assumes "steady s" and "op \<le> ASSIGN" and "zexec (code s) clos op (zam_of s) = Some z"
  shows "\<exists>s'. dispatch_instr rt op s = Some (Next s') \<and> zam_of s' = z"
proof -
  have sp: "0 < sp s" "sp s \<le> caml_stack_high s" using steady_sp [OF assms(1)] by simp_all
  have d: "dispatch_instr rt op s = Some (exec_stack op s)" using assms(2) by (simp add: dispatch_instr_def)
  let ?arg = "sint (code s (pc s))"
  from assms(2) show ?thesis
  proof (cases rule: stack_opcode_cases)
    case acc
    then have "z = zam_of (set_accu (stk s (unat op)) s)" using assms(3) zacc_sim by (auto simp: zexec_def)
    then show ?thesis unfolding d using exec_ACC [OF acc] by auto
  next
    case ACC
    then have a: "0 \<le> ?arg" "zacc (nat ?arg) (zam_of (skip 1 s)) = Some z"
      using assms(3) skip_sim [of s 1] by (auto simp: zexec_def Let_def split: if_splits)
    from zacc_sim [OF a(2)] show ?thesis
      unfolding d using ACC a(1) by (simp add: exec_stack_def ptr_off_nonneg) (simp add: zam_of_def stack_of_def)
  next
    case PUSH
    then show ?thesis using assms(3) sp unfolding d by (simp add: zexec_def zpush_sim exec_stack_def)
  next
    case pushacc
    then have ne: "\<not> op \<le> ACC7" "op \<noteq> ACC" "op \<noteq> PUSH" by (auto simp: word_le_nat_alt word_unat_eq_iff)
    then have "zacc (unat (op - PUSHACC0)) (zam_of (push (accu s) s)) = Some z"
      using assms(3) pushacc sp by (simp add: zexec_def zpush_sim)
    then show ?thesis unfolding d using exec_PUSHACC [OF pushacc sp(1)] zacc_sim by auto
  next
    case PUSHACC
    then have a: "0 \<le> ?arg" "zacc (nat ?arg) (zpush [accu s] (zam_of (skip 1 s))) = Some z"
      using assms(3) skip_sim [of s 1] by (auto simp: zexec_def Let_def split: if_splits)
    then have "zacc (nat ?arg) (zam_of (push (accu s) (skip 1 s))) = Some z" using sp by (simp add: zpush_sim)
    then have "z = zam_of (set_accu (stk (push (accu s) (skip 1 s)) (nat ?arg)) (push (accu s) (skip 1 s)))"
      by (rule zacc_sim)
    then show ?thesis
      unfolding d using PUSHACC a(1) by (simp add: exec_stack_def ptr_off_nonneg push_def) (simp add: zam_of_def stack_of_def)
  next
    case POP
    then show ?thesis
      using assms(3) unfolding d
      by (auto simp: zexec_def Let_def zpop_def exec_stack_def ptr_off_nonneg drop_stack_of split: if_splits)
        (simp add: zam_of_def stack_of_def)
  next
    case ASSIGN
    then have a: "0 \<le> ?arg" "nat ?arg < caml_stack_high s - sp s"
      using assms(3) by (auto simp: zexec_def Let_def split: if_splits)
    then show ?thesis
      using assms(3) ASSIGN stack_assign [OF a(2)] unfolding d
      by (simp add: zexec_def Let_def exec_stack_def ptr_off_nonneg) (auto simp: zam_of_def stack_of_def)
  qed
qed

lemma check_stacks_steady:
  "caml_stack_threshold s \<le> sp s \<Longrightarrow> \<not> caml_something_to_do s \<Longrightarrow> check_stacks rt s = Some (Next s)"
  by (simp add: check_stacks_def check_signals_def)

lemma upt_split: "p + n \<le> h \<Longrightarrow> [p..<h] = [p..<p + n] @ [p + n..<h]"
  using upt_add_eq_append [of p "p + n" "h - (p + n)"] by simp

lemma list_of_words_more:
  "[p..<p + 4] = [p, p + 1, p + 2, p + 3]" "[p..<p + 5] = [p, p + 1, p + 2, p + 3, p + 4]"
  "[p..<p + 6] = [p, p + 1, p + 2, p + 3, p + 4, p + 5]"
  by (simp_all add: upt_conv_Cons eval_nat_numeral)

lemma Code_val_upd: "q \<noteq> Op_val v \<Longrightarrow> Code_val (m(q := w)) v = Code_val m v"
  by (simp add: Code_val_def Field_def)

lemmas zam_defs = zam_of_def stack_of_def enter_closure_def zapply_def zappterm_def zreturn_def zpop_def zenter_def
  zpush_def zframe_def

lemma steady_split:
  assumes "steady s" and "n \<le> length (stack_of s)"
  obtains p where "sp s = p + 3" "p + n + 3 \<le> caml_stack_high s" "caml_stack_threshold s \<le> p"
    "\<forall>q. p \<le> q \<and> q < caml_stack_high s \<longrightarrow> q \<noteq> Op_val (accu s)"
proof (rule that [of "sp s - 3"])
  show "sp s = sp s - 3 + 3" "sp s - 3 + n + 3 \<le> caml_stack_high s" "caml_stack_threshold s \<le> sp s - 3"
    using assms by (auto simp: steady_def)
  show "\<forall>q. sp s - 3 \<le> q \<and> q < caml_stack_high s \<longrightarrow> q \<noteq> Op_val (accu s)"
    using assms(1) by (auto simp: steady_def)
qed

lemma zapply_length: "zapply clos n (zam_of s) = Some z \<Longrightarrow> n \<le> length (stack_of s)"
  by (simp add: zapply_def zpop_def split: if_splits)

lemma zapply1_sim:
  assumes "steady s" and "zapply (Code_val (mem s)) 1 (zam_of s) = Some z"
  shows "zam_of (exec_APPLY1 s) = z"
proof -
  obtain p where p: "sp s = p + 3" "p + 1 + 3 \<le> caml_stack_high s" "caml_stack_threshold s \<le> p"
    "\<forall>q. p \<le> q \<and> q < caml_stack_high s \<longrightarrow> q \<noteq> Op_val (accu s)"
    using steady_split [OF assms(1) zapply_length [OF assms(2)]] by blast
  have c: "Code_val ((mem s)(p := a, p + 1 := b, p + 2 := c, p + 3 := d)) (accu s) = Code_val (mem s) (accu s)" for a b c d
    using p(2,4) by (simp add: Code_val_upd)
  show ?thesis using assms(2) p(1,2) c by (auto simp: exec_APPLY1_def zam_defs upt_conv_Cons take_map drop_map eval_nat_numeral)
qed

lemma zapply2_sim:
  assumes "steady s" and "zapply (Code_val (mem s)) 2 (zam_of s) = Some z"
  shows "zam_of (exec_APPLY2 s) = z"
proof -
  obtain p where p: "sp s = p + 3" "p + 2 + 3 \<le> caml_stack_high s" "caml_stack_threshold s \<le> p"
    "\<forall>q. p \<le> q \<and> q < caml_stack_high s \<longrightarrow> q \<noteq> Op_val (accu s)"
    using steady_split [OF assms(1) zapply_length [OF assms(2)]] by blast
  have c: "Code_val ((mem s)(p := a, p + 1 := b, p + 2 := c, p + 3 := d, p + 4 := e)) (accu s) = Code_val (mem s) (accu s)" for a b c d e
    using p(2,4) by (simp add: Code_val_upd)
  show ?thesis using assms(2) p(1,2) c by (auto simp: exec_APPLY2_def zam_defs upt_conv_Cons take_map drop_map eval_nat_numeral)
qed

lemma zapply3_sim:
  assumes "steady s" and "zapply (Code_val (mem s)) 3 (zam_of s) = Some z"
  shows "zam_of (exec_APPLY3 s) = z"
proof -
  obtain p where p: "sp s = p + 3" "p + 3 + 3 \<le> caml_stack_high s" "caml_stack_threshold s \<le> p"
    "\<forall>q. p \<le> q \<and> q < caml_stack_high s \<longrightarrow> q \<noteq> Op_val (accu s)"
    using steady_split [OF assms(1) zapply_length [OF assms(2)]] by blast
  have c: "Code_val ((mem s)(p := a, p + 1 := b, p + 2 := c, p + 3 := d, p + 4 := e, p + 5 := f)) (accu s) = Code_val (mem s) (accu s)" for a b c d e f
    using p(2,4) by (simp add: Code_val_upd)
  show ?thesis using assms(2) p(1,2) c by (auto simp: exec_APPLY3_def zam_defs upt_conv_Cons take_map drop_map eval_nat_numeral)
qed

lemma zappterm_sim:
  assumes "steady s" and "zappterm (Code_val (mem s)) n (operand s 0) (zam_of s) = Some z"
  shows "n = 1 \<Longrightarrow> zam_of (exec_APPTERM1 s) = z" "n = 2 \<Longrightarrow> zam_of (exec_APPTERM2 s) = z"
    "n = 3 \<Longrightarrow> zam_of (exec_APPTERM3 s) = z"
proof -
  have slot: "int n \<le> operand s 0" "operand s 0 \<le> int (caml_stack_high s - sp s)"
    using assms(2) by (auto simp: zappterm_def split: if_splits)
  obtain k where k: "operand s 0 = int n + int k" using slot(1) by (metis zle_iff_zadd)
  have off: "ptr_off (sp s) (operand s 0 - int n) = sp s + k" unfolding k by simp
  have room: "sp s + k + n \<le> caml_stack_high s" using slot steady_sp [OF assms(1)] unfolding k by linarith
  have acc: "\<forall>q. sp s \<le> q \<and> q < caml_stack_high s \<longrightarrow> q \<noteq> Op_val (accu s)"
    using assms(1) by (auto simp: steady_def)
  have z: "z = zenter (Code_val (mem s)) (extra_args s + of_nat n - 1)
      ((zam_of s)\<lparr>zstack := take n (stack_of s) @ drop (n + k) (stack_of s)\<rparr>)"
    using assms(2) k by (auto simp: zappterm_def nat_add_distrib split: if_splits)
  show "zam_of (exec_APPTERM1 s) = z" if "n = 1"
    using that off room acc unfolding z
    by (auto simp: exec_APPTERM1_def Let_def zam_defs upt_conv_Cons take_map drop_map eval_nat_numeral Code_val_upd)
  show "zam_of (exec_APPTERM2 s) = z" if "n = 2"
    using that off room acc unfolding z
    by (auto simp: exec_APPTERM2_def Let_def zam_defs upt_conv_Cons take_map drop_map eval_nat_numeral Code_val_upd)
  show "zam_of (exec_APPTERM3 s) = z" if "n = 3"
    using that off room acc unfolding z
    by (auto simp: exec_APPTERM3_def Let_def zam_defs upt_conv_Cons take_map drop_map eval_nat_numeral Code_val_upd)
qed

text \<open>The general tail call slides its arguments over an area that may overlap them.\<close>

lemma copy_down_at:
  assumes "src \<le> dst"
  shows "copy_down n dst src m a = (if dst \<le> a \<and> a < dst + n then m (src + (a - dst)) else m a)"
  using assms by (induction n arbitrary: m) auto

lemma zappterm_general_sim:
  assumes "steady s" and "1 \<le> operand s 0" and "zappterm (Code_val (mem s)) (nat (operand s 0)) (operand s 1) (zam_of s) = Some z"
  shows "zam_of (exec_APPTERM s) = z"
proof -
  obtain n where n: "operand s 0 = int n" "1 \<le> n" using assms(2) by (metis nonneg_int_cases order_trans zero_le_one of_nat_1 of_nat_le_iff)
  have slot: "int n \<le> operand s 1" "operand s 1 \<le> int (caml_stack_high s - sp s)"
    using assms(3) n by (auto simp: zappterm_def split: if_splits)
  obtain k where k: "operand s 1 = int n + int k" using slot(1) by (metis zle_iff_zadd)
  have off: "ptr_off (sp s) (operand s 1 - operand s 0) = sp s + k" unfolding k n by simp
  have room: "sp s + k + n \<le> caml_stack_high s" using slot steady_sp [OF assms(1)] unfolding k by linarith
  have acc: "\<forall>q. sp s \<le> q \<and> q < caml_stack_high s \<longrightarrow> q \<noteq> Op_val (accu s)"
    using assms(1) by (auto simp: steady_def)
  let ?m = "copy_down n (sp s + k) (sp s) (mem s)"
  have at: "?m a = (if sp s + k \<le> a \<and> a < sp s + k + n then mem s (a - k) else mem s a)" for a
    by (subst copy_down_at) (auto intro: arg_cong [of _ _ "mem s"])
  have code: "Code_val ?m (accu s) = Code_val (mem s) (accu s)"
  proof -
    have "?m (Op_val (accu s)) = mem s (Op_val (accu s))"
    proof (cases "sp s + k \<le> Op_val (accu s) \<and> Op_val (accu s) < sp s + k + n")
      case True
      then have "sp s \<le> Op_val (accu s) \<and> Op_val (accu s) < caml_stack_high s" using room by simp
      then show ?thesis using acc by blast
    qed (simp only: at if_False)
    then show ?thesis by (simp add: Code_val_def Field_def)
  qed
  have stack: "map ?m [sp s + k..<caml_stack_high s] = take n (stack_of s) @ drop (n + k) (stack_of s)"
    using room by (intro nth_equalityI) (auto simp: stack_of_def at nth_append intro: arg_cong [of _ _ "mem s"])
  have extra: "scast (code s (pc s) - 1) = (of_nat n - 1 :: u64)"
  proof -
    have "code s (pc s) = word_of_int (operand s 0)" by simp
    then have "code s (pc s) = of_nat n" unfolding n(1) by simp
    then have eq: "code s (pc s) - 1 = of_nat (n - 1)" using n(2) by (simp add: of_nat_diff)
    have "int n < 2 ^ 31" using sint_less [of "code s (pc s + 0)"] n(1) by simp
    then have "sint (of_nat (n - 1) :: u32) = int (n - 1)" by (simp add: signed_of_nat signed_take_bit_int_eq_self)
    then show ?thesis unfolding eq scast_eq using n(2) by (simp add: of_nat_diff)
  qed
  have "z = zenter (Code_val (mem s)) (extra_args s + of_nat n - 1)
      ((zam_of s)\<lparr>zstack := take n (stack_of s) @ drop (n + k) (stack_of s)\<rparr>)"
    using assms(3) n k by (auto simp: zappterm_def nat_add_distrib split: if_splits)
  then show ?thesis using off n code stack extra
    by (simp add: exec_APPTERM_def Let_def zam_of_def enter_closure_def zenter_def) (simp add: stack_of_def)
qed

lemma zreturn_sim:
  assumes "steady s" and "zreturn (Code_val (mem s)) (operand s 0) (zam_of (skip 1 s)) = Some z"
  shows "zam_of (exec_RETURN s) = z"
proof -
  have n: "0 \<le> operand s 0" "operand s 0 + 3 \<le> int (caml_stack_high s - sp s)"
    using assms(2) by (auto simp: zreturn_def split: if_splits)
  obtain k where k: "operand s 0 = int k" using n(1) by (metis nonneg_int_cases)
  have room: "sp s + k + 3 \<le> caml_stack_high s" using n steady_sp [OF assms(1)] unfolding k by linarith
  have off: "ptr_off (sp s) (sint (code s (pc s))) = sp s + k" using k by simp
  show ?thesis
    using assms(2) room unfolding k
    by (auto simp: off exec_RETURN_def return_frame_def Let_def zam_defs drop_map split: if_splits)
qed

lemma sim_apply:
  assumes "steady s" and "ASSIGN < op" and "op \<le> PUSHOFFSETCLOSURE"
    and "zexec (code s) (Code_val (mem s)) op (zam_of s) = Some z"
  shows "\<exists>s'. dispatch_instr rt op s = Some (Next s') \<and> zam_of s' = z"
proof -
  have no: "caml_stack_threshold s + 6 \<le> sp s" "\<not> caml_something_to_do s" using assms(1) by (simp_all add: steady_def)
  have op: "op \<in> {PUSH_RETADDR, APPLY, APPLY1, APPLY2, APPLY3, APPTERM, APPTERM1, APPTERM2, APPTERM3, RETURN}"
  proof (rule ccontr)
    assume "\<not> ?thesis"
    moreover have "\<not> op \<le> ACC7" "\<not> op \<le> PUSHACC7" "\<not> op \<le> ASSIGN" "\<not> CONST0 \<le> op" "\<not> PUSHCONST0 \<le> op"
      using assms(2,3) by (auto simp: word_le_nat_alt word_less_nat_alt)
    moreover from this have "op \<notin> {ACC, PUSH, PUSHACC, POP, ASSIGN, BRANCH, BRANCHIF, BRANCHIFNOT, BOOLNOT, CONSTINT, PUSHCONSTINT}"
      using assms(3) by auto
    ultimately show False using assms(4) by (simp add: zexec_def Let_def)
  qed
  have d: "dispatch_instr rt op s = exec_apply rt op s"
    using op by (elim insertE emptyE) (simp_all add: dispatch_instr_def)
  have chk: "check_stacks rt s' = Some (Next s')"
    if "sp s - 3 \<le> sp s'" "caml_stack_threshold s' = caml_stack_threshold s" "caml_something_to_do s' = caml_something_to_do s" for s'
    using that no by (intro check_stacks_steady) simp_all
  note ex = assms(4) [unfolded zexec_def Let_def] and ea = exec_apply_def
  have small: "sp s - 3 \<le> ptr_off (sp s) k" if "0 \<le> k" for k using that by (simp add: ptr_off_nonneg)
  from op show ?thesis
  proof (elim insertE emptyE)
    assume op: "op = PUSH_RETADDR"
    obtain p where p: "sp s = p + 3" "p + 0 + 3 \<le> caml_stack_high s"
      using steady_split [OF assms(1), of 0] by auto
    have z: "z = (zam_of (skip 1 s))\<lparr>zstack := [val_of_code (ptr_off (pc s) (operand s 0)), env s, Val_long (extra_args s)] @ stack_of s\<rparr>"
      using ex op skip_sim [of s 1] by simp
    have "zam_of (exec_PUSH_RETADDR s) = z"
      unfolding z using p by (auto simp: exec_PUSH_RETADDR_def zam_defs upt_conv_Cons eval_nat_numeral)
    then show ?thesis unfolding d using op by (simp add: ea)
  next
    assume op: "op = APPLY"
    then have "zam_of (exec_APPLY s) = z" using ex by (simp add: exec_APPLY_def zam_defs)
    moreover have "check_stacks rt (exec_APPLY s) = Some (Next (exec_APPLY s))"
      by (intro chk) (simp_all add: exec_APPLY_def enter_closure_def)
    ultimately show ?thesis unfolding d using op by (simp add: ea)
  next
    assume op: "op = APPLY1"
    then have "zam_of (exec_APPLY1 s) = z" using ex by (intro zapply1_sim [OF assms(1)]) simp
    moreover have "check_stacks rt (exec_APPLY1 s) = Some (Next (exec_APPLY1 s))"
      by (intro chk) (simp_all add: exec_APPLY1_def enter_closure_def Let_def)
    ultimately show ?thesis unfolding d using op by (simp add: ea)
  next
    assume op: "op = APPLY2"
    then have "zam_of (exec_APPLY2 s) = z" using ex by (intro zapply2_sim [OF assms(1)]) simp
    moreover have "check_stacks rt (exec_APPLY2 s) = Some (Next (exec_APPLY2 s))"
      by (intro chk) (simp_all add: exec_APPLY2_def enter_closure_def Let_def)
    ultimately show ?thesis unfolding d using op by (simp add: ea)
  next
    assume op: "op = APPLY3"
    then have "zam_of (exec_APPLY3 s) = z" using ex by (intro zapply3_sim [OF assms(1)]) simp
    moreover have "check_stacks rt (exec_APPLY3 s) = Some (Next (exec_APPLY3 s))"
      by (intro chk) (simp_all add: exec_APPLY3_def enter_closure_def Let_def)
    ultimately show ?thesis unfolding d using op by (simp add: ea)
  next
    assume op: "op = APPTERM"
    then have z: "1 \<le> operand s 0" "zappterm (Code_val (mem s)) (nat (operand s 0)) (operand s 1) (zam_of s) = Some z"
      using ex by (simp_all split: if_splits)
    have "0 \<le> operand s 1 - operand s 0" using z by (auto simp: zappterm_def split: if_splits)
    then have "check_stacks rt (exec_APPTERM s) = Some (Next (exec_APPTERM s))"
      using small by (intro chk) (simp_all add: exec_APPTERM_def enter_closure_def Let_def)
    then show ?thesis unfolding d using op zappterm_general_sim [OF assms(1) z] by (simp add: ea)
  next
    assume op: "op = APPTERM1"
    then have z: "zappterm (Code_val (mem s)) 1 (operand s 0) (zam_of s) = Some z" using ex by simp
    have "int 1 \<le> operand s 0" using z by (auto simp: zappterm_def split: if_splits)
    then have "check_stacks rt (exec_APPTERM1 s) = Some (Next (exec_APPTERM1 s))"
      using small by (intro chk) (simp_all add: exec_APPTERM1_def enter_closure_def Let_def)
    then show ?thesis unfolding d using op zappterm_sim(1) [OF assms(1) z] by (simp add: ea)
  next
    assume op: "op = APPTERM2"
    then have z: "zappterm (Code_val (mem s)) 2 (operand s 0) (zam_of s) = Some z" using ex by simp
    have "int 2 \<le> operand s 0" using z by (auto simp: zappterm_def split: if_splits)
    then have "check_stacks rt (exec_APPTERM2 s) = Some (Next (exec_APPTERM2 s))"
      using small by (intro chk) (simp_all add: exec_APPTERM2_def enter_closure_def Let_def)
    then show ?thesis unfolding d using op zappterm_sim(2) [OF assms(1) z] by (simp add: ea)
  next
    assume op: "op = APPTERM3"
    then have z: "zappterm (Code_val (mem s)) 3 (operand s 0) (zam_of s) = Some z" using ex by simp
    have "int 3 \<le> operand s 0" using z by (auto simp: zappterm_def split: if_splits)
    then have "check_stacks rt (exec_APPTERM3 s) = Some (Next (exec_APPTERM3 s))"
      using small by (intro chk) (simp_all add: exec_APPTERM3_def enter_closure_def Let_def)
    then show ?thesis unfolding d using op zappterm_sim(3) [OF assms(1) z] by (simp add: ea)
  next
    assume op: "op = RETURN"
    then have "zreturn (Code_val (mem s)) (operand s 0) (zam_of (skip 1 s)) = Some z"
      using ex skip_sim [of s 1] by simp
    then show ?thesis unfolding d using op zreturn_sim [OF assms(1)] by (simp add: ea)
  qed
qed

lemma const_range:
  assumes "(lo :: u32) \<le> op" and "op \<le> lo + 3" and "lo < 1000"
  shows "op = lo \<or> op = lo + 1 \<or> op = lo + 2 \<or> op = lo + 3"
proof -
  have "op - lo \<le> 3" using assms by (metis add_diff_cancel_left' word_le_minus_mono_left)
  then have "unat (op - lo) \<in> {0, 1, 2, 3}" by (auto simp: word_le_nat_alt)
  then have "op - lo = 0 \<or> op - lo = 1 \<or> op - lo = 2 \<or> op - lo = 3" by (auto simp: word_unat_eq_iff)
  then show ?thesis by (auto simp: diff_eq_eq add.commute)
qed

lemma sim_rest:
  assumes "steady s" and "\<not> op \<le> PUSHOFFSETCLOSURE"
    and "zexec (code s) (Code_val (mem s)) op (zam_of s) = Some z"
  shows "\<exists>s'. dispatch_instr rt op s = Some (Next s') \<and> zam_of s' = z"
proof -
  have sp: "0 < sp s" "sp s \<le> caml_stack_high s" using steady_sp [OF assms(1)] by simp_all
  have ne: "\<not> op \<le> ACC7" "\<not> op \<le> PUSHACC7" "\<not> op \<le> ASSIGN" "\<not> op \<le> PUSHENVACC"
    using assms(2) by (auto simp: word_le_nat_alt)
  moreover from assms(2) ne have "op \<notin> {ACC, PUSH, PUSHACC, POP, ASSIGN, PUSH_RETADDR, APPLY, APPLY1, APPLY2, APPLY3,
    APPTERM, APPTERM1, APPTERM2, APPTERM3, RETURN}" by auto
  ultimately have "op \<in> {BRANCH, BRANCHIF, BRANCHIFNOT, BOOLNOT, CONSTINT, PUSHCONSTINT}
    \<or> CONST0 \<le> op \<and> op \<le> CONST3 \<or> PUSHCONST0 \<le> op \<and> op \<le> PUSHCONST3"
    using assms(3) by (auto simp: zexec_def Let_def split: if_splits)
  then have op: "op \<in> {BRANCH, BRANCHIF, BRANCHIFNOT, BOOLNOT, CONST0, CONST1, CONST2, CONST3, CONSTINT,
      PUSHCONST0, PUSHCONST1, PUSHCONST2, PUSHCONST3, PUSHCONSTINT}"
    using const_range [of CONST0 op] const_range [of PUSHCONST0 op] by auto
  note push = zpush_sim [OF sp] and pushed = zpush_sim [of "skip 1 s"]
  have set: "(zam_of t)\<lparr>zaccu := v\<rparr> = zam_of (set_accu v t)" "(zam_of t)\<lparr>zpc := q\<rparr> = zam_of (t\<lparr>pc := q\<rparr>)" for t v q
    by (simp_all add: zam_of_def stack_of_def)
  from op show ?thesis
    using assms(3) sp
    by (elim insertE emptyE)
      (simp_all add: zexec_def Let_def dispatch_instr_def exec_branch_def exec_const_def set push pushed,
       auto simp: zam_of_def push_def zpush_def stack_of_def upt_conv_Cons split: if_splits)
qed

lemma sim_dispatch:
  assumes "steady s" and "zexec (code s) (Code_val (mem s)) op (zam_of s) = Some z"
  shows "\<exists>s'. dispatch_instr rt op s = Some (Next s') \<and> zam_of s' = z"
  using sim_stack [OF assms(1)] sim_apply [OF assms(1)] sim_rest [OF assms(1)] assms(2)
  by (meson not_le)

section \<open>Properties\<close>

text \<open>
  C2: The concrete machine refines the abstract one. Whenever the abstract
  machine, whose stack is a list, can execute the instruction at the program
  counter, one step of the interpreter loop does the same on its registers
  and on the stack region of memory; this covers stack access, constants,
  branches, calls, tail calls, returns and the entry into closures.
\<close>
theorem interp_refines_zam:
  assumes "steady s" and "zstep (code s) (Code_val (mem s)) (zam_of s) = Some z"
  shows "\<exists>s'. step rt s = Some (Next s') \<and> zam_of s' = z"
proof -
  have "steady (skip 1 s)" using assms(1) by (simp add: steady_def)
  moreover have "zexec (code (skip 1 s)) (Code_val (mem (skip 1 s))) (code s (pc s)) (zam_of (skip 1 s)) = Some z"
    using assms(2) skip_sim [of s 1] by (simp add: zstep_def)
  ultimately show ?thesis unfolding step_def by (rule sim_dispatch)
qed

theorem interp_refines_zam_witness:
  "let s = (initial_machine 10 ((blank_ctxt (\<lambda>p. of_nat p))\<lparr>caml_stack_high := 100, caml_stack_threshold := 10, caml_extern_sp := 90,
              code := (\<lambda>_. 0)(10 := PUSHACC2)\<rparr>))
   in \<exists>s'. step (blank_runtime 0) s = Some (Next s')
      \<and> zam_of s' = (zam_of s)\<lparr>zpc := 11, zaccu := 91, zstack := [Val_int 0, 90, 91, 92, 93, 94, 95, 96, 97, 98, 99]\<rparr>"
  unfolding Let_def
  by (rule interp_refines_zam)
    (simp_all add: initial_machine_def blank_ctxt_def ctxt.extend_def steady_def Op_val_def Val_int_def Val_long_def
      zstep_def zexec_def zacc_def zpush_def zam_of_def stack_of_def upt_conv_Cons)

end
