(* ===== verification/Interp_Control.thy ===== *)
theory Interp_Control
  imports Interp
begin

text \<open>
  Exceptions in the interpreter: the trap frame that \<^verbatim>\<open>PUSHTRAP\<close> saves on the
  stack is what \<^verbatim>\<open>RAISE\<close>, or a runtime error inside an instruction, restores.
\<close>

section \<open>Contexts inside machines\<close>

lemma with_ctxt_of [simp]: "with_ctxt s (ctxt_of s) = s"
  by (cases s) (simp add: with_ctxt_def ctxt_of_def ctxt.extend_def ctxt.truncate_def)

lemma ctxt_of_sel [simp]:
  "mem (ctxt_of s) = mem s" "caml_young_ptr (ctxt_of s) = caml_young_ptr s"
  "caml_young_start (ctxt_of s) = caml_young_start s" "caml_global_data (ctxt_of s) = caml_global_data s"
  "caml_extern_sp (ctxt_of s) = caml_extern_sp s"
  by (simp_all add: ctxt_of_def ctxt.truncate_def)

lemma with_ctxt_young:
  "with_ctxt s ((ctxt_of s)\<lparr>caml_young_ptr := p, mem := m\<rparr>) = s\<lparr>caml_young_ptr := p, mem := m\<rparr>"
  by (cases s) (simp add: with_ctxt_def ctxt_of_def ctxt.extend_def ctxt.truncate_def)

section \<open>Raising to a handler\<close>

lemma raise_to_trap:
  assumes "caml_trapsp s < caml_trap_barrier s" and "\<not> caml_backtrace_active s"
    and "caml_trapsp s < caml_stack_high s - initial_sp_offset s"
  shows "raise_exception rt s =
    (let tp = caml_trapsp s
     in Next (s\<lparr>pc := Trap_pc (mem s) tp, caml_trapsp := Trap_link (mem s) tp,
          env := mem s (tp + 2), extra_args := Long_val (mem s (tp + 3)), sp := tp + 4\<rparr>))"
  using assms by (simp add: raise_exception_def Let_def)

lemma PUSHTRAP_frame:
  assumes "4 \<le> sp s" and "8 * caml_trapsp s < 2 ^ 64" and "4 * ptr_off (pc s) (operand s 0) < 2 ^ 64"
    and "sint (extra_args s) \<in> {- (2 ^ 62)..<2 ^ 62}"
    and "\<And>i. i < 4 \<Longrightarrow> m (sp s - 4 + i) = mem (exec_PUSHTRAP s) (sp s - 4 + i)"
  shows "Trap_pc m (sp s - 4) = ptr_off (pc s) (operand s 0)" "Trap_link m (sp s - 4) = caml_trapsp s"
    "m (sp s - 4 + 2) = env s" "Long_val (m (sp s - 4 + 3)) = extra_args s"
proof -
  let ?p = "sp s - 4"
  have m: "m ?p = val_of_code (ptr_off (pc s) (operand s 0))" "m (?p + 1) = val_of_ptr (caml_trapsp s)"
    "m (?p + 2) = env s" "m (?p + 3) = Val_long (extra_args s)"
    using assms(5) [of 0] assms(5) [of 1] assms(5) [of 2] assms(5) [of 3] by (simp_all add: exec_PUSHTRAP_def Let_def)
  show "Trap_pc m ?p = ptr_off (pc s) (operand s 0)" unfolding Trap_pc_def m(1) using assms(3) by (rule code_of_val_of_code)
  show "Trap_link m ?p = caml_trapsp s" unfolding Trap_link_def m(2) using assms(2) by (rule Op_val_of_ptr)
  show "m (?p + 2) = env s" by (rule m(3))
  show "Long_val (m (?p + 3)) = extra_args s" unfolding m(4) using assms(4) by (rule Long_val_Val_long)
qed

section \<open>Allocation without collection\<close>

lemma Alloc_small_room:
  "caml_young_start s + (n + 1) \<le> caml_young_ptr s \<Longrightarrow>
   Alloc_small rt n tag s = (Val_hp (caml_young_ptr s - (n + 1)),
     s\<lparr>caml_young_ptr := caml_young_ptr s - (n + 1),
       mem := (mem s)(caml_young_ptr s - (n + 1) := Make_header (of_nat n) tag Caml_black)\<rparr>)"
  by (simp add: Alloc_small_def young_block_def Let_def)

lemma caml_alloc_small_room:
  "caml_young_start c + (n + 1) \<le> caml_young_ptr c \<Longrightarrow>
   caml_alloc_small rt n tag roots c = (Val_hp (caml_young_ptr c - (n + 1)), roots,
     c\<lparr>caml_young_ptr := caml_young_ptr c - (n + 1),
       mem := (mem c)(caml_young_ptr c - (n + 1) := Make_header (of_nat n) tag Caml_black)\<rparr>)"
  by (simp add: caml_alloc_small_def young_block_def Let_def)

lemma Op_val_Val_hp: "8 * (p + 1) < 2 ^ 64 \<Longrightarrow> Op_val (Val_hp p) = p + 1"
  unfolding Val_hp_def by (rule Op_val_of_ptr)

section \<open>Division by zero\<close>

lemma step_division:
  assumes "code s (pc s) = DIVINT \<or> code s (pc s) = MODINT"
  shows "step rt s = Some (exec_DIVINT rt (code s (pc s)) (skip 1 s))"
  using assms unfolding step_def by (elim disjE) (simp_all add: dispatch_instr_def exec_arith_def)

lemma zero_divide_step:
  fixes s :: machine and rt :: runtime
  defines "tp \<equiv> caml_trapsp s" and "b \<equiv> caml_young_ptr s - 2"
  assumes op: "code s (pc s) = DIVINT \<or> code s (pc s) = MODINT" and zero: "Long_val (stk s 0) = 0"
    and room: "caml_young_start s + 2 \<le> caml_young_ptr s" "8 * caml_young_ptr s < 2 ^ 64"
    and trap: "tp < caml_trap_barrier s" "tp < caml_stack_high s - initial_sp_offset s" "sp s < tp"
    and quiet: "\<not> caml_backtrace_active s"
    and young: "caml_young_ptr s \<le> tp \<or> tp + 4 \<le> b"
    and globals: "Op_val (caml_global_data s) + ZERO_DIVIDE_EXN \<noteq> sp s"
  shows "step rt s = Some (Next (s\<lparr>mem := (mem s)(sp s := env s, b := Make_header 1 0 Caml_black,
           b + 1 := Field (mem s) (caml_global_data s) ZERO_DIVIDE_EXN),
         caml_young_ptr := b, caml_extern_sp := sp s, caml_trapsp := Trap_link (mem s) tp,
         accu := Val_hp b, pc := Trap_pc (mem s) tp, env := mem s (tp + 2), extra_args := Long_val (mem s (tp + 3)),
         sp := tp + 4, saved_pc := 0\<rparr>))"
proof -
  let ?exn = "Field (mem s) (caml_global_data s) ZERO_DIVIDE_EXN"
  let ?m = "(mem s)(sp s := env s, b := Make_header 1 0 Caml_black, b + 1 := ?exn)"
  define s2 where "s2 = s\<lparr>pc := pc s + 1, mem := (mem s)(sp s := env s), saved_pc := pc s + 1, caml_extern_sp := sp s\<rparr>"
  have set: "Setup_for_c_call (drop_stk 1 (skip 1 s)) = s2"
    by (simp add: s2_def Setup_for_c_call_def push_def Let_def)
  have b: "caml_young_ptr s = b + 2" using room(1) by (simp add: b_def)
  have op_b: "Op_val (Val_hp b) = b + 1" using room(2) b by (intro Op_val_Val_hp) simp
  have sel: "mem s2 = (mem s)(sp s := env s)" "caml_young_ptr s2 = Suc (Suc b)"
    "caml_young_start s2 = caml_young_start s" "caml_global_data s2 = caml_global_data s"
    using b by (simp_all add: s2_def)
  have exn: "Field ((mem s)(sp s := env s)) (caml_global_data s) ZERO_DIVIDE_EXN = ?exn"
    using globals by (simp add: Field_def)
  have raised: "caml_raise_zero_divide rt (ctxt_of s2) =
      Exn (Val_hp b) ((ctxt_of s2)\<lparr>caml_young_ptr := b, mem := ?m\<rparr>)"
    using caml_alloc_small_room [of "ctxt_of s2" 1 rt 0] room(1) b
    by (simp add: caml_raise_zero_divide_def caml_raise_constant_def sel exn op_b)
  have ctxt_back: "with_ctxt s2 ((ctxt_of s2)\<lparr>caml_young_ptr := b, mem := ?m\<rparr>) = s2\<lparr>caml_young_ptr := b, mem := ?m\<rparr>"
    by (rule with_ctxt_young)
  have keep: "?m (tp + k) = mem s (tp + k)" if "k < 4" for k
    using that young trap(3) b by auto
  have stepped: "step rt s = Some (longjmp_handler rt s2 (Val_hp b) ((ctxt_of s2)\<lparr>caml_young_ptr := b, mem := ?m\<rparr>))"
    unfolding step_division [OF op] exec_DIVINT_def Let_def set raised
    using zero by simp
  show ?thesis
    unfolding stepped longjmp_handler_def ctxt_back Let_def
    using keep [of 0] keep [of 1] keep [of 2] keep [of 3] trap quiet
    by (subst raise_to_trap) (simp_all add: s2_def tp_def Trap_pc_def Trap_link_def Let_def)
qed

section \<open>Handlers\<close>

text \<open>
  The state \<open>t\<close> runs under the handler that \<open>PUSHTRAP\<close> pushed in \<open>s\<close>: its
  trap pointer is that frame, whose four words are intact, below the barrier
  of the debugger and the base of this activation of the interpreter.
\<close>

definition under_handler :: "machine \<Rightarrow> machine \<Rightarrow> bool" where
  "under_handler s t =
     (let s1 = exec_PUSHTRAP (skip 1 s); tp = sp s1
      in code s (pc s) = PUSHTRAP \<and> 4 \<le> sp s \<and> 8 * caml_trapsp s < 2 ^ 64
         \<and> 4 * ptr_off (pc s + 1) (operand s 1) < 2 ^ 64 \<and> sint (extra_args s) \<in> {- (2 ^ 62)..<2 ^ 62}
         \<and> caml_trapsp t = tp \<and> list_all (\<lambda>i. mem t (tp + i) = mem s1 (tp + i)) [0..<4]
         \<and> tp < caml_trap_barrier t \<and> tp < caml_stack_high t - initial_sp_offset t \<and> \<not> caml_backtrace_active t)"

lemma under_handlerD:
  assumes "under_handler s t"
  shows "caml_trapsp t = sp s - 4" "4 \<le> sp s" "sp s - 4 < caml_trap_barrier t"
    "sp s - 4 < caml_stack_high t - initial_sp_offset t" "\<not> caml_backtrace_active t"
    "step rt s = Some (Next (exec_PUSHTRAP (skip 1 s)))"
    "Trap_pc (mem t) (sp s - 4) = ptr_off (pc s + 1) (operand s 1)"
    "Trap_link (mem t) (sp s - 4) = caml_trapsp s"
    "mem t (sp s - 4 + 2) = env s" "Long_val (mem t (sp s - 4 + 3)) = extra_args s"
proof -
  have sp: "sp (exec_PUSHTRAP (skip 1 s)) = sp s - 4" by (simp add: exec_PUSHTRAP_def Let_def)
  note u = assms [unfolded under_handler_def Let_def sp]
  have code: "code s (pc s) = PUSHTRAP" using u by blast
  show "caml_trapsp t = sp s - 4" "4 \<le> sp s" "sp s - 4 < caml_trap_barrier t"
    "sp s - 4 < caml_stack_high t - initial_sp_offset t" "\<not> caml_backtrace_active t" using u by blast+
  show "step rt s = Some (Next (exec_PUSHTRAP (skip 1 s)))"
    unfolding step_def code by (simp add: dispatch_instr_def exec_trap_def)
  have "\<forall>i < 4. mem t (sp s - 4 + i) = mem (exec_PUSHTRAP (skip 1 s)) (sp s - 4 + i)"
    using u unfolding list_all_iff set_upt by (metis atLeastLessThan_iff zero_le)
  then show "Trap_pc (mem t) (sp s - 4) = ptr_off (pc s + 1) (operand s 1)"
    "Trap_link (mem t) (sp s - 4) = caml_trapsp s"
    "mem t (sp s - 4 + 2) = env s" "Long_val (mem t (sp s - 4 + 3)) = extra_args s"
    using PUSHTRAP_frame [of "skip 1 s" "mem t"] u by simp_all
qed

text \<open>
  C23: Raising an exception resumes the innermost handler in the state that
  installed it. Whatever happened since the \<open>PUSHTRAP\<close>, as long as its frame
  is the current one and intact, \<open>RAISE\<close> continues at the handler with the
  exception in the accumulator and the stack pointer, the environment, the
  extra arguments and the enclosing handler of the \<open>PUSHTRAP\<close>.
\<close>
theorem raise_resumes_handler:
  assumes "under_handler s t" and "code t (pc t) = RAISE"
  shows "step rt t = Some (Next (t\<lparr>pc := ptr_off (pc s + 1) (operand s 1), sp := sp s, env := env s,
           extra_args := extra_args s, caml_trapsp := caml_trapsp s\<rparr>))"
proof -
  note h = under_handlerD [OF assms(1)]
  have "step rt t = Some (raise_exception rt (skip 1 t))"
    unfolding step_def assms(2) by (simp add: dispatch_instr_def exec_trap_def)
  moreover have "raise_exception rt (skip 1 t) = Next (t\<lparr>pc := ptr_off (pc s + 1) (operand s 1), sp := sp s, env := env s,
           extra_args := extra_args s, caml_trapsp := caml_trapsp s\<rparr>)"
    using h by (subst raise_to_trap) (simp_all add: Let_def)
  ultimately show ?thesis by simp
qed

text \<open>
  C27: A division or a modulus by zero raises \<open>Division_by_zero\<close> under the
  current handler: with room for the exception bucket in the minor heap, the
  machine continues at the handler, in the state of the \<open>PUSHTRAP\<close>, and the
  accumulator holds a fresh block, taken from the minor heap by lowering
  \<^verbatim>\<open>caml_young_ptr\<close>, with tag 0 and one field, the predefined exception.
  Nothing else in memory changes but the stack slot of the divisor. The new
  block does not overlap the trap frame, and the table of predefined
  exceptions is not in that stack slot.
\<close>
theorem division_by_zero_handled:
  assumes h: "under_handler s t" and op: "code t (pc t) = DIVINT \<or> code t (pc t) = MODINT"
    and zero: "Long_val (stk t 0) = 0" and inside: "sp t < caml_trapsp t"
    and room: "caml_young_start t + 2 \<le> caml_young_ptr t" "8 * caml_young_ptr t < 2 ^ 64"
    and apart: "caml_young_ptr t \<le> caml_trapsp t \<or> caml_trapsp t + 4 \<le> caml_young_ptr t - 2"
      "Op_val (caml_global_data t) + ZERO_DIVIDE_EXN \<noteq> sp t"
  shows "\<exists>u. step rt t = Some (Next u) \<and> pc u = ptr_off (pc s + 1) (operand s 1) \<and> sp u = sp s \<and> env u = env s
    \<and> extra_args u = extra_args s \<and> caml_trapsp u = caml_trapsp s
    \<and> caml_young_ptr u = caml_young_ptr t - 2 \<and> accu u = Val_hp (caml_young_ptr u)
    \<and> Wosize_val (mem u) (accu u) = 1 \<and> Tag_val (mem u) (accu u) = 0
    \<and> Field (mem u) (accu u) 0 = Field (mem t) (caml_global_data t) ZERO_DIVIDE_EXN
    \<and> (\<forall>p. p \<noteq> sp t \<and> (p < caml_young_ptr u \<or> caml_young_ptr t \<le> p) \<longrightarrow> mem u p = mem t p)"
proof -
  note h = under_handlerD [OF h]
  obtain b where b: "caml_young_ptr t = b + 2" using room(1) by (metis le_add_diff_inverse2 add_leD2)
  have "Op_val (Val_hp b) = b + 1" using room(2) b by (intro Op_val_Val_hp) simp
  moreover have "Wosize_hd (Make_header 1 0 Caml_black) = 1" "(ucast (Make_header 1 0 Caml_black) :: u8) = 0" by code_simp+
  ultimately show ?thesis
    using h zero_divide_step [OF op zero room] inside apart
    by (auto simp: Field_def Wosize_val_def Tag_val_def Hd_val_def b)
qed


text \<open>A state about to install a handler, with its handler at word 16 of the code, and one running under it.\<close>

definition try_machine :: machine where
  "try_machine = initial_machine 10 ((blank_ctxt (\<lambda>_. 1))\<lparr>caml_stack_high := 100, caml_extern_sp := 90,
     caml_trapsp := 100, caml_trap_barrier := 101, caml_young_start := 150, caml_young_ptr := 200,
     code := (\<lambda>_. 0)(10 := PUSHTRAP, 11 := 5, 20 := RAISE, 21 := DIVINT)\<rparr>)
     \<lparr>sp := 50, env := 7, initial_sp_offset := 0\<rparr>"

definition try_body :: "nat \<Rightarrow> machine" where
  "try_body p = (exec_PUSHTRAP (skip 1 try_machine))\<lparr>pc := p, sp := 40, accu := 9, env := 3\<rparr>"

lemma try_body_handler: "under_handler try_machine (try_body p)"
  by (simp add: under_handler_def try_body_def try_machine_def initial_machine_def blank_ctxt_def ctxt.extend_def
      Let_def exec_PUSHTRAP_def upt_rec)

theorem raise_resumes_handler_witness:
  "\<exists>u. step (blank_runtime 0) (try_body 20) = Some (Next u) \<and> pc u = 16 \<and> accu u = 9 \<and> sp u = 50 \<and> env u = 7"
  using raise_resumes_handler [OF try_body_handler, of 20 "blank_runtime 0"]
  by (simp add: try_body_def try_machine_def initial_machine_def blank_ctxt_def ctxt.extend_def exec_PUSHTRAP_def Let_def)

theorem division_by_zero_handled_witness:
  "\<exists>u. step (blank_runtime 0) (try_body 21) = Some (Next u) \<and> pc u = 16 \<and> sp u = 50 \<and> env u = 7
     \<and> caml_young_ptr u = 198 \<and> accu u = Val_hp 198
     \<and> Wosize_val (mem u) (accu u) = 1 \<and> Tag_val (mem u) (accu u) = 0 \<and> Field (mem u) (accu u) 0 = 1"
  using division_by_zero_handled [OF try_body_handler, of 21 "blank_runtime 0"]
  by (auto simp: try_body_def try_machine_def initial_machine_def blank_ctxt_def ctxt.extend_def exec_PUSHTRAP_def Let_def
      Op_val_def Field_def Long_val_def)

end
