(* ===== verification/Interp_Partial.thy ===== *)
theory Interp_Partial
  imports Interp_Control
begin

text \<open>
  Partial applications in the interpreter: \<^verbatim>\<open>GRAB\<close> saves the arguments
  received so far in a closure and \<^verbatim>\<open>RESTART\<close> puts them back.
\<close>

section \<open>The instructions\<close>

lemma copy_up_at:
  assumes "src + n \<le> dst \<or> dst + n \<le> src"
  shows "copy_up n dst src m a = (if dst \<le> a \<and> a < dst + n then m (src + (a - dst)) else m a)"
  using assms
proof (induction n arbitrary: a)
  case (Suc n)
  then have IH: "copy_up n dst src m x = (if dst \<le> x \<and> x < dst + n then m (src + (x - dst)) else m x)" for x
    by auto
  show ?case using Suc.prems by (auto simp: Let_def IH)
qed auto

text \<open>
  \<open>s\<close> executes \<open>GRAB\<close> with fewer arguments than required, \<open>n\<close> in all, and
  there is room for the closure in the minor heap, away from the stack.
\<close>

definition partial_call :: "machine \<Rightarrow> nat \<Rightarrow> bool" where
  "partial_call s n =
     (code s (pc s) = GRAB \<and> 0 < pc s \<and> 4 * pc s < 2 ^ 64
      \<and> 0 \<le> sint (extra_args s) \<and> sint (extra_args s) < operand s 1 \<and> n = unat (extra_args s) + 1
      \<and> caml_young_start s + (n + 3) \<le> caml_young_ptr s \<and> 8 * caml_young_ptr s < 2 ^ 64
      \<and> (caml_young_ptr s \<le> sp s \<or> sp s + n + 3 \<le> caml_young_ptr s - (n + 3)))"

lemma partial_call_args:
  assumes "partial_call s n"
  shows "unat (1 + extra_args s) = n" "int n < 2 ^ 31" "extra_args s = of_nat (n - 1)"
proof -
  have x: "sint (extra_args s) = int (unat (extra_args s))"
    using assms unsigned_less [of "extra_args s", where 'a = nat] unfolding partial_call_def sint_u64 [of "extra_args s"] by (simp split: if_splits)
  have "operand s 1 < 2 ^ 31" using sint_less [of "code s (pc s + 1)"] by simp
  with assms x have n: "int n < 2 ^ 31" "n = unat (extra_args s) + 1" by (simp_all add: partial_call_def)
  show "int n < 2 ^ 31" by fact
  show "unat (1 + extra_args s) = n"
  proof -
    have "n < 2 ^ 64" using n(1) by simp
    then show ?thesis using n(2) by (subst unat_add_u64) simp
  qed
  show "extra_args s = of_nat (n - 1)" using n(2) by simp
qed

lemma GRAB_partial:
  fixes s :: machine and n :: nat and rt :: runtime
  defines "b \<equiv> caml_young_ptr s - (n + 3)" and "s1 \<equiv> exec_GRAB rt (skip 1 s)"
  assumes "partial_call s n"
  shows "step rt s = Some (Next s1)" and "accu s1 = Val_hp b" and "Op_val (accu s1) = b + 1"
    and "mem s1 b = Make_header (of_nat (n + 2)) Closure_tag Caml_black"
    and "mem s1 (b + 1) = val_of_code (pc s - 1)" and "mem s1 (b + 2) = env s"
    and "\<And>i. i < n \<Longrightarrow> mem s1 (b + 3 + i) = stk s i"
    and "pc s1 = code_of_val (stk s n)" and "env s1 = stk s (n + 1)"
    and "extra_args s1 = Long_val (stk s (n + 2))" and "sp s1 = sp s + n + 3" and "caml_young_ptr s1 = b" and "code s1 = code s"
proof -
  note p = assms(3) [unfolded partial_call_def]
  have yp: "caml_young_ptr s = b + (n + 3)" using p by (simp add: b_def)
  have ob: "Op_val (Val_hp b) = b + 1" using p yp by (intro Op_val_Val_hp) simp
  let ?m = "(mem s)(b := Make_header (of_nat (n + 2)) Closure_tag Caml_black, b + 2 := env s)"
  let ?m1 = "(copy_up n (b + 3) (sp s) ?m)(b + 1 := val_of_code (pc s - 1))"
  have s1: "s1 = return_frame (s\<lparr>pc := pc s + 2, caml_young_ptr := b, accu := Val_hp b, mem := ?m1, sp := sp s + n\<rparr>)"
  proof -
    have "Alloc_small rt (n + 2) Closure_tag (s\<lparr>pc := pc s + 2\<rparr>) = (Val_hp b, s\<lparr>pc := pc s + 2, caml_young_ptr := b,
        mem := (mem s)(b := Make_header (of_nat (n + 2)) Closure_tag Caml_black)\<rparr>)"
      using Alloc_small_room [of "s\<lparr>pc := pc s + 2\<rparr>" "n + 2" rt Closure_tag] p yp by simp
    moreover have "\<not> operand (skip 1 s) 0 \<le> sint (extra_args s)" "0 < pc s" using p by simp_all
    ultimately show ?thesis
      using partial_call_args(1) [OF assms(3)] ob
      by (simp add: s1_def exec_GRAB_def Let_def add.commute numeral_3_eq_3)
  qed
  have at: "?m1 a = (if a = b + 1 then val_of_code (pc s - 1) else if b + 3 \<le> a \<and> a < b + 3 + n then mem s (sp s + (a - (b + 3)))
      else if a = b then Make_header (of_nat (n + 2)) Closure_tag Caml_black else if a = b + 2 then env s else mem s a)" for a
    using p yp by (subst fun_upd_apply, subst copy_up_at) auto
  show "step rt s = Some (Next s1)"
    using p unfolding step_def s1_def by (simp add: dispatch_instr_def exec_apply_def)
  have m: "mem s1 = ?m1" "accu s1 = Val_hp b" "sp s1 = sp s + n + 3" by (simp_all add: s1 return_frame_def)
  show "caml_young_ptr s1 = b" "code s1 = code s" by (simp_all add: s1 return_frame_def)
  from m show "accu s1 = Val_hp b" "sp s1 = sp s + n + 3" "Op_val (accu s1) = b + 1" using ob by simp_all
  show "mem s1 b = Make_header (of_nat (n + 2)) Closure_tag Caml_black"
    "mem s1 (b + 1) = val_of_code (pc s - 1)" "mem s1 (b + 2) = env s"
    "\<And>i. i < n \<Longrightarrow> mem s1 (b + 3 + i) = stk s i" unfolding m(1) at by simp_all
  have stack: "?m1 (sp s + n + i) = mem s (sp s + n + i)" if "i < 3" for i
    unfolding at using that p yp by auto
  show "pc s1 = code_of_val (stk s n)" "env s1 = stk s (n + 1)" "extra_args s1 = Long_val (stk s (n + 2))"
    unfolding s1 return_frame_def using stack [of 0] stack [of 1] stack [of 2] by (simp_all add: add.assoc)
qed

lemma RESTART_closure:
  assumes "code t (pc t) = RESTART" and "Wosize_val (mem t) (env t) = of_nat (n + 2)" and "int n < 2 ^ 31"
    and "n \<le> sp t" and "Op_val (env t) + n + 2 \<le> sp t - n \<or> sp t \<le> Op_val (env t) + 1"
  shows "\<exists>u. step rt t = Some (Next u) \<and> pc u = pc t + 1 \<and> sp u = sp t - n \<and> env u = Field (mem t) (env t) 1
    \<and> extra_args u = extra_args t + of_nat n \<and> accu u = accu t \<and> caml_trapsp u = caml_trapsp t
    \<and> (\<forall>i < n. stk u i = Field (mem t) (env t) (i + 2)) \<and> (\<forall>a. a < sp t - n \<or> sp t \<le> a \<longrightarrow> mem u a = mem t a)"
proof -
  have num: "ucast (Wosize_val (mem t) (env t) - 2) = (of_nat n :: u32)" 
  proof -
    have "Wosize_val (mem t) (env t) - 2 = of_nat n" unfolding assms(2) by simp
    then show ?thesis by (simp only:) (rule bit_word_eqI, simp add: bit_simps bit_of_nat_iff)
  qed
  have sn: "sint (of_nat n :: u32) = int n" using assms(3) by (simp add: signed_of_nat signed_take_bit_int_eq_self)
  have "ptr_off (sp t) (- int n) = sp t - n" using assms(4) by (simp add: ptr_off_def nat_diff_distrib)
  moreover have "scast (of_nat n :: u32) = (of_nat n :: u64)" unfolding scast_eq sn by simp
  moreover have "copy_up n (sp t - n) (Op_val (env t) + 2) (mem t) a =
      (if sp t - n \<le> a \<and> a < sp t then Field (mem t) (env t) (a - (sp t - n) + 2) else mem t a)" for a
    using assms(4,5) by (subst copy_up_at) (auto simp: Field_def add_ac)
  moreover have "step rt t = Some (Next (exec_RESTART (skip 1 t)))"
    unfolding step_def assms(1) by (simp add: dispatch_instr_def exec_apply_def)
  ultimately show ?thesis
    using assms(4,5) by (auto simp: exec_RESTART_def Let_def num sn Field_def)
qed

text \<open>
  C25: A partial application keeps its arguments. \<open>GRAB\<close> with too few
  arguments returns to the caller with a closure; when that closure is called
  later, with its block intact, the \<open>RESTART\<close> it points to puts the saved
  arguments back on top of the new ones, restores the environment, adds them
  to the argument count and continues at the same \<open>GRAB\<close>.
\<close>
theorem GRAB_RESTART_round_trip:
  fixes rt rt' :: runtime and s t :: machine
  defines "s1 \<equiv> exec_GRAB rt (skip 1 s)"
  assumes p: "partial_call s n"
    and call: "env t = accu s1" "pc t = Code_val (mem s1) (accu s1)" "code t (pc s - 1) = RESTART"
    and intact: "\<And>i. i < n + 3 \<Longrightarrow> mem t (caml_young_ptr s1 + i) = mem s1 (caml_young_ptr s1 + i)"
    and stack: "n \<le> sp t" "caml_young_ptr s \<le> sp t - n \<or> sp t \<le> caml_young_ptr s - (n + 3)"
  shows "step rt s = Some (Next s1) \<and> pc s1 = code_of_val (stk s n) \<and> env s1 = stk s (n + 1)
      \<and> extra_args s1 = Long_val (stk s (n + 2)) \<and> sp s1 = sp s + n + 3
    \<and> (\<exists>u. step rt' t = Some (Next u) \<and> pc u = pc s \<and> env u = env s \<and> extra_args u = extra_args t + of_nat n
      \<and> sp u = sp t - n \<and> (\<forall>i < n. stk u i = stk s i) \<and> (\<forall>a. a < sp t - n \<or> sp t \<le> a \<longrightarrow> mem u a = mem t a))"
proof -
  define b where "b = caml_young_ptr s - (n + 3)"
  note g = GRAB_partial [where rt = rt, OF p, folded b_def s1_def]
  note q = p [unfolded partial_call_def]
  have yp: "caml_young_ptr s = b + n + 3" "caml_young_ptr s1 = b" using q g(12) by (simp_all add: b_def)
  have block: "mem t b = mem s1 b" "mem t (b + 1) = mem s1 (b + 1)" "mem t (b + 2) = mem s1 (b + 2)"
    "\<And>i. i < n \<Longrightarrow> mem t (b + 3 + i) = mem s1 (b + 3 + i)"
    using intact [of 0] intact [of 1] intact [of 2] intact [of "3 + _"] unfolding yp by (simp_all add: add.assoc)
  have env: "Op_val (env t) = b + 1" unfolding call(1) by (rule g(3))
  have n: "int n < 2 ^ 31" using p by (rule partial_call_args)
  have "Wosize_hd (Make_header (of_nat (n + 2)) Closure_tag Caml_black) = of_nat (n + 2)"
  proof (rule Make_header_fields)
    have "unat (of_nat (n + 2) :: u64) = n + 2" using n by (intro unat_of_nat_small) simp
    with n show "of_nat (n + 2) \<le> Max_wosize" unfolding word_le_nat_alt by (simp only:) (simp add: Max_wosize_def)
  qed simp_all
  then have size: "Wosize_val (mem t) (env t) = of_nat (n + 2)"
    by (simp add: Wosize_val_def Hd_val_def env block(1) g(4))
  have "code_of_val (val_of_code (pc s - 1)) = pc s - 1" using q by (intro code_of_val_of_code) linarith
  then have pc: "pc t = pc s - 1" unfolding call(2) Code_val_def Field_def g(3) using g(5) by simp
  have fields: "Field (mem t) (env t) 1 = env s" "\<And>i. i < n \<Longrightarrow> Field (mem t) (env t) (i + 2) = stk s i"
    using block g(6,7) unfolding Field_def env by (simp_all add: add_ac numeral_3_eq_3)
  have "\<exists>u. step rt' t = Some (Next u) \<and> pc u = pc t + 1 \<and> sp u = sp t - n \<and> env u = Field (mem t) (env t) 1
    \<and> extra_args u = extra_args t + of_nat n \<and> accu u = accu t \<and> caml_trapsp u = caml_trapsp t
    \<and> (\<forall>i < n. stk u i = Field (mem t) (env t) (i + 2)) \<and> (\<forall>a. a < sp t - n \<or> sp t \<le> a \<longrightarrow> mem u a = mem t a)"
    using call(3) size n stack yp unfolding pc [symmetric] by (intro RESTART_closure) (simp_all add: env, linarith)
  with g(1,8-) fields pc q show ?thesis by auto
qed

definition grab_machine :: machine where
  "grab_machine = initial_machine 10 ((blank_ctxt (\<lambda>p. of_nat p))\<lparr>caml_stack_high := 100, caml_extern_sp := 90,
     caml_young_start := 150, caml_young_ptr := 200, code := (\<lambda>_. 0)(9 := RESTART, 10 := GRAB, 11 := 3)\<rparr>)
     \<lparr>sp := 50, env := 7, extra_args := 1\<rparr>"

definition grab_call :: machine where
  "grab_call = (let s1 = exec_GRAB (blank_runtime 0) (skip 1 grab_machine) in s1\<lparr>pc := 9, sp := 40, env := accu s1\<rparr>)"

lemma grab_machine_partial: "partial_call grab_machine 2"
  by (simp add: partial_call_def grab_machine_def initial_machine_def blank_ctxt_def ctxt.extend_def)

theorem GRAB_RESTART_round_trip_witness:
  "\<exists>u. step (blank_runtime 0) grab_call = Some (Next u) \<and> pc u = 10 \<and> env u = 7 \<and> sp u = 38 \<and> stk u 0 = 50 \<and> stk u 1 = 51"
proof -
  note g = GRAB_partial [where rt = "blank_runtime 0", OF grab_machine_partial]
  have sel: "pc grab_machine = 10" "env grab_machine = 7" "stk grab_machine 0 = 50" "stk grab_machine 1 = 51"
    "caml_young_ptr grab_machine = 200"
    by (simp_all add: grab_machine_def initial_machine_def blank_ctxt_def ctxt.extend_def)
  have "Code_val (mem (exec_GRAB (blank_runtime 0) (skip 1 grab_machine))) (accu (exec_GRAB (blank_runtime 0) (skip 1 grab_machine))) = 9"
    unfolding Code_val_def Field_def g(3) using g(5) by (simp add: sel)
  moreover have "code (exec_GRAB (blank_runtime 0) (skip 1 grab_machine)) 9 = RESTART"
    unfolding g(13) by (simp add: grab_machine_def initial_machine_def blank_ctxt_def ctxt.extend_def)
  ultimately show ?thesis
    using GRAB_RESTART_round_trip [OF grab_machine_partial, of grab_call "blank_runtime 0" "blank_runtime 0"]
    by (auto simp: grab_call_def Let_def sel sel(3,4) [simplified] less_2_cases_iff [unfolded One_nat_def])
qed

end
