(* ===== verification/Callback.thy ===== *)
theory Callback
  imports Interp_Partial
begin

text \<open>
  Callbacks from C to bytecode and the table of named values
  (\<^verbatim>\<open>callback.c\<close>). A callback pushes the arguments, a return frame and the
  closure, and runs the interpreter on a small code sequence that applies the
  closure, pops it and stops. The address \<open>cb\<close> is that of \<^verbatim>\<open>callback_code\<close>.
\<close>

section \<open>Callbacks\<close>

definition callback_code :: "u32 list" where
  "callback_code = [ACC, 0, APPLY, 0, POP, 1, STOP]"

primrec store_args :: "mlvalue list \<Rightarrow> ptr \<Rightarrow> memory \<Rightarrow> memory" where
  "store_args [] p m = m"
| "store_args (v # vs) p m = store_args vs (p + 1) (m(p := v))"

definition callback_frame :: "nat \<Rightarrow> mlvalue \<Rightarrow> mlvalue list \<Rightarrow> ctxt \<Rightarrow> ctxt" where
  "callback_frame cb closure args c =
     (let narg = length args; p = caml_extern_sp c - (narg + 4)
      in c\<lparr>caml_extern_sp := p,
           mem := (store_args args p (mem c))(p + narg := val_of_code (cb + 4), p + narg + 1 := Val_unit,
             p + narg + 2 := Val_long 0, p + narg + 3 := closure),
           code := (code c)(cb + 1 := of_nat (narg + 3), cb + 3 := of_nat narg)\<rparr>)"

definition caml_callbackN_exn :: "runtime \<Rightarrow> nat \<Rightarrow> mlvalue \<Rightarrow> mlvalue list \<Rightarrow> ctxt \<Rightarrow> (u32 + (mlvalue \<times> ctxt)) option" where
  "caml_callbackN_exn rt cb closure args c =
     map_option (map_sum id (\<lambda>(res, c').
         (res, if Is_exception_result res then c'\<lparr>caml_extern_sp := caml_extern_sp c' + (length args + 4)\<rparr> else c')))
       (caml_interprete rt cb (callback_frame cb closure args c))"

definition caml_callback_exn :: "runtime \<Rightarrow> nat \<Rightarrow> mlvalue \<Rightarrow> mlvalue \<Rightarrow> ctxt \<Rightarrow> (u32 + (mlvalue \<times> ctxt)) option" where
  "caml_callback_exn rt cb closure arg1 = caml_callbackN_exn rt cb closure [arg1]"

definition caml_callback2_exn :: "runtime \<Rightarrow> nat \<Rightarrow> mlvalue \<Rightarrow> mlvalue \<Rightarrow> mlvalue \<Rightarrow> ctxt \<Rightarrow> (u32 + (mlvalue \<times> ctxt)) option" where
  "caml_callback2_exn rt cb closure arg1 arg2 = caml_callbackN_exn rt cb closure [arg1, arg2]"

definition caml_callback3_exn ::
    "runtime \<Rightarrow> nat \<Rightarrow> mlvalue \<Rightarrow> mlvalue \<Rightarrow> mlvalue \<Rightarrow> mlvalue \<Rightarrow> ctxt \<Rightarrow> (u32 + (mlvalue \<times> ctxt)) option" where
  "caml_callback3_exn rt cb closure arg1 arg2 arg3 = caml_callbackN_exn rt cb closure [arg1, arg2, arg3]"

text \<open>The variants that raise again: a fatal error of the interpreter has no outcome.\<close>

definition propagate :: "(u32 + (mlvalue \<times> ctxt)) option \<Rightarrow> mlvalue outcome option" where
  "propagate r =
     (case r of
        Some (Inr (res, c)) \<Rightarrow> Some (if Is_exception_result res then Exn (Extract_exception res) c else Ret res c)
      | _ \<Rightarrow> None)"

definition caml_callback :: "runtime \<Rightarrow> nat \<Rightarrow> mlvalue \<Rightarrow> mlvalue \<Rightarrow> ctxt \<Rightarrow> mlvalue outcome option" where
  "caml_callback rt cb closure arg c = propagate (caml_callback_exn rt cb closure arg c)"

definition caml_callback2 :: "runtime \<Rightarrow> nat \<Rightarrow> mlvalue \<Rightarrow> mlvalue \<Rightarrow> mlvalue \<Rightarrow> ctxt \<Rightarrow> mlvalue outcome option" where
  "caml_callback2 rt cb closure arg1 arg2 c = propagate (caml_callback2_exn rt cb closure arg1 arg2 c)"

definition caml_callback3 ::
    "runtime \<Rightarrow> nat \<Rightarrow> mlvalue \<Rightarrow> mlvalue \<Rightarrow> mlvalue \<Rightarrow> mlvalue \<Rightarrow> ctxt \<Rightarrow> mlvalue outcome option" where
  "caml_callback3 rt cb closure arg1 arg2 arg3 c = propagate (caml_callback3_exn rt cb closure arg1 arg2 arg3 c)"

definition caml_callbackN :: "runtime \<Rightarrow> nat \<Rightarrow> mlvalue \<Rightarrow> mlvalue list \<Rightarrow> ctxt \<Rightarrow> mlvalue outcome option" where
  "caml_callbackN rt cb closure args c = propagate (caml_callbackN_exn rt cb closure args c)"

section \<open>Named values\<close>

text \<open>
  A bucket is the list of its entries, the most recent first. Names are the
  bytes of the C string; \<^verbatim>\<open>char\<close> is signed, so a byte is sign-extended before
  it is added to the hash. The allocation of an entry is taken to succeed, and
  the registration of a new entry with the collector as a global root, which
  does not concern the table, is left out.
\<close>

type_synonym named_value_table = "nat \<Rightarrow> (8 word list \<times> mlvalue) list"

abbreviation (input) Named_value_size :: u32 where "Named_value_size \<equiv> 13"

primrec hash_name_loop :: "u32 \<Rightarrow> 8 word list \<Rightarrow> u32" where
  "hash_name_loop hv [] = hv"
| "hash_name_loop hv (ch # name) = hash_name_loop (hv * 19 + scast ch) name"

definition hash_value_name :: "8 word list \<Rightarrow> nat" where
  "hash_value_name name = unat (hash_name_loop 0 name mod Named_value_size)"

fun set_named :: "8 word list \<Rightarrow> mlvalue \<Rightarrow> (8 word list \<times> mlvalue) list \<Rightarrow> (8 word list \<times> mlvalue) list option" where
  "set_named name v [] = None"
| "set_named name v ((n, w) # nvs) = (if name = n then Some ((n, v) # nvs) else map_option (Cons (n, w)) (set_named name v nvs))"

definition caml_register_named_value :: "8 word list \<Rightarrow> mlvalue \<Rightarrow> named_value_table \<Rightarrow> named_value_table" where
  "caml_register_named_value name v t =
     (let i = hash_value_name name
      in case set_named name v (t i) of
           Some nvs \<Rightarrow> t(i := nvs)
         | None \<Rightarrow> t(i := (name, v) # t i))"

fun find_named :: "8 word list \<Rightarrow> (8 word list \<times> mlvalue) list \<Rightarrow> mlvalue option" where
  "find_named name [] = None"
| "find_named name ((n, v) # nvs) = (if name = n then Some v else find_named name nvs)"

definition caml_named_value :: "8 word list \<Rightarrow> named_value_table \<Rightarrow> mlvalue option" where
  "caml_named_value name t = find_named name (t (hash_value_name name))"

section \<open>Lemmas on named values\<close>

lemma hash_value_name_less: "hash_value_name name < 13"
  unfolding hash_value_name_def by (simp add: unat_mod_distrib)

lemma set_named_Some: "set_named name v nvs = Some nvs' \<Longrightarrow> find_named x nvs' = (if x = name then Some v else find_named x nvs)"
  by (induction nvs arbitrary: nvs') (auto split: if_splits)

lemma set_named_distinct: "set_named name v nvs = Some nvs' \<Longrightarrow> map fst nvs' = map fst nvs"
  by (induction nvs arbitrary: nvs') (auto split: if_splits)

lemma set_named_None: "set_named name v nvs = None \<longleftrightarrow> name \<notin> set (map fst nvs)"
  by (induction nvs) (auto split: if_splits)

definition well_hashed :: "named_value_table \<Rightarrow> bool" where
  "well_hashed t = (\<forall>i. distinct (map fst (t i)) \<and> list_all (\<lambda>n. hash_value_name n = i) (map fst (t i)))"

lemma register_lookup:
  "caml_named_value x (caml_register_named_value name v t) = (if x = name then Some v else caml_named_value x t)"
  by (auto simp: caml_named_value_def caml_register_named_value_def Let_def set_named_Some split: option.split)

lemma register_well_hashed:
  assumes "well_hashed t"
  shows "well_hashed (caml_register_named_value name v t)"
proof (cases "set_named name v (t (hash_value_name name))")
  case None
  then show ?thesis using assms None [unfolded set_named_None]
    by (simp add: well_hashed_def caml_register_named_value_def Let_def)
next
  case (Some nvs)
  then show ?thesis using assms set_named_distinct [OF Some]
    by (simp add: well_hashed_def caml_register_named_value_def Let_def)
qed

section \<open>Lemmas on callbacks\<close>

inductive runs :: "runtime \<Rightarrow> machine \<Rightarrow> machine \<Rightarrow> bool" for rt where
  runs_refl: "runs rt s s"
| runs_step: "step rt s = Some (Next t) \<Longrightarrow> runs rt t u \<Longrightarrow> runs rt s u"

lemma interp_loop_runs: "runs rt s t \<Longrightarrow> interp_loop rt (Next s) = interp_loop rt (Next t)"
proof (induction rule: runs.induct)
  case (runs_step s t u)
  then show ?case by (subst interp_loop.simps) simp
qed simp

lemma interp_loop_return: "step rt s = Some (Return v c) \<Longrightarrow> interp_loop rt (Next s) = Some (Inr (v, c))"
  by (subst interp_loop.simps, simp) (subst interp_loop.simps, simp)

lemma store_args_at:
  "store_args vs p m a = (if p \<le> a \<and> a < p + length vs then vs ! (a - p) else m a)"
  by (induction vs arbitrary: p m) (auto simp: nth_Cons')

lemma exception_result:
  "v AND 3 = 0 \<Longrightarrow> Is_exception_result (Make_exception_result v) \<and> Extract_exception (Make_exception_result v) = v"
proof -
  assume a: "v AND 3 = 0"
  have "(v OR 2) AND 3 = (v AND 3) OR (2 AND 3)" by (rule bit.conj_disj_distrib2)
  moreover have "(v OR 2) AND NOT 3 = v AND NOT 3" by (simp add: bit.conj_disj_distrib2)
  moreover have "v AND NOT 3 = v"
    using a bit.conj_disj_distrib [of v 3 "NOT 3"] by simp
  ultimately show ?thesis using a by (simp add: Is_exception_result_def Make_exception_result_def Extract_exception_def)
qed

text \<open>
  The context is ready for a callback: the code sequence is in place, there
  is room for the frame above the threshold of the stack, and no signal is
  pending.
\<close>

definition callback_ready :: "nat \<Rightarrow> nat \<Rightarrow> ctxt \<Rightarrow> bool" where
  "callback_ready cb narg c =
     (cb \<noteq> 0 \<and> code c cb = ACC \<and> code c (cb + 2) = APPLY \<and> 1 \<le> narg \<and> narg \<le> 252
      \<and> caml_stack_threshold c + (narg + 4) \<le> caml_extern_sp c \<and> caml_extern_sp c \<le> caml_stack_high c
      \<and> \<not> caml_something_to_do c)"

text \<open>The state in which the body of the closure starts.\<close>

definition callee :: "nat \<Rightarrow> mlvalue \<Rightarrow> mlvalue list \<Rightarrow> ctxt \<Rightarrow> machine" where
  "callee cb closure args c =
     (let c1 = callback_frame cb closure args c; s = initial_machine cb c1
      in s\<lparr>pc := Code_val (mem c1) closure, accu := closure, env := closure, extra_args := of_nat (length args - 1)\<rparr>)"

lemma initial_machine_sel [simp]:
  "pc (initial_machine cb c) = cb" "sp (initial_machine cb c) = caml_extern_sp c" "mem (initial_machine cb c) = mem c"
  "code (initial_machine cb c) = code c" "caml_stack_threshold (initial_machine cb c) = caml_stack_threshold c"
  "caml_something_to_do (initial_machine cb c) = caml_something_to_do c"
  by (simp_all add: initial_machine_def ctxt.extend_def)

lemma callback_entry:
  assumes "callback_ready cb (length args) c"
  shows "runs rt (initial_machine cb (callback_frame cb closure args c)) (callee cb closure args c)"
proof -
  let ?n = "length args"
  define c1 where "c1 = callback_frame cb closure args c"
  let ?s = "initial_machine cb c1"
  let ?s1 = "?s\<lparr>pc := cb + 2, accu := closure\<rparr>"
  note r = assms [unfolded callback_ready_def]
  have n: "sint (of_nat k :: u32) = int k" if "k < 2 ^ 31" for k
    using that by (simp add: signed_of_nat signed_take_bit_int_eq_self)
  have code: "code c1 cb = ACC" "code c1 (cb + 1) = of_nat (?n + 3)" "code c1 (cb + 2) = APPLY" "code c1 (cb + 3) = of_nat ?n"
    using r by (simp_all add: c1_def callback_frame_def Let_def)
  have arg: "mem c1 (caml_extern_sp c1 + (?n + 3)) = closure"
    by (simp add: c1_def callback_frame_def Let_def)
  have "operand (?s\<lparr>pc := cb + 1\<rparr>) 0 = int (?n + 3)" using r n [of "?n + 3"] by (simp add: code(2) [simplified])
  then have acc: "step rt ?s = Some (Next ?s1)"
    unfolding step_def using code(1) arg ptr_off_nat [of "caml_extern_sp c1" "?n + 3"]
    by (simp add: dispatch_instr_def exec_stack_def)
  have "scast (of_nat ?n - 1 :: u32) = (of_nat (?n - 1) :: u64)"
  proof -
    have eq: "(of_nat ?n - 1 :: u32) = of_nat (?n - 1)" using r by (simp add: of_nat_diff)
    have "?n \<le> 252" using r by blast
    then have k: "?n - 1 < 2 ^ 31" by simp
    show ?thesis unfolding eq scast_eq n [OF k] by simp
  qed
  moreover have "caml_stack_threshold c1 \<le> caml_extern_sp c1" "\<not> caml_something_to_do c1"
    using r by (auto simp: c1_def callback_frame_def Let_def)
  ultimately have "step rt ?s1 = Some (Next (callee cb closure args c))"
    unfolding step_def using code(3,4)
    by (simp add: dispatch_instr_def exec_apply_def exec_APPLY_def enter_closure_def check_stacks_def check_signals_def
        callee_def Let_def numeral_3_eq_3 c1_def [symmetric])
  with acc show ?thesis unfolding c1_def by (blast intro: runs.intros)
qed

text \<open>
  The callback code as it stands at \<open>cb\<close>: each callback patches the two
  operands for its number of arguments, the rest is \<open>callback_code\<close>.
\<close>

definition callback_code_at :: "nat \<Rightarrow> (nat \<Rightarrow> u32) \<Rightarrow> bool" where
  "callback_code_at cb f = list_all (\<lambda>i. f (cb + i) = callback_code ! i) [0, 2, 4, 5, 6]"

text \<open>
  The state \<open>r\<close> is about to return from the callee: a \<open>RETURN\<close> that pops what
  the callee has above its return frame, which is at the depth below the top
  of the stack where the callback pushed it (the stack itself may have moved
  since) and is intact, with no arguments left to apply.
\<close>

definition about_to_return :: "nat \<Rightarrow> ctxt \<Rightarrow> machine \<Rightarrow> bool" where
  "about_to_return cb c r =
     (let depth = caml_stack_high c - (caml_extern_sp c - 4); frame = caml_stack_high r - depth
      in code r (pc r) = RETURN \<and> extra_args r = 0 \<and> depth \<le> caml_stack_high r
         \<and> ptr_off (sp r) (operand r 1) = frame \<and> mem r frame = val_of_code (cb + 4))"

lemma callback_exit:
  assumes "pc r = cb + 4" and "callback_code_at cb (code r)"
  shows "interp_loop rt (Next r) =
    Some (Inr (accu r, (ctxt_of r)\<lparr>caml_extern_sp := sp r + 1, caml_callback_depth := caml_callback_depth r - 1\<rparr>))"
proof -
  let ?r = "r\<lparr>pc := cb + 6, sp := sp r + 1\<rparr>"
  have code: "code r (cb + 4) = POP" "code r (cb + 5) = 1" "code r (cb + 6) = STOP"
    using assms(2) by (simp_all add: callback_code_at_def callback_code_def)
  have "step rt r = Some (Next ?r)"
    using assms(1) code(1) code(2) [folded add.commute [of 5 cb]] unfolding step_def
    by (simp add: dispatch_instr_def exec_stack_def add.commute [of 6 cb])
  then have "interp_loop rt (Next r) = interp_loop rt (Next ?r)"
    by (intro interp_loop_runs) (blast intro: runs.intros)
  moreover have "interp_loop rt (Next ?r) = Some (Inr (accu r, (ctxt_of r)\<lparr>caml_extern_sp := sp r + 1,
      caml_callback_depth := caml_callback_depth r - 1\<rparr>))"
    using code(3) by (intro interp_loop_return)
      (simp add: step_def dispatch_instr_def exec_control_def Let_def ctxt_of_def ctxt.truncate_def)
  ultimately show ?thesis by simp
qed

text \<open>The \<open>RETURN\<close> goes to the \<open>POP\<close> of the callback code, which drops the closure below the frame.\<close>

lemma callback_return:
  assumes "about_to_return cb c r" and "callback_code_at cb (code r)" and "4 * (cb + 4) < 2 ^ 64"
    and "4 \<le> caml_extern_sp c" and "caml_extern_sp c \<le> caml_stack_high c"
  shows "interp_loop rt (Next r) = Some (Inr (accu r, (ctxt_of r)\<lparr>
      caml_extern_sp := caml_stack_high r - (caml_stack_high c - caml_extern_sp c),
      caml_callback_depth := caml_callback_depth r - 1\<rparr>))"
proof -
  let ?f = "caml_stack_high r - (caml_stack_high c - (caml_extern_sp c - 4))"
  let ?r = "r\<lparr>pc := cb + 4, env := mem r (?f + 1), extra_args := Long_val (mem r (?f + 2)), sp := ?f + 3\<rparr>"
  note a = assms(1) [unfolded about_to_return_def Let_def]
  have "code_of_val (val_of_code (cb + 4)) = cb + 4" using assms(3) by (rule code_of_val_of_code)
  then have "step rt r = Some (Next ?r)"
    using a unfolding step_def by (simp add: dispatch_instr_def exec_apply_def exec_RETURN_def return_frame_def Let_def)
  then have "interp_loop rt (Next r) = interp_loop rt (Next ?r)"
    by (intro interp_loop_runs) (blast intro: runs.intros)
  moreover have "sp ?r + 1 = caml_stack_high r - (caml_stack_high c - caml_extern_sp c)"
  proof -
    have "caml_stack_high c - (caml_extern_sp c - 4) \<le> caml_stack_high r" using a by blast
    then show ?thesis using assms(4,5) by simp
  qed
  moreover have "ctxt_of ?r = ctxt_of r" by (simp add: ctxt_of_def ctxt.truncate_def)
  ultimately show ?thesis using callback_exit [of ?r cb rt] assms(2) by simp
qed

section \<open>Properties\<close>

text \<open>
  C24: A callback that returns gives the value of the closure and leaves the
  stack as it was. The closure starts with its arguments on top of the stack,
  above the return frame, and with their number in \<open>extra_args\<close>. When its
  execution reaches a \<open>RETURN\<close> that drops everything above that frame, with
  no arguments left and no change to the frame or the callback code, the
  callback terminates: its result is the accumulator, and \<open>caml_extern_sp\<close> is
  back at the distance from the top of the stack it had before the call,
  also when the stack was reallocated in between. The address of the callback
  code fits a word, the result is not an exception.
\<close>
theorem callback_returns:
  assumes "callback_ready cb (length args) c" and "4 * (cb + 4) < 2 ^ 64"
    and "runs rt (callee cb closure args c) r"
    and "about_to_return cb c r" and "callback_code_at cb (code r)" and "\<not> Is_exception_result (accu r)"
  shows "caml_callbackN_exn rt cb closure args c =
      Some (Inr (accu r, (ctxt_of r)\<lparr>caml_extern_sp := caml_stack_high r - (caml_stack_high c - caml_extern_sp c),
        caml_callback_depth := caml_callback_depth r - 1\<rparr>))
    \<and> sp (callee cb closure args c) = caml_extern_sp c - (length args + 4)
    \<and> extra_args (callee cb closure args c) = of_nat (length args - 1)
    \<and> (\<forall>i < length args. stk (callee cb closure args c) i = args ! i)
    \<and> mem (callee cb closure args c) (sp (callee cb closure args c) + length args) = val_of_code (cb + 4)"
proof -
  have q: "cb \<noteq> 0" "4 \<le> caml_extern_sp c" "caml_extern_sp c \<le> caml_stack_high c"
    using assms(1) by (simp_all add: callback_ready_def)
  then have "caml_interprete rt cb (callback_frame cb closure args c) = interp_loop rt (Next r)"
    using interp_loop_runs [OF callback_entry [OF assms(1)], of rt closure] interp_loop_runs [OF assms(3)]
    by (simp add: caml_interprete_def)
  with callback_return [OF assms(4,5,2) q(2,3), of rt] assms(6)
  have "caml_callbackN_exn rt cb closure args c =
      Some (Inr (accu r, (ctxt_of r)\<lparr>caml_extern_sp := caml_stack_high r - (caml_stack_high c - caml_extern_sp c),
        caml_callback_depth := caml_callback_depth r - 1\<rparr>))"
    by (simp add: caml_callbackN_exn_def)
  moreover have "\<forall>i < length args. stk (callee cb closure args c) i = args ! i"
    by (simp add: callee_def callback_frame_def Let_def store_args_at)
  ultimately show ?thesis by (simp add: callee_def callback_frame_def Let_def)
qed

text \<open>A closure at word 200 whose code, at 300, is the identity, and one at 210 that raises.\<close>

definition callback_ctxt :: ctxt where
  "callback_ctxt = (blank_ctxt ((\<lambda>_. 1)(200 := val_of_code 300, 210 := val_of_code 310)))\<lparr>caml_stack_high := 100,
     caml_stack_threshold := 10, caml_extern_sp := 90, caml_trapsp := 100, caml_trap_barrier := 101,
     code := (\<lambda>_. 0)(10 := ACC, 12 := APPLY, 14 := POP, 15 := 1, 16 := STOP, 301 := RETURN, 302 := 1, 310 := RAISE)\<rparr>"

definition returning :: machine where
  "returning = (callee 10 1600 [85] callback_ctxt)\<lparr>pc := 301, accu := 85\<rparr>"

lemmas callback_ctxt_simps =
  callback_ctxt_def blank_ctxt_def callee_def callback_frame_def initial_machine_def ctxt.extend_def Let_def

lemma returning_runs: "runs rt (callee 10 1600 [85] callback_ctxt) returning"
proof -
  have "Code_val (mem (callback_frame 10 1600 [85] callback_ctxt)) 1600 = 300"
    by (simp add: callback_ctxt_simps Code_val_def Field_def Op_val_def code_of_val_of_code)
  then have c: "callee 10 1600 [85] callback_ctxt = (initial_machine 10 (callback_frame 10 1600 [85] callback_ctxt))
      \<lparr>pc := 300, accu := 1600, env := 1600, extra_args := 0\<rparr>"
    by (simp add: callee_def Let_def)
  have "step rt (callee 10 1600 [85] callback_ctxt) = Some (Next returning)"
    unfolding returning_def c by (simp add: step_def dispatch_instr_def exec_stack_def callback_ctxt_simps)
  then show ?thesis by (blast intro: runs.intros)
qed

theorem callback_returns_witness:
  "\<exists>c. caml_callbackN_exn (blank_runtime 0) 10 1600 [85] callback_ctxt = Some (Inr (85, c)) \<and> caml_extern_sp c = 90"
proof -
  have "about_to_return 10 callback_ctxt returning" "callback_code_at 10 (code returning)"
    by (simp_all add: about_to_return_def callback_code_at_def callback_code_def returning_def callback_ctxt_simps)
  moreover have "callback_ready 10 (length [85]) callback_ctxt" "\<not> Is_exception_result (accu returning)"
    by (simp_all add: callback_ready_def returning_def Is_exception_result_def callback_ctxt_simps)
  ultimately show ?thesis
    using callback_returns [OF _ _ returning_runs, of "blank_runtime 0"]
    by (simp add: returning_def) (simp add: callback_ctxt_simps)
qed

text \<open>
  C30: An exception that escapes from a callback is reported and leaves the
  stack as it was: when the callee raises with no handler of its own, the
  callback returns the exception, marked, and \<open>caml_extern_sp\<close> is the one
  before the frame was pushed; the propagating variant raises that exception.
\<close>
theorem callback_uncaught:
  assumes "callback_ready cb (length args) c" and "runs rt (callee cb closure args c) r"
    and "code r (pc r) = RAISE" and "caml_trapsp r < caml_trap_barrier r" and "\<not> caml_backtrace_active r"
    and "caml_stack_high r = caml_stack_high c" and "initial_sp_offset r = initial_sp_offset (callee cb closure args c)"
    and "caml_stack_high r - initial_sp_offset r \<le> caml_trapsp r" and "accu r AND 3 = 0"
  shows "\<exists>c'. caml_callbackN_exn rt cb closure args c = Some (Inr (Make_exception_result (accu r), c'))
    \<and> caml_callbackN rt cb closure args c = Some (Exn (accu r) c') \<and> caml_extern_sp c' = caml_extern_sp c"
proof -
  note q = assms(1) [unfolded callback_ready_def]
  have "initial_sp_offset r = caml_stack_high c - (caml_extern_sp c - (length args + 4))"
    unfolding assms(7) by (simp add: callee_def callback_frame_def initial_machine_def ctxt.extend_def Let_def)
  then have base: "caml_stack_high r - initial_sp_offset r + (length args + 4) = caml_extern_sp c"
    using q unfolding assms(6) by simp
  let ?c = "(ctxt_of r)\<lparr>caml_extern_sp := caml_stack_high r - initial_sp_offset r, caml_callback_depth := caml_callback_depth r - 1\<rparr>"
  have "step rt r = Some (Return (Make_exception_result (accu r)) ?c)"
    using assms(3,4,5,8) unfolding step_def
    by (simp add: dispatch_instr_def exec_trap_def raise_exception_def Let_def ctxt_of_def ctxt.truncate_def)
  then have "interp_loop rt (Next r) = Some (Inr (Make_exception_result (accu r), ?c))"
    by (rule interp_loop_return)
  then have "caml_callbackN_exn rt cb closure args c =
      Some (Inr (Make_exception_result (accu r), ?c\<lparr>caml_extern_sp := caml_extern_sp c\<rparr>))"
    using interp_loop_runs [OF callback_entry [OF assms(1)], of rt closure] interp_loop_runs [OF assms(2)] q base
      exception_result [OF assms(9)]
    by (simp add: caml_callbackN_exn_def caml_interprete_def)
  then show ?thesis using exception_result [OF assms(9)] by (simp add: caml_callbackN_def propagate_def)
qed

theorem callback_uncaught_witness:
  "\<exists>c. caml_callbackN (blank_runtime 0) 10 1680 [85] callback_ctxt = Some (Exn 1680 c) \<and> caml_extern_sp c = 90"
proof -
  have "Code_val (mem (callback_frame 10 1680 [85] callback_ctxt)) 1680 = 310"
    by (simp add: callback_ctxt_simps Code_val_def Field_def Op_val_def code_of_val_of_code)
  then have c: "callee 10 1680 [85] callback_ctxt = (initial_machine 10 (callback_frame 10 1680 [85] callback_ctxt))
      \<lparr>pc := 310, accu := 1680, env := 1680, extra_args := 0\<rparr>"
    by (simp add: callee_def Let_def)
  show ?thesis
    using callback_uncaught [OF _ runs_refl, of 10 "[85]" callback_ctxt 1680 "blank_runtime 0"]
    by (simp add: c callback_ready_def) (simp add: callback_ctxt_simps, metis)
qed

text \<open>
  C32: The table of named values is a map: after a registration the name is
  bound to the value and every other name is bound as before, and the buckets
  stay free of duplicates with every name in the bucket of its hash.
\<close>
theorem named_value_table_map:
  assumes "well_hashed t"
  shows "well_hashed (caml_register_named_value name v t)
    \<and> caml_named_value x (caml_register_named_value name v t) = (if x = name then Some v else caml_named_value x t)"
  using assms by (simp add: register_lookup register_well_hashed)

theorem named_value_table_map_witness:
  "caml_named_value [65, 200] (caml_register_named_value [66] 5 (caml_register_named_value [65, 200] 3 (\<lambda>_. []))) = Some 3"
proof -
  have "well_hashed (\<lambda>_. [])" by (simp add: well_hashed_def)
  from named_value_table_map [OF this] show ?thesis
    by (simp add: named_value_table_map [THEN conjunct2] named_value_table_map [THEN conjunct1])
qed

end
