(* ===== verification/Lexing.thy ===== *)
theory Lexing
  imports Mlvalues
begin

text \<open>
  The table-driven automaton of generated lexers (\<^verbatim>\<open>lexing.c\<close>): the engine,
  its variant with memory of positions, and the interpretation of the small
  programs that update that memory. Strings and tables are read through
  pointers, so they are functions from offsets to bytes. An engine that would
  run forever is \<open>None\<close>; the failure on an empty token is \<open>Inl\<close>.
\<close>

section \<open>Tables and buffers\<close>

type_synonym bytes = "int \<Rightarrow> 8 word"

record lexer_buffer =
  refill_buff :: mlvalue
  lex_buffer :: bytes
  lex_buffer_len :: mlvalue
  lex_abs_pos :: mlvalue
  lex_start_pos :: mlvalue
  lex_curr_pos :: mlvalue
  lex_last_pos :: mlvalue
  lex_last_action :: mlvalue
  lex_eof_reached :: mlvalue
  lex_mem :: "8 word \<Rightarrow> mlvalue"
  lex_start_p :: mlvalue
  lex_curr_p :: mlvalue

record lexing_table =
  lex_base :: bytes
  lex_backtrk :: bytes
  lex_default :: bytes
  lex_trans :: bytes
  lex_check :: bytes
  lex_base_code :: bytes
  lex_backtrk_code :: bytes
  lex_default_code :: bytes
  lex_trans_code :: bytes
  lex_check_code :: bytes
  lex_code :: bytes

definition Short :: "bytes \<Rightarrow> int \<Rightarrow> int" where
  "Short tbl n = sint (ucast (tbl (n * 2)) OR push_bit 8 (ucast (tbl (n * 2 + 1))) :: 16 word)"

section \<open>The engine\<close>

definition lex_entry :: "mlvalue \<Rightarrow> lexer_buffer \<Rightarrow> int \<times> lexer_buffer" where
  "lex_entry start_state lexbuf =
     (let state = sint (Int_val start_state)
      in if state \<ge> 0
         then (state, lexbuf\<lparr>lex_start_pos := lex_curr_pos lexbuf, lex_last_pos := lex_curr_pos lexbuf,
                 lex_last_action := Val_int (- 1)\<rparr>)
         else (- state - 1, lexbuf))"

definition mark_backtrack :: "int \<Rightarrow> lexer_buffer \<Rightarrow> lexer_buffer" where
  "mark_backtrack backtrk lexbuf =
     (if backtrk \<ge> 0
      then lexbuf\<lparr>lex_last_pos := lex_curr_pos lexbuf, lex_last_action := Val_int (word_of_int backtrk)\<rparr>
      else lexbuf)"

text \<open>The next input character, 256 at the end of the input; \<open>None\<close> asks for a refill.\<close>

definition next_char :: "lexer_buffer \<Rightarrow> (int \<times> lexer_buffer) option" where
  "next_char lexbuf =
     (if sint (lex_curr_pos lexbuf) \<ge> sint (lex_buffer_len lexbuf)
      then if lex_eof_reached lexbuf = Val_bool False then None else Some (256, lexbuf)
      else Some (uint (lex_buffer lexbuf (sint (Long_val (lex_curr_pos lexbuf)))),
                 lexbuf\<lparr>lex_curr_pos := lex_curr_pos lexbuf + 2\<rparr>))"

definition lex_transition :: "lexing_table \<Rightarrow> int \<Rightarrow> int \<Rightarrow> int" where
  "lex_transition tbl state c =
     (let base = Short (lex_base tbl) state
      in if Short (lex_check tbl) (base + c) = state then Short (lex_trans tbl) (base + c)
         else Short (lex_default tbl) state)"

definition backtrack :: "lexer_buffer \<Rightarrow> (string + mlvalue) \<times> lexer_buffer" where
  "backtrack lexbuf =
     (let lexbuf' = lexbuf\<lparr>lex_curr_pos := lex_last_pos lexbuf\<rparr>
      in if lex_last_action lexbuf' = Val_int (- 1) then (Inl ''lexing: empty token'', lexbuf')
         else (Inr (lex_last_action lexbuf'), lexbuf'))"

definition erase_eof :: "int \<Rightarrow> lexer_buffer \<Rightarrow> lexer_buffer" where
  "erase_eof c lexbuf = (if c = 256 then lexbuf\<lparr>lex_eof_reached := Val_bool False\<rparr> else lexbuf)"

partial_function (option) lex_loop ::
    "lexing_table \<Rightarrow> int \<Rightarrow> lexer_buffer \<Rightarrow> ((string + mlvalue) \<times> lexer_buffer) option" where
  "lex_loop tbl state lexbuf =
     (let base = Short (lex_base tbl) state
      in if base < 0 then Some (Inr (Val_int (word_of_int (- base - 1))), lexbuf)
         else let lexbuf1 = mark_backtrack (Short (lex_backtrk tbl) state) lexbuf
              in case next_char lexbuf1 of
                   None \<Rightarrow> Some (Inr (Val_int (word_of_int (- state - 1))), lexbuf1)
                 | Some (c, lexbuf2) \<Rightarrow>
                     let state' = lex_transition tbl state c
                     in if state' < 0 then Some (backtrack lexbuf2) else lex_loop tbl state' (erase_eof c lexbuf2))"

definition caml_lex_engine ::
    "lexing_table \<Rightarrow> mlvalue \<Rightarrow> lexer_buffer \<Rightarrow> ((string + mlvalue) \<times> lexer_buffer) option" where
  "caml_lex_engine tbl start_state lexbuf = (let (state, lexbuf') = lex_entry start_state lexbuf in lex_loop tbl state lexbuf')"

section \<open>The engine with memory of positions\<close>

partial_function (option) run_mem :: "bytes \<Rightarrow> int \<Rightarrow> mlvalue \<Rightarrow> (8 word \<Rightarrow> mlvalue) \<Rightarrow> (8 word \<Rightarrow> mlvalue) option" where
  "run_mem prog pc curr_pos m =
     (let dst = prog pc
      in if dst = 0xFF then Some m
         else let src = prog (pc + 1)
              in run_mem prog (pc + 2) curr_pos (m(dst := if src = 0xFF then curr_pos else m src)))"

partial_function (option) run_tag :: "bytes \<Rightarrow> int \<Rightarrow> (8 word \<Rightarrow> mlvalue) \<Rightarrow> (8 word \<Rightarrow> mlvalue) option" where
  "run_tag prog pc m =
     (let dst = prog pc
      in if dst = 0xFF then Some m
         else let src = prog (pc + 1)
              in run_tag prog (pc + 2) (m(dst := if src = 0xFF then Val_int (- 1) else m src)))"

definition tag_action :: "lexing_table \<Rightarrow> bytes \<Rightarrow> int \<Rightarrow> lexer_buffer \<Rightarrow> lexer_buffer option" where
  "tag_action tbl offsets state lexbuf =
     map_option (\<lambda>m. lexbuf\<lparr>lex_mem := m\<rparr>) (run_tag (lex_code tbl) (Short offsets state) (lex_mem lexbuf))"

definition mem_action :: "lexing_table \<Rightarrow> int \<Rightarrow> int \<Rightarrow> lexer_buffer \<Rightarrow> lexer_buffer option" where
  "mem_action tbl pstate c lexbuf =
     (let base_code = Short (lex_base_code tbl) pstate;
          pc_off = (if Short (lex_check_code tbl) (base_code + c) = pstate then Short (lex_trans_code tbl) (base_code + c)
                    else Short (lex_default_code tbl) pstate)
      in if pc_off > 0
         then map_option (\<lambda>m. lexbuf\<lparr>lex_mem := m\<rparr>) (run_mem (lex_code tbl) pc_off (lex_curr_pos lexbuf) (lex_mem lexbuf))
         else Some lexbuf)"

partial_function (option) new_lex_loop ::
    "lexing_table \<Rightarrow> int \<Rightarrow> lexer_buffer \<Rightarrow> ((string + mlvalue) \<times> lexer_buffer) option" where
  "new_lex_loop tbl state lexbuf =
     (let base = Short (lex_base tbl) state
      in if base < 0
         then map_option (Pair (Inr (Val_int (word_of_int (- base - 1))))) (tag_action tbl (lex_base_code tbl) state lexbuf)
         else let backtrk = Short (lex_backtrk tbl) state
              in Option.bind (if backtrk \<ge> 0 then tag_action tbl (lex_backtrk_code tbl) state lexbuf else Some lexbuf)
                   (\<lambda>lexbuf0. let lexbuf1 = mark_backtrack backtrk lexbuf0
                    in case next_char lexbuf1 of
                         None \<Rightarrow> Some (Inr (Val_int (word_of_int (- state - 1))), lexbuf1)
                       | Some (c, lexbuf2) \<Rightarrow>
                           let state' = lex_transition tbl state c
                           in if state' < 0 then Some (backtrack lexbuf2)
                              else Option.bind (mem_action tbl state c lexbuf2)
                                     (\<lambda>lexbuf3. new_lex_loop tbl state' (erase_eof c lexbuf3))))"

definition caml_new_lex_engine ::
    "lexing_table \<Rightarrow> mlvalue \<Rightarrow> lexer_buffer \<Rightarrow> ((string + mlvalue) \<times> lexer_buffer) option" where
  "caml_new_lex_engine tbl start_state lexbuf =
     (let (state, lexbuf') = lex_entry start_state lexbuf in new_lex_loop tbl state lexbuf')"

section \<open>Reading positions\<close>

lemma Short_bounds: "- (2 ^ 15) \<le> Short t n" "Short t n < 2 ^ 15"
  unfolding Short_def by (rule order_trans [OF _ sint_ge], simp) (rule less_le_trans [OF sint_lt], simp)

lemma Val_bool_distinct [simp]: "Val_bool True \<noteq> Val_bool False" "Val_bool False \<noteq> Val_bool True"
  by (simp_all add: Val_bool_def Val_int_def Val_long_def)

text \<open>The scanner stands at position \<open>p\<close> of a buffer with \<open>n\<close> bytes.\<close>

definition scan_at :: "int \<Rightarrow> int \<Rightarrow> lexer_buffer \<Rightarrow> bool" where
  "scan_at p n lb = (lex_curr_pos lb = tagged p \<and> lex_buffer_len lb = tagged n
     \<and> p \<in> {- (2 ^ 62)..<2 ^ 62} \<and> n \<in> {- (2 ^ 62)..<2 ^ 62} \<and> p \<le> n
     \<and> lex_eof_reached lb \<in> {Val_bool False, Val_bool True})"

lemma next_char_at:
  assumes "scan_at p n lb"
  shows "next_char lb = (if p < n then Some (uint (lex_buffer lb p), lb\<lparr>lex_curr_pos := tagged (p + 1)\<rparr>)
     else if lex_eof_reached lb = Val_bool True then Some (256, lb) else None)"
  using assms unfolding scan_at_def next_char_def
  by (auto simp: sint_tagged Long_val_tagged tagged_add2)

lemma mark_backtrack_sel [simp]:
  "lex_curr_pos (mark_backtrack k lb) = lex_curr_pos lb" "lex_buffer_len (mark_backtrack k lb) = lex_buffer_len lb"
  "lex_eof_reached (mark_backtrack k lb) = lex_eof_reached lb" "lex_buffer (mark_backtrack k lb) = lex_buffer lb"
  "scan_at p n (mark_backtrack k lb) = scan_at p n lb"
  by (simp_all add: mark_backtrack_def scan_at_def)

lemma mark_backtrack_twice [simp]: "mark_backtrack k (mark_backtrack k lb) = mark_backtrack k lb"
  by (simp add: mark_backtrack_def)

text \<open>One round of the loop at each kind of state and position.\<close>

definition lex_action :: "lexing_table \<Rightarrow> int \<Rightarrow> int" where
  "lex_action tbl q = (let base = Short (lex_base tbl) q in if base < 0 then - base - 1 else Short (lex_backtrk tbl) q)"

lemma lex_action_bounds: "lex_action tbl q < 2 ^ 15" "Short (lex_base tbl) q < 0 \<Longrightarrow> 0 \<le> lex_action tbl q"
  using Short_bounds [of "lex_base tbl" q] Short_bounds [of "lex_backtrk tbl" q] by (auto simp: lex_action_def Let_def)

lemma lex_loop_final:
  "Short (lex_base tbl) q < 0 \<Longrightarrow> lex_loop tbl q lb = Some (Inr (Val_int (word_of_int (lex_action tbl q))), lb)"
  by (subst lex_loop.simps) (simp add: Let_def lex_action_def)

lemma lex_loop_round:
  assumes "0 \<le> Short (lex_base tbl) q" and "scan_at p n lb"
  defines "lb1 \<equiv> mark_backtrack (lex_action tbl q) lb"
  shows "p < n \<Longrightarrow> lex_loop tbl q lb =
      (let q' = lex_transition tbl q (uint (lex_buffer lb p)); lb2 = lb1\<lparr>lex_curr_pos := tagged (p + 1)\<rparr>
       in if q' < 0 then Some (backtrack lb2) else lex_loop tbl q' lb2)"
    and "p = n \<Longrightarrow> lex_eof_reached lb = Val_bool False \<Longrightarrow>
      lex_loop tbl q lb = Some (Inr (Val_int (word_of_int (- q - 1))), lb1)"
    and "p = n \<Longrightarrow> lex_eof_reached lb = Val_bool True \<Longrightarrow> lex_loop tbl q lb =
      (let q' = lex_transition tbl q 256
       in if q' < 0 then Some (backtrack lb1) else lex_loop tbl q' (lb1\<lparr>lex_eof_reached := Val_bool False\<rparr>))"
proof -
  have b: "Short (lex_backtrk tbl) q = lex_action tbl q" using assms(1) by (simp add: lex_action_def Let_def)
  have c: "uint (lex_buffer lb p) \<noteq> 256" using uint_lt2p [of "lex_buffer lb p"] by simp
  have s: "scan_at p n lb1" using assms(2) by (simp add: lb1_def)
  note round = lex_loop.simps [of tbl q lb, unfolded b lb1_def [symmetric] next_char_at [OF s] Let_def]
  show "p < n \<Longrightarrow> lex_loop tbl q lb =
      (let q' = lex_transition tbl q (uint (lex_buffer lb p)); lb2 = lb1\<lparr>lex_curr_pos := tagged (p + 1)\<rparr>
       in if q' < 0 then Some (backtrack lb2) else lex_loop tbl q' lb2)"
    using assms(1) c by (subst round) (simp add: Let_def erase_eof_def lb1_def)
  show "p = n \<Longrightarrow> lex_eof_reached lb = Val_bool False \<Longrightarrow>
      lex_loop tbl q lb = Some (Inr (Val_int (word_of_int (- q - 1))), lb1)"
    using assms(1) by (subst round) (simp add: lb1_def)
  show "p = n \<Longrightarrow> lex_eof_reached lb = Val_bool True \<Longrightarrow> lex_loop tbl q lb =
      (let q' = lex_transition tbl q 256
       in if q' < 0 then Some (backtrack lb1) else lex_loop tbl q' (lb1\<lparr>lex_eof_reached := Val_bool False\<rparr>))"
    using assms(1) by (subst round) (simp add: Let_def erase_eof_def lb1_def)
qed

section \<open>Refilling\<close>

text \<open>The buffer after a refill: \<open>n\<close> bytes \<open>b\<close>, of which the first ones were there before.\<close>

definition refilled :: "bytes \<Rightarrow> int \<Rightarrow> bool \<Rightarrow> lexer_buffer \<Rightarrow> lexer_buffer" where
  "refilled b n eof lb = lb\<lparr>lex_buffer := b, lex_buffer_len := tagged n, lex_eof_reached := Val_bool eof\<rparr>"

lemma mark_refilled: "mark_backtrack k (refilled b n e lb) = refilled b n e (mark_backtrack k lb)"
  by (simp add: mark_backtrack_def refilled_def)

lemma scan_refilled:
  "scan_at p m lb \<Longrightarrow> m \<le> n \<Longrightarrow> n < 2 ^ 62 \<Longrightarrow> scan_at p n (refilled b n e lb)"
  by (cases e) (auto simp: scan_at_def refilled_def)

definition refill_request :: "int \<Rightarrow> mlvalue" where
  "refill_request q = Val_int (word_of_int (- q - 1))"

lemma lex_transition_bound: "lex_transition tbl q c < 2 ^ 15"
  using Short_bounds(2) by (simp add: lex_transition_def Let_def)

lemma refilled_pos: "(refilled b n e lb)\<lparr>lex_curr_pos := v\<rparr> = refilled b n e (lb\<lparr>lex_curr_pos := v\<rparr>)"
  by (simp add: refilled_def)

lemma backtrack_refilled: "backtrack (refilled b n e lb) = map_prod id (refilled b n e) (backtrack lb)"
  by (simp add: backtrack_def refilled_def Let_def)

text \<open>The last action is none, or one of the lexer.\<close>

definition valid_action :: "mlvalue \<Rightarrow> bool" where
  "valid_action v = (Val_int (Int_val v) = v \<and> - 1 \<le> sint (Int_val v))"

lemma valid_action_intro [simp]: "- 1 \<le> a \<Longrightarrow> a < 2 ^ 15 \<Longrightarrow> valid_action (Val_int (word_of_int a))"
  by (simp add: valid_action_def Int_val_Val_int sint_sbintrunc' signed_take_bit_int_eq_self)

lemma valid_mark [simp]: "valid_action (lex_last_action lb) \<Longrightarrow> valid_action (lex_last_action (mark_backtrack (lex_action tbl q) lb))"
  using lex_action_bounds(1) [of tbl q] by (simp add: mark_backtrack_def)

lemma backtrack_result:
  "valid_action (lex_last_action lb) \<Longrightarrow>
   \<exists>r lb'. backtrack lb = (r, lb') \<and> (\<forall>v. r = Inr v \<longrightarrow> 0 \<le> sint (Int_val v)) \<and> valid_action (lex_last_action lb')"
proof -
  assume v: "valid_action (lex_last_action lb)"
  have "0 \<le> sint (Int_val (lex_last_action lb))" if "lex_last_action lb \<noteq> Val_int (- 1)"
  proof (rule ccontr)
    assume "\<not> 0 \<le> sint (Int_val (lex_last_action lb))"
    then have "sint (Int_val (lex_last_action lb)) = - 1" using v by (simp add: valid_action_def)
    then have "Int_val (lex_last_action lb) = - 1" by (metis sint_n1 signed_word_eqI)
    with v that show False by (metis valid_action_def)
  qed
  with v show ?thesis by (auto simp: backtrack_def Let_def)
qed

text \<open>
  Scanning without the end of the input and then again after a refill is
  scanning the refilled buffer.
\<close>

definition resume :: "(lexer_buffer \<Rightarrow> lexer_buffer) \<Rightarrow> (mlvalue \<Rightarrow> lexer_buffer \<Rightarrow> ((string + mlvalue) \<times> lexer_buffer) option) \<Rightarrow>
    ((string + mlvalue) \<times> lexer_buffer) option \<Rightarrow> ((string + mlvalue) \<times> lexer_buffer) option" where
  "resume f again r =
     (case r of
        None \<Rightarrow> None
      | Some (Inl e, lb) \<Rightarrow> Some (Inl e, f lb)
      | Some (Inr v, lb) \<Rightarrow> if sint (Int_val v) < 0 then again v (f lb) else Some (Inr v, f lb))"

lemma sint_refill_request: "0 \<le> q \<Longrightarrow> q < 2 ^ 15 \<Longrightarrow> sint (Int_val (refill_request q)) = - q - 1"
  unfolding refill_request_def by (rule sint_Int_val) simp

lemma lex_entry_request: "0 \<le> q \<Longrightarrow> q < 2 ^ 15 \<Longrightarrow> lex_entry (refill_request q) lb = (q, lb)"
  by (simp add: lex_entry_def sint_refill_request)

lemma lex_loop_refill:
  assumes "scan_at p m lb" and "m \<le> n" and "n < 2 ^ 62" and "lex_eof_reached lb = Val_bool False"
    and "\<forall>i. p \<le> i \<longrightarrow> i < m \<longrightarrow> b i = lex_buffer lb i" and "0 \<le> q" and "q < 2 ^ 15" and "valid_action (lex_last_action lb)"
  shows "lex_loop tbl q (refilled b n e lb) = resume (refilled b n e) (caml_lex_engine tbl) (lex_loop tbl q lb)"
  using assms
proof (induction "nat (m - p)" arbitrary: p lb q)
  case 0
  then have pm: "p = m" by (auto simp: scan_at_def)
  show ?case
  proof (cases "Short (lex_base tbl) q < 0")
    case True
    then show ?thesis using lex_action_bounds [of tbl q] by (simp add: lex_loop_final resume_def sint_Int_val)
  next
    case False
    then have "lex_loop tbl q lb = Some (Inr (refill_request q), mark_backtrack (lex_action tbl q) lb)"
      using 0 pm by (simp add: lex_loop_round [of _ _ p m] refill_request_def)
    moreover have "lex_loop tbl q (refilled b n e lb) = lex_loop tbl q (refilled b n e (mark_backtrack (lex_action tbl q) lb))"
      using False by (subst (1 2) lex_loop.simps) (simp add: mark_refilled lex_action_def Let_def)
    ultimately show ?thesis using 0
      by (simp add: resume_def sint_refill_request caml_lex_engine_def lex_entry_request)
  qed
next
  case (Suc k)
  then have pm: "p < m" by auto
  show ?case
  proof (cases "Short (lex_base tbl) q < 0")
    case True
    then show ?thesis using lex_action_bounds [of tbl q] by (simp add: lex_loop_final resume_def sint_Int_val)
  next
    case False
    let ?q = "lex_transition tbl q (uint (lex_buffer lb p))"
    let ?lb = "(mark_backtrack (lex_action tbl q) lb)\<lparr>lex_curr_pos := tagged (p + 1)\<rparr>"
    have 1: "lex_loop tbl q lb = (if ?q < 0 then Some (backtrack ?lb) else lex_loop tbl ?q ?lb)"
      using False Suc.prems pm by (simp add: lex_loop_round [of _ _ p m] Let_def)
    have "lex_buffer (refilled b n e lb) p = lex_buffer lb p" using Suc.prems(5) pm by (auto simp: refilled_def)
    then have 2: "lex_loop tbl q (refilled b n e lb) =
        (if ?q < 0 then Some (backtrack (refilled b n e ?lb)) else lex_loop tbl ?q (refilled b n e ?lb))"
      using False Suc.prems(1-3) pm
      by (simp add: lex_loop_round [OF _ scan_refilled] Let_def mark_refilled refilled_pos)
    show ?thesis
    proof (cases "?q < 0")
      case True
      then show ?thesis using 1 2 backtrack_result [of ?lb] Suc.prems(8)
        by (auto simp: resume_def backtrack_refilled split: sum.split)
    next
      case q: False
      have "lex_loop tbl ?q (refilled b n e ?lb) = resume (refilled b n e) (caml_lex_engine tbl) (lex_loop tbl ?q ?lb)"
        using Suc.prems Suc.hyps(2) pm q lex_transition_bound [of tbl q]
        by (intro Suc.hyps(1) [of "p + 1"]) (auto simp: scan_at_def)
      then show ?thesis using 1 2 q by simp
    qed
  qed
qed

section \<open>Longest match\<close>

text \<open>The automaton of the tables on a list of characters, and the prefixes it accepts with an action.\<close>

fun lex_run :: "lexing_table \<Rightarrow> int \<Rightarrow> int list \<Rightarrow> int option" where
  "lex_run tbl q [] = Some q"
| "lex_run tbl q (c # w) =
     (if Short (lex_base tbl) q < 0 \<or> lex_transition tbl q c < 0 then None else lex_run tbl (lex_transition tbl q c) w)"

definition lex_accept :: "lexing_table \<Rightarrow> int \<Rightarrow> int list \<Rightarrow> int option" where
  "lex_accept tbl q w =
     Option.bind (lex_run tbl q w) (\<lambda>q'. if lex_action tbl q' \<ge> 0 then Some (lex_action tbl q') else None)"

text \<open>The characters ahead: the rest of the buffer, and the end-of-input mark if it is known to follow.\<close>

definition lex_input :: "int \<Rightarrow> int \<Rightarrow> lexer_buffer \<Rightarrow> int list" where
  "lex_input p n lb = map (\<lambda>i. uint (lex_buffer lb i)) [p..n - 1] @ (if lex_eof_reached lb = Val_bool True then [256] else [])"

text \<open>
  The outcome of a scan: the longest accepted prefix, or no prefix and the
  recorded backtrack point, or a request for more input.
\<close>

inductive lex_outcome :: "lexing_table \<Rightarrow> int \<Rightarrow> int list \<Rightarrow> int \<Rightarrow> int \<Rightarrow> lexer_buffer \<Rightarrow> string + mlvalue \<Rightarrow> lexer_buffer \<Rightarrow> bool"
  for tbl q w p n lb where
  longest: "i \<le> length w \<Longrightarrow> lex_accept tbl q (take i w) = Some a \<Longrightarrow> \<forall>j. i < j \<and> j \<le> length w \<longrightarrow> lex_accept tbl q (take j w) = None \<Longrightarrow>
     lex_curr_pos lb' = tagged (min (p + int i) n) \<Longrightarrow> lex_outcome tbl q w p n lb (Inr (Val_int (word_of_int a))) lb'"
| unmatched: "\<forall>j. j \<le> length w \<longrightarrow> lex_accept tbl q (take j w) = None \<Longrightarrow> lex_run tbl q w = None \<Longrightarrow> (r, lb') = backtrack lb'' \<Longrightarrow>
     lex_last_pos lb'' = lex_last_pos lb \<Longrightarrow> lex_last_action lb'' = lex_last_action lb \<Longrightarrow> lex_outcome tbl q w p n lb r lb'"
| more: "lex_run tbl q w = Some q' \<Longrightarrow> 0 \<le> Short (lex_base tbl) q' \<Longrightarrow> lex_curr_pos lb' = tagged n \<Longrightarrow>
     lex_outcome tbl q w p n lb (Inr (refill_request q')) lb'"

lemma lex_input_char:
  "p < n \<Longrightarrow> lex_input p n lb = uint (lex_buffer lb p) # lex_input (p + 1) n (lb'\<lparr>lex_curr_pos := v\<rparr>)"
  if "lex_buffer lb' = lex_buffer lb" "lex_eof_reached lb' = lex_eof_reached lb"
  using that by (simp add: lex_input_def upto_rec1)

lemma lex_accept_Cons:
  "0 \<le> Short (lex_base tbl) q \<Longrightarrow> lex_accept tbl q (c # w) =
     (if lex_transition tbl q c < 0 then None else lex_accept tbl (lex_transition tbl q c) w)"
  by (simp add: lex_accept_def)

lemma lex_accept_final: "Short (lex_base tbl) q < 0 \<Longrightarrow> lex_accept tbl q w = (if w = [] then Some (lex_action tbl q) else None)"
  using lex_action_bounds(2) [of tbl q] by (cases w) (auto simp: lex_accept_def)

lemma lex_accept_Nil: "lex_accept tbl q [] = (if lex_action tbl q \<ge> 0 then Some (lex_action tbl q) else None)"
  by (simp add: lex_accept_def)

lemma all_upto_Suc: "(\<forall>j. j \<le> Suc k \<longrightarrow> P j) \<longleftrightarrow> P 0 \<and> (\<forall>j. j \<le> k \<longrightarrow> P (Suc j))"
  by (metis Suc_le_mono not0_implies_Suc zero_le)

text \<open>Falling back on the mark of this state, or on the one recorded before.\<close>

lemma lex_outcome_back:
  assumes "0 \<le> Short (lex_base tbl) q" and "scan_at p n lb"
    and none: "\<forall>j. 0 < j \<and> j \<le> length w \<longrightarrow> lex_accept tbl q (take j w) = None" and stuck: "lex_run tbl q w = None"
    and b: "(r, lb') = backtrack lb2"
    and m: "lex_last_pos lb2 = lex_last_pos (mark_backtrack (lex_action tbl q) lb)"
      "lex_last_action lb2 = lex_last_action (mark_backtrack (lex_action tbl q) lb)"
  shows "lex_outcome tbl q w p n lb r lb'"
proof (cases "lex_action tbl q \<ge> 0")
  case True
  have "Val_int (word_of_int (lex_action tbl q)) \<noteq> Val_int (- 1)"
  proof
    assume "Val_int (word_of_int (lex_action tbl q)) = Val_int (- 1)"
    then have "sint (Int_val (Val_int (word_of_int (lex_action tbl q)))) = sint (Int_val (Val_int (word_of_int (- 1))))" by simp
    then show False using True lex_action_bounds(1) [of tbl q] by (subst (asm) (1 2) sint_Int_val) simp_all
  qed
  with True b m have r: "r = Inr (Val_int (word_of_int (lex_action tbl q)))" "lex_curr_pos lb' = lex_curr_pos lb"
    by (simp_all add: backtrack_def mark_backtrack_def Let_def)
  then show ?thesis unfolding r(1) using assms(2) True none
    by (intro longest [of 0]) (simp_all add: lex_accept_Nil scan_at_def)
next
  case False
  then have "\<forall>j. j \<le> length w \<longrightarrow> lex_accept tbl q (take j w) = None"
    using none by (metis gr0I lex_accept_Nil take0)
  then show ?thesis using stuck b by (rule unmatched) (use m False in \<open>simp_all add: mark_backtrack_def\<close>)
qed

text \<open>Reading one character and going on.\<close>

lemma lex_outcome_step:
  assumes base: "0 \<le> Short (lex_base tbl) q" and s: "scan_at p n lb" and q': "0 \<le> lex_transition tbl q c"
    and out: "lex_outcome tbl (lex_transition tbl q c) w p' n lb2 r lb'"
    and p': "p' = min (p + 1) n"
    and m: "lex_last_pos lb2 = lex_last_pos (mark_backtrack (lex_action tbl q) lb)"
      "lex_last_action lb2 = lex_last_action (mark_backtrack (lex_action tbl q) lb)"
  shows "lex_outcome tbl q (c # w) p n lb r lb'"
  using out
proof cases
  case (longest i a)
  have pos: "min (p' + int i) n = min (p + int (Suc i)) n" using p' by simp
  have "lex_accept tbl q (take j (c # w)) = None" if j: "Suc i < j" "j \<le> length (c # w)" for j
  proof -
    obtain k where "j = Suc k" using j(1) by (cases j) auto
    then show ?thesis using longest(4) j base q' by (simp add: lex_accept_Cons)
  qed
  then show ?thesis unfolding longest(1) using longest base q'
    by (intro lex_outcome.longest [of "Suc i"]) (simp_all add: lex_accept_Cons pos del: of_nat_Suc)
next
  case (unmatched lb'')
  have none: "\<forall>j. 0 < j \<and> j \<le> length (c # w) \<longrightarrow> lex_accept tbl q (take j (c # w)) = None"
    using unmatched(1) base q' by (auto simp: take_Cons' lex_accept_Cons)
  have "lex_run tbl q (c # w) = None" using unmatched(2) base q' by simp
  then show ?thesis using lex_outcome_back [OF base s none _ unmatched(3)] unmatched(4,5) m by simp
next
  case (more q'')
  then show ?thesis unfolding more(1) using base q' by (intro lex_outcome.more) simp_all
qed

lemma lex_loop_outcome:
  assumes "scan_at p n lb" and "w = lex_input p n lb"
  shows "\<exists>r lb'. lex_loop tbl q lb = Some (r, lb') \<and> lex_outcome tbl q w p n lb r lb'"
  using assms
proof (induction w arbitrary: p lb q)
  case Nil
  then have pn: "p = n" "lex_eof_reached lb = Val_bool False"
    by (auto simp: lex_input_def scan_at_def split: if_splits)
  show ?case
  proof (cases "Short (lex_base tbl) q < 0")
    case True
    then show ?thesis using Nil pn by (auto simp: lex_loop_final lex_accept_final scan_at_def intro!: longest [of 0])
  next
    case False
    have "lex_loop tbl q lb = Some (Inr (refill_request q), mark_backtrack (lex_action tbl q) lb)"
      using lex_loop_round(2) [of tbl q p n lb] False Nil(1) pn by (simp add: refill_request_def)
    moreover have "lex_outcome tbl q [] p n lb (Inr (refill_request q)) (mark_backtrack (lex_action tbl q) lb)"
      using False Nil(1) pn by (intro more) (simp_all add: scan_at_def)
    ultimately show ?thesis by blast
  qed
next
  case (Cons c w)
  let ?q = "lex_transition tbl q c" and ?lb = "mark_backtrack (lex_action tbl q) lb"
  show ?case
  proof (cases "Short (lex_base tbl) q < 0")
    case True
    then show ?thesis using Cons.prems
      by (auto simp: lex_loop_final lex_accept_final scan_at_def take_Cons' intro!: longest [of 0])
  next
    case False
    have "\<exists>p' lb2 lb3. lex_loop tbl q lb = (if ?q < 0 then Some (backtrack lb3) else lex_loop tbl ?q lb2)
        \<and> p' = min (p + 1) n \<and> scan_at p' n lb2 \<and> w = lex_input p' n lb2
        \<and> lex_last_pos lb2 = lex_last_pos ?lb \<and> lex_last_action lb2 = lex_last_action ?lb
        \<and> lex_last_pos lb3 = lex_last_pos ?lb \<and> lex_last_action lb3 = lex_last_action ?lb"
    proof (cases "p < n")
      case True
      let ?lb2 = "?lb\<lparr>lex_curr_pos := tagged (p + 1)\<rparr>"
      have "lex_input p n lb = uint (lex_buffer lb p) # lex_input (p + 1) n ?lb2"
        using True by (intro lex_input_char) simp_all
      then show ?thesis using Cons.prems True False lex_loop_round(1) [of tbl q p n lb, OF _ _ True]
        by (intro exI [of _ "p + 1"] exI [of _ ?lb2]) (auto simp: scan_at_def Let_def)
    next
      case at_end: False
      then have "p = n" "lex_eof_reached lb = Val_bool True" "c = 256" "w = []"
        using Cons.prems by (auto simp: scan_at_def lex_input_def split: if_splits)
      then show ?thesis using Cons.prems False
        by (intro exI [of _ n] exI [of _ "?lb\<lparr>lex_eof_reached := Val_bool False\<rparr>"] exI [of _ ?lb])
          (auto simp: lex_loop_round(3) [of _ _ n n] scan_at_def Let_def lex_input_def)
    qed
    then obtain p' lb2 lb3 where round: "lex_loop tbl q lb = (if ?q < 0 then Some (backtrack lb3) else lex_loop tbl ?q lb2)"
      and p': "p' = min (p + 1) n" and s: "scan_at p' n lb2" "w = lex_input p' n lb2"
      and m: "lex_last_pos lb2 = lex_last_pos ?lb" "lex_last_action lb2 = lex_last_action ?lb"
        "lex_last_pos lb3 = lex_last_pos ?lb" "lex_last_action lb3 = lex_last_action ?lb" by blast
    show ?thesis
    proof (cases "?q < 0")
      case True
      obtain r lb' where b: "(r, lb') = backtrack lb3" by (metis surj_pair)
      have "lex_outcome tbl q (c # w) p n lb r lb'"
        using False True Cons.prems(1) m
        by (intro lex_outcome_back [OF _ _ _ _ b]) (auto simp: take_Cons' lex_accept_Cons)
      then show ?thesis using round True b [symmetric] by auto
    next
      case q: False
      obtain r lb' where "lex_loop tbl ?q lb2 = Some (r, lb')" "lex_outcome tbl ?q w p' n lb2 r lb'"
        using Cons.IH [OF s] by blast
      then show ?thesis using round q False Cons.prems(1) p' m by (auto intro!: lex_outcome_step)
    qed
  qed
qed

section \<open>The two engines\<close>

text \<open>Forgetting the memory of positions.\<close>

definition no_mem :: "lexer_buffer \<Rightarrow> lexer_buffer" where
  "no_mem lb = lb\<lparr>lex_mem := \<lambda>_. 0\<rparr>"

lemma no_mem_ops [simp]:
  "mark_backtrack k (no_mem lb) = no_mem (mark_backtrack k lb)"
  "next_char (no_mem lb) = map_option (map_prod id no_mem) (next_char lb)"
  "backtrack (no_mem lb) = map_prod id no_mem (backtrack lb)"
  "erase_eof c (no_mem lb) = no_mem (erase_eof c lb)"
  by (simp_all add: no_mem_def mark_backtrack_def next_char_def backtrack_def erase_eof_def Let_def)

lemma mark_backtrack_mem: "mark_backtrack k (lb\<lparr>lex_mem := m\<rparr>) = (mark_backtrack k lb)\<lparr>lex_mem := m\<rparr>"
  by (simp add: mark_backtrack_def)

lemma tag_action_no_mem: "tag_action tbl t q lb = Some lb' \<Longrightarrow> no_mem lb' = no_mem lb"
  by (auto simp: tag_action_def no_mem_def)

lemma mem_action_no_mem: "mem_action tbl q c lb = Some lb' \<Longrightarrow> no_mem lb' = no_mem lb"
  by (auto simp: no_mem_def mem_action_def Let_def split: if_splits)

lemma new_lex_loop_no_mem:
  assumes "new_lex_loop tbl q lb = Some y"
  shows "lex_loop tbl q (no_mem lb) = Some (map_prod id no_mem y)"
proof (rule new_lex_loop.raw_induct [where P = "\<lambda>tbl q lb y. lex_loop tbl q (no_mem lb) = Some (map_prod id no_mem y)",
      OF _ assms], goal_cases)
  case (1 loop tbl q lb y)
  let ?base = "Short (lex_base tbl) q" and ?bk = "Short (lex_backtrk tbl) q"
  show ?case
  proof (cases "?base < 0")
    case True
    then obtain z where z: "tag_action tbl (lex_base_code tbl) q lb = Some z" "y = (Inr (Val_int (word_of_int (- ?base - 1))), z)"
      using 1(2) by (auto simp: Let_def)
    show ?thesis unfolding z(2) using True tag_action_no_mem [OF z(1)] by (subst lex_loop.simps) (simp add: Let_def)
  next
    case False
    obtain lb0 where lb0: "(if ?bk \<ge> 0 then tag_action tbl (lex_backtrk_code tbl) q lb else Some lb) = Some lb0"
      using 1(2) False by (auto simp: Let_def bind_eq_Some_conv)
    then have mem0: "no_mem lb0 = no_mem lb" using tag_action_no_mem by (auto split: if_splits)
    let ?lb1 = "mark_backtrack ?bk lb0"
    have y: "(case next_char ?lb1 of
                 None \<Rightarrow> Some (Inr (Val_int (word_of_int (- q - 1))), ?lb1)
               | Some (c, lexbuf2) \<Rightarrow>
                   let state' = lex_transition tbl q c
                   in if state' < 0 then Some (backtrack lexbuf2)
                      else Option.bind (mem_action tbl q c lexbuf2) (\<lambda>lexbuf3. loop tbl state' (erase_eof c lexbuf3))) = Some y"
      using 1(2) False lb0 by (simp add: Let_def)
    show ?thesis
    proof (cases "next_char ?lb1")
      case None
      with y False show ?thesis unfolding mem0 [symmetric] by (subst lex_loop.simps) (auto simp: Let_def)
    next
      case (Some cl)
      obtain c lb2 where cl: "cl = (c, lb2)" by (cases cl)
      let ?q = "lex_transition tbl q c"
      have round: "lex_loop tbl q (no_mem lb) =
          (if ?q < 0 then Some (backtrack (no_mem lb2)) else lex_loop tbl ?q (no_mem (erase_eof c lb2)))"
        unfolding mem0 [symmetric] using False Some cl by (subst lex_loop.simps) (simp add: Let_def)
      show ?thesis
      proof (cases "?q < 0")
        case True
        with y Some cl round show ?thesis by (auto simp: Let_def id_def)
      next
        case q: False
        obtain lb3 where lb3: "mem_action tbl q c lb2 = Some lb3" "loop tbl ?q (erase_eof c lb3) = Some y"
          using y Some cl q by (auto simp: Let_def bind_eq_Some_conv)
        have "no_mem (erase_eof c lb3) = no_mem (erase_eof c lb2)"
          using mem_action_no_mem [OF lb3(1)] by (metis no_mem_ops(4))
        with 1(1) [OF lb3(2)] round q show ?thesis by simp
      qed
    qed
  qed
qed

section \<open>An example\<close>

text \<open>A lexer with one token, the letter a, and a buffer that holds ab.\<close>

definition a_table :: lexing_table where
  "a_table = \<lparr>lex_base = (\<lambda>_. 0)(2 := 0xFF, 3 := 0xFF), lex_backtrk = \<lambda>_. 0xFF, lex_default = \<lambda>_. 0xFF,
     lex_trans = (\<lambda>_. 0)(194 := 1), lex_check = (\<lambda>_. 0xFF)(194 := 0, 195 := 0), lex_base_code = \<lambda>_. 0, lex_backtrk_code = \<lambda>_. 0,
     lex_default_code = \<lambda>_. 0, lex_trans_code = \<lambda>_. 0, lex_check_code = \<lambda>_. 0, lex_code = \<lambda>_. 0xFF\<rparr>"

definition ab_buffer :: "bool \<Rightarrow> int \<Rightarrow> lexer_buffer" where
  "ab_buffer eof n = \<lparr>refill_buff = 1, lex_buffer = (\<lambda>_. 0)(0 := 97, 1 := 98), lex_buffer_len = tagged n, lex_abs_pos = 1,
     lex_start_pos = 1, lex_curr_pos = tagged 0, lex_last_pos = 1, lex_last_action = Val_int (- 1),
     lex_eof_reached = Val_bool eof, lex_mem = \<lambda>_. 1, lex_start_p = 1, lex_curr_p = 1\<rparr>"

lemma ab_buffer_scan: "0 \<le> n \<Longrightarrow> n < 2 ^ 62 \<Longrightarrow> scan_at 0 n (ab_buffer eof n)"
  by (cases eof) (simp_all add: scan_at_def ab_buffer_def)

lemma a_table_state:
  "Short (lex_base a_table) 0 = 0" "Short (lex_base a_table) 1 = - 1" "Short (lex_backtrk a_table) q = - 1"
  "lex_transition a_table 0 97 = 1" "mem_action a_table 0 97 lb = Some lb"
  by (simp_all add: a_table_def lex_transition_def mem_action_def Short_def)

section \<open>Properties\<close>

text \<open>
  C34: The lexer engine returns the longest match. From a start state it
  always stops: with the action of the longest prefix of the input that the
  automaton accepts, and the position just after it; or with a failure when
  no prefix is accepted and the automaton is stuck; or with a request for
  more input, when every character of the buffer has been read.
\<close>
theorem lex_engine_longest_match:
  assumes "scan_at p n lb" and "0 \<le> q" and "q < 2 ^ 15"
  defines "w \<equiv> lex_input p n lb"
  shows "\<exists>r lb'. caml_lex_engine tbl (Val_int (word_of_int q)) lb = Some (r, lb') \<and>
    ((\<exists>i a. r = Inr (Val_int (word_of_int a)) \<and> i \<le> length w \<and> lex_accept tbl q (take i w) = Some a
        \<and> (\<forall>j. i < j \<and> j \<le> length w \<longrightarrow> lex_accept tbl q (take j w) = None)
        \<and> lex_curr_pos lb' = tagged (min (p + int i) n))
     \<or> (r = Inl ''lexing: empty token'' \<and> lex_curr_pos lb' = tagged p
        \<and> (\<forall>j. j \<le> length w \<longrightarrow> lex_accept tbl q (take j w) = None) \<and> lex_run tbl q w = None)
     \<or> (\<exists>q'. r = Inr (refill_request q') \<and> lex_run tbl q w = Some q' \<and> lex_curr_pos lb' = tagged n))"
proof -
  let ?lb = "lb\<lparr>lex_start_pos := lex_curr_pos lb, lex_last_pos := lex_curr_pos lb, lex_last_action := Val_int (- 1)\<rparr>"
  have e: "lex_entry (Val_int (word_of_int q)) lb = (q, ?lb)"
    using assms(2,3) by (simp add: lex_entry_def sint_Int_val)
  have "scan_at p n ?lb" "w = lex_input p n ?lb" using assms(1) by (simp_all add: scan_at_def w_def lex_input_def)
  then obtain r lb' where "lex_loop tbl q ?lb = Some (r, lb')" and out: "lex_outcome tbl q w p n ?lb r lb'"
    using lex_loop_outcome by blast
  then have run: "caml_lex_engine tbl (Val_int (word_of_int q)) lb = Some (r, lb')" by (simp add: caml_lex_engine_def e)
  from out show ?thesis
  proof cases
    case (unmatched lb'')
    have "r = Inl ''lexing: empty token''" "lex_curr_pos lb' = tagged p"
      using unmatched(3,4,5) assms(1) by (simp_all add: backtrack_def Let_def scan_at_def)
    with unmatched(1,2) run show ?thesis by blast
  qed (use run in blast)+
qed

theorem lex_engine_longest_match_witness:
  "\<exists>lb'. caml_lex_engine a_table (Val_int 0) (ab_buffer True 2) = Some (Inr (Val_int 0), lb') \<and> lex_curr_pos lb' = tagged 1"
proof -
  have w: "lex_input 0 2 (ab_buffer True 2) = [97, 98, 256]"
    by (simp add: lex_input_def ab_buffer_def upto_rec1)
  have run: "lex_run a_table 0 [] = Some 0" "lex_run a_table 0 [97] = Some 1" "lex_run a_table 0 (97 # c # v) = None" for c v
    by (simp_all add: a_table_state)
  then have acc: "lex_accept a_table 0 (take i [97, 98, 256]) = (if i = 1 then Some 0 else None)" if "i \<le> 3" for i
    using that by (auto simp: lex_accept_def lex_action_def a_table_state le_Suc_eq numeral_3_eq_3)
  have "0 \<le> (2 :: int)" "(2 :: int) < 2 ^ 62" "(0 :: int) \<le> 0" "(0 :: int) < 2 ^ 15" by simp_all
  note lex_engine_longest_match [OF ab_buffer_scan [OF this(1,2), of True] this(3,4), of a_table, unfolded w]
  then show ?thesis using acc run(3) acc [of 1] by (auto split: if_splits)
qed

text \<open>
  C35: Refilling is transparent: scanning a buffer and, when the engine asks
  for more input, scanning again from the state it returned after the buffer
  was extended, gives the result and the buffer state of a single scan of the
  extended buffer.
\<close>
theorem lex_engine_refill:
  assumes "scan_at p m lb" and "lex_eof_reached lb = Val_bool False" and "valid_action (lex_last_action lb)"
    and "m \<le> n" and "n < 2 ^ 62" and "\<forall>i. p \<le> i \<longrightarrow> i < m \<longrightarrow> b i = lex_buffer lb i"
    and "sint (Int_val st) \<in> {- (2 ^ 15)..<2 ^ 15}"
  shows "caml_lex_engine tbl st (refilled b n e lb) =
    resume (refilled b n e) (caml_lex_engine tbl) (caml_lex_engine tbl st lb)"
proof -
  obtain q lb1 where e: "lex_entry st lb = (q, lb1)" by force
  have q: "0 \<le> q" "q < 2 ^ 15" using e assms(7) by (auto simp: lex_entry_def Let_def split: if_splits)
  have "scan_at p m lb1" "lex_eof_reached lb1 = Val_bool False" "valid_action (lex_last_action lb1)"
    "lex_buffer lb1 = lex_buffer lb"
    using e assms(1-3) valid_action_intro [of "- 1"] by (auto simp: lex_entry_def Let_def scan_at_def split: if_splits)
  then have "lex_loop tbl q (refilled b n e lb1) = resume (refilled b n e) (caml_lex_engine tbl) (lex_loop tbl q lb1)"
    using assms q by (intro lex_loop_refill [of p m]) simp_all
  moreover have "lex_entry st (refilled b n e lb) = (q, refilled b n e lb1)"
    using e by (auto simp: lex_entry_def refilled_def Let_def split: if_splits)
  ultimately show ?thesis using e by (simp add: caml_lex_engine_def)
qed

theorem lex_engine_refill_witness:
  "caml_lex_engine a_table (Val_int 0) (refilled (\<lambda>_. 97) 2 True (ab_buffer False 1)) =
    resume (refilled (\<lambda>_. 97) 2 True) (caml_lex_engine a_table) (caml_lex_engine a_table (Val_int 0) (ab_buffer False 1))"
  by (rule lex_engine_refill [of 0 1])
    (use ab_buffer_scan [of 1] valid_action_intro [of "- 1"] sint_Int_val [of 0] in \<open>simp_all add: ab_buffer_def\<close>)

text \<open>
  C38: The engine with memory of positions recognises the same tokens as the
  plain engine: whenever its memory programs end, it returns the same action
  or failure and leaves the same buffer state apart from the memory.
\<close>
theorem new_lex_engine_same_token:
  assumes "caml_new_lex_engine tbl st lb = Some (r, lb')"
  shows "caml_lex_engine tbl st (no_mem lb) = Some (r, no_mem lb')"
proof -
  obtain q lb1 where e: "lex_entry st lb = (q, lb1)" by force
  then have "lex_entry st (no_mem lb) = (q, no_mem lb1)"
    by (auto simp: lex_entry_def no_mem_def Let_def split: if_splits)
  then show ?thesis using new_lex_loop_no_mem [of tbl q lb1] assms e
    by (simp add: caml_new_lex_engine_def caml_lex_engine_def)
qed

theorem new_lex_engine_same_token_witness:
  "\<exists>lb'. caml_new_lex_engine a_table (Val_int 0) (ab_buffer True 2) = Some (Inr (Val_int 0), lb')
    \<and> caml_lex_engine a_table (Val_int 0) (no_mem (ab_buffer True 2)) = Some (Inr (Val_int 0), no_mem lb')"
proof -
  have tag: "tag_action a_table t q lb = Some lb" for t q lb
    by (simp add: tag_action_def a_table_def run_tag.simps)
  have nxt: "next_char (ab_buffer True 2) = Some (97, (ab_buffer True 2)\<lparr>lex_curr_pos := tagged 1\<rparr>)"
    using next_char_at [OF ab_buffer_scan [of 2 True]] by (simp add: ab_buffer_def)
  have entry: "lex_entry (Val_int 0) (ab_buffer True 2) = (0, ab_buffer True 2)"
    using sint_Int_val [of 0] by (simp add: lex_entry_def ab_buffer_def Val_long_def)
  have "\<exists>lb'. caml_new_lex_engine a_table (Val_int 0) (ab_buffer True 2) = Some (Inr (Val_int 0), lb')"
    unfolding caml_new_lex_engine_def entry Let_def prod.case
    by (subst new_lex_loop.simps, simp add: Let_def a_table_state mark_backtrack_def nxt,
        subst new_lex_loop.simps, simp add: Let_def a_table_state tag)
  then show ?thesis using new_lex_engine_same_token by blast
qed

end
