(* ===== verification/Parsing.thy ===== *)
theory Parsing
  imports Lexing
begin

text \<open>
  The pushdown automaton of generated parsers (\<^verbatim>\<open>parsing.c\<close>). The engine is
  called with a command, runs until it needs the ML side (a token, larger
  stacks, a semantic action, the error function) and returns a request; the
  registers survive in the environment. Its labels are the constructors of
  \<open>label\<close>, one branch of \<open>parse_step\<close> each. Assignments through the
  write barrier are plain updates here and the tracing output is left out.
\<close>

section \<open>Tables and environment\<close>

record parser_tables =
  transl_const :: "int \<Rightarrow> mlvalue"
  transl_block :: "u8 \<Rightarrow> mlvalue"
  lhs :: bytes
  len :: bytes
  defred :: bytes
  dgoto :: bytes
  sindex :: bytes
  rindex :: bytes
  gindex :: bytes
  tablesize :: mlvalue
  table :: bytes
  check :: bytes

record parser_env =
  s_stack :: "u64 \<Rightarrow> mlvalue"
  v_stack :: "u64 \<Rightarrow> mlvalue"
  symb_start_stack :: "u64 \<Rightarrow> mlvalue"
  symb_end_stack :: "u64 \<Rightarrow> mlvalue"
  stacksize :: mlvalue
  stackbase :: mlvalue
  curr_char :: mlvalue
  lval :: mlvalue
  symb_start :: mlvalue
  symb_end :: mlvalue
  env_asp :: mlvalue
  rule_len :: mlvalue
  rule_number :: mlvalue
  env_sp :: mlvalue
  env_state :: mlvalue
  env_errflag :: mlvalue

text \<open>The local variables, in registers between calls saved in the environment.\<close>

record parser_regs =
  state :: int
  psp :: u64
  errflag :: int

abbreviation (input) ERRCODE :: int where "ERRCODE \<equiv> 256"

abbreviation (input) START :: int where "START \<equiv> 0"
abbreviation (input) TOKEN_READ :: int where "TOKEN_READ \<equiv> 1"
abbreviation (input) STACKS_GROWN_1 :: int where "STACKS_GROWN_1 \<equiv> 2"
abbreviation (input) STACKS_GROWN_2 :: int where "STACKS_GROWN_2 \<equiv> 3"
abbreviation (input) SEMANTIC_ACTION_COMPUTED :: int where "SEMANTIC_ACTION_COMPUTED \<equiv> 4"
abbreviation (input) ERROR_DETECTED :: int where "ERROR_DETECTED \<equiv> 5"

datatype parser_output =
  READ_TOKEN | RAISE_PARSE_ERROR | GROW_STACKS_1 | GROW_STACKS_2 | COMPUTE_SEMANTIC_ACTION | CALL_ERROR_FUNCTION

definition SAVE :: "parser_regs \<Rightarrow> parser_env \<Rightarrow> parser_env" where
  "SAVE r env = env\<lparr>env_sp := Val_long (psp r), env_state := Val_int (word_of_int (state r)),
     env_errflag := Val_int (word_of_int (errflag r))\<rparr>"

definition RESTORE :: "parser_env \<Rightarrow> parser_regs" where
  "RESTORE env = \<lparr>state = sint (Int_val (env_state env)), psp = scast (Int_val (env_sp env)),
     errflag = sint (Int_val (env_errflag env))\<rparr>"

text \<open>The entry \<open>n1 + c\<close> of the packed table, where the check column belongs to \<open>c\<close>.\<close>

definition table_entry :: "parser_tables \<Rightarrow> int \<Rightarrow> u32 \<Rightarrow> int option" where
  "table_entry t n1 c =
     (let n2 = sint (word_of_int n1 + c)
      in if n1 \<noteq> 0 \<and> n2 \<ge> 0 \<and> n2 \<le> sint (Int_val (tablesize t)) \<and> Short (check t) n2 = sint c then Some n2 else None)"

section \<open>The automaton\<close>

datatype label = Loop | Testshift | Recover | Shift int | Shift_recover int | Push | Reduce int | Semantic_action

text \<open>Error recovery pops states until one can shift the error token.\<close>

function recover_loop :: "parser_tables \<Rightarrow> parser_env \<Rightarrow> u64 \<Rightarrow> (int \<times> u64) option" where
  "recover_loop t env sp =
     (let state1 = sint (Int_val (s_stack env sp))
      in case table_entry t (Short (sindex t) state1) (word_of_int ERRCODE) of
           Some n2 \<Rightarrow> Some (n2, sp)
         | None \<Rightarrow> if sp \<le> scast (Int_val (stackbase env)) then None else recover_loop t env (sp - 1))"
  by pat_completeness auto

termination
proof (relation "measure (\<lambda>(t, env, sp). unat sp)")
  fix t :: parser_tables and env sp x
  assume "\<not> sp \<le> scast (Int_val (stackbase env))"
  then have "sp \<noteq> 0" by (metis word_zero_le)
  then have "unat sp \<noteq> 0" by (simp add: unat_eq_0)
  then show "((t, env, sp - 1), t, env, sp) \<in> measure (\<lambda>(t, env, sp). unat sp)"
    using \<open>sp \<noteq> 0\<close> by (simp add: unat_minus_one)
qed simp

declare recover_loop.simps [simp del]

definition parse_step :: "parser_tables \<Rightarrow> label \<Rightarrow> parser_regs \<Rightarrow> parser_env \<Rightarrow>
    (label \<times> parser_regs \<times> parser_env) + (parser_output \<times> parser_env)" where
  "parse_step t lbl r env =
     (case lbl of
        Loop \<Rightarrow>
          let n = Short (defred t) (state r)
          in if n \<noteq> 0 then Inl (Reduce n, r, env)
             else if sint (Int_val (curr_char env)) \<ge> 0 then Inl (Testshift, r, env)
             else Inr (READ_TOKEN, SAVE r env)
      | Testshift \<Rightarrow>
          (case table_entry t (Short (sindex t) (state r)) (Int_val (curr_char env)) of
             Some n2 \<Rightarrow> Inl (Shift n2, r, env)
           | None \<Rightarrow>
               (case table_entry t (Short (rindex t) (state r)) (Int_val (curr_char env)) of
                  Some n2 \<Rightarrow> Inl (Reduce (Short (table t) n2), r, env)
                | None \<Rightarrow> if errflag r > 0 then Inl (Recover, r, env)
                           else Inr (CALL_ERROR_FUNCTION, SAVE r env)))
      | Recover \<Rightarrow>
          if errflag r < 3
          then (case recover_loop t env (psp r) of
                  Some (n2, sp) \<Rightarrow> Inl (Shift_recover n2, r\<lparr>errflag := 3, psp := sp\<rparr>, env)
                | None \<Rightarrow> Inr (RAISE_PARSE_ERROR, env))
          else if sint (Int_val (curr_char env)) = 0 then Inr (RAISE_PARSE_ERROR, env)
          else Inl (Loop, r, env\<lparr>curr_char := Val_int (- 1)\<rparr>)
      | Shift n2 \<Rightarrow>
          Inl (Shift_recover n2, if errflag r > 0 then r\<lparr>errflag := errflag r - 1\<rparr> else r,
               env\<lparr>curr_char := Val_int (- 1)\<rparr>)
      | Shift_recover n2 \<Rightarrow>
          let r' = r\<lparr>state := Short (table t) n2, psp := psp r + 1\<rparr>
          in if psp r' < Long_val (stacksize env) then Inl (Push, r', env) else Inr (GROW_STACKS_1, SAVE r' env)
      | Push \<Rightarrow>
          Inl (Loop, r, env\<lparr>s_stack := (s_stack env)(psp r := Val_int (word_of_int (state r))),
               v_stack := (v_stack env)(psp r := lval env),
               symb_start_stack := (symb_start_stack env)(psp r := symb_start env),
               symb_end_stack := (symb_end_stack env)(psp r := symb_end env)\<rparr>)
      | Reduce n \<Rightarrow>
          let m = Short (len t) n;
              env' = env\<lparr>env_asp := Val_long (psp r), rule_number := Val_int (word_of_int n),
                rule_len := Val_int (word_of_int m)\<rparr>;
              sp = psp r - word_of_int m + 1;
              nt = Short (lhs t) n;
              state1 = Int_val (s_stack env' (sp - 1));
              r' = r\<lparr>psp := sp, state :=
                (case table_entry t (Short (gindex t) nt) state1 of
                   Some n2 \<Rightarrow> Short (table t) n2
                 | None \<Rightarrow> Short (dgoto t) nt)\<rparr>
          in if psp r' < Long_val (stacksize env') then Inl (Semantic_action, r', env') else Inr (GROW_STACKS_2, SAVE r' env')
      | Semantic_action \<Rightarrow> Inr (COMPUTE_SEMANTIC_ACTION, SAVE r env))"

partial_function (option) parse_run ::
    "parser_tables \<Rightarrow> label \<Rightarrow> parser_regs \<Rightarrow> parser_env \<Rightarrow> (parser_output \<times> parser_env) option" where
  "parse_run t lbl r env =
     (case parse_step t lbl r env of
        Inl (lbl', r', env') \<Rightarrow> parse_run t lbl' r' env'
      | Inr res \<Rightarrow> Some res)"

definition token_read :: "parser_tables \<Rightarrow> memory \<Rightarrow> mlvalue \<Rightarrow> parser_env \<Rightarrow> parser_env" where
  "token_read t m arg env =
     (if Is_block arg
      then env\<lparr>curr_char := transl_block t (Tag_val m arg), lval := Field m arg 0\<rparr>
      else env\<lparr>curr_char := transl_const t (sint (Int_val arg)), lval := Val_long 0\<rparr>)"

definition action_computed :: "mlvalue \<Rightarrow> parser_regs \<Rightarrow> parser_env \<Rightarrow> parser_env" where
  "action_computed arg r env =
     (let asp = scast (Int_val (env_asp env));
          env1 = env\<lparr>s_stack := (s_stack env)(psp r := Val_int (word_of_int (state r))),
            v_stack := (v_stack env)(psp r := arg),
            symb_end_stack := (symb_end_stack env)(psp r := symb_end_stack env asp)\<rparr>
      in if psp r > asp
         then env1\<lparr>symb_start_stack := (symb_start_stack env1)(psp r := symb_end_stack env1 asp)\<rparr>
         else env1)"

definition caml_parse_engine ::
    "parser_tables \<Rightarrow> memory \<Rightarrow> parser_env \<Rightarrow> mlvalue \<Rightarrow> mlvalue \<Rightarrow> (parser_output \<times> parser_env) option" where
  "caml_parse_engine t m env cmd arg =
     (let c = sint (Int_val cmd)
      in if c = START then parse_run t Loop \<lparr>state = 0, psp = scast (Int_val (env_sp env)), errflag = 0\<rparr> env
         else if c = TOKEN_READ then parse_run t Testshift (RESTORE env) (token_read t m arg env)
         else if c = ERROR_DETECTED then parse_run t Recover (RESTORE env) env
         else if c = STACKS_GROWN_1 then parse_run t Push (RESTORE env) env
         else if c = STACKS_GROWN_2 then parse_run t Semantic_action (RESTORE env) env
         else if c = SEMANTIC_ACTION_COMPUTED
         then let r = RESTORE env in parse_run t Loop r (action_computed arg r env)
         else Some (RAISE_PARSE_ERROR, env))"

section \<open>Termination\<close>

text \<open>
  A bound on the labels still to pass: a token is shifted or discarded at most
  once per call, and error recovery, which keeps the token, raises the error
  flag to 3, after which the token is discarded.
\<close>

definition token_left :: "parser_env \<Rightarrow> bool" where
  "token_left env = (sint (Int_val (curr_char env)) \<ge> 0)"

fun bound :: "label \<Rightarrow> bool \<Rightarrow> bool \<Rightarrow> nat" where
  "bound Semantic_action tok three = 0"
| "bound (Reduce n) tok three = 1"
| "bound Loop tok three = (if tok then (if three then 7 else 12) else 2)"
| "bound Push tok three = (if tok then (if three then 8 else 13) else 3)"
| "bound (Shift_recover n) tok three = (if tok then (if three then 9 else 14) else 4)"
| "bound (Shift n) tok three = 5"
| "bound Testshift tok three = (if tok then (if three then 6 else 11) else 6)"
| "bound Recover tok three = (if three then 3 else if tok then 10 else 5)"

lemma no_token [simp]: "\<not> token_left (env\<lparr>curr_char := Val_int (- 1)\<rparr>)"
  using sint_Int_val [of "- 1"] by (simp add: token_left_def)

lemma token_left_upd [simp]:
  "token_left (SAVE r env) = token_left env"
  "token_left (env\<lparr>s_stack := a, v_stack := b, symb_start_stack := c, symb_end_stack := d\<rparr>) = token_left env"
  "token_left (env\<lparr>env_asp := v, rule_number := w, rule_len := x\<rparr>) = token_left env"
  by (simp_all add: token_left_def SAVE_def)

lemma parse_step_bound:
  assumes "parse_step t lbl r env = Inl (lbl', r', env')"
  shows "bound lbl' (token_left env') (3 \<le> errflag r') < bound lbl (token_left env) (3 \<le> errflag r)"
proof (cases lbl)
  case Loop
  with assms show ?thesis by (auto simp: parse_step_def Let_def token_left_def split: if_splits)
next
  case Testshift
  with assms show ?thesis by (auto simp: parse_step_def Let_def split: if_splits option.splits)
next
  case Recover
  with assms show ?thesis by (auto simp: parse_step_def Let_def split: if_splits option.splits)
next
  case (Shift n)
  with assms show ?thesis by (auto simp: parse_step_def Let_def)
next
  case (Shift_recover n)
  with assms show ?thesis by (auto simp: parse_step_def Let_def split: if_splits)
next
  case Push
  with assms show ?thesis by (auto simp: parse_step_def Let_def)
next
  case (Reduce n)
  with assms show ?thesis by (auto simp: parse_step_def Let_def split: if_splits)
next
  case Semantic_action
  with assms show ?thesis by (simp add: parse_step_def)
qed

lemma parse_run_returns: "\<exists>res. parse_run t lbl r env = Some res"
proof (induction "bound lbl (token_left env) (3 \<le> errflag r)" arbitrary: lbl r env rule: less_induct)
  case less
  show ?case
  proof (cases "parse_step t lbl r env")
    case (Inl a)
    obtain lbl' r' env' where a: "a = (lbl', r', env')" by (cases a)
    have "\<exists>res. parse_run t lbl' r' env' = Some res"
      using parse_step_bound [of t lbl r env] Inl a by (intro less) simp
    then show ?thesis using Inl a by (subst parse_run.simps) simp
  next
    case (Inr b)
    then show ?thesis by (subst parse_run.simps) simp
  qed
qed

section \<open>The LR automaton\<close>

text \<open>
  The automaton the tables describe: a configuration is the current state,
  the stack of states above the base, topmost first, and the token, negative
  when there is none.
\<close>

type_synonym lr_config = "int \<times> int list \<times> int"

definition goto_state :: "parser_tables \<Rightarrow> int \<Rightarrow> int \<Rightarrow> int" where
  "goto_state t nt q =
     (case table_entry t (Short (gindex t) nt) (word_of_int q) of
        Some n2 \<Rightarrow> Short (table t) n2
      | None \<Rightarrow> Short (dgoto t) nt)"

definition lr_shift :: "parser_tables \<Rightarrow> int \<Rightarrow> int \<Rightarrow> int option" where
  "lr_shift t q c =
     (if Short (defred t) q = 0 \<and> c \<ge> 0
      then map_option (Short (table t)) (table_entry t (Short (sindex t) q) (word_of_int c)) else None)"

definition lr_reduce :: "parser_tables \<Rightarrow> int \<Rightarrow> int \<Rightarrow> int option" where
  "lr_reduce t q c =
     (if Short (defred t) q \<noteq> 0 then Some (Short (defred t) q)
      else if c \<ge> 0 \<and> lr_shift t q c = None
      then map_option (Short (table t)) (table_entry t (Short (rindex t) q) (word_of_int c)) else None)"

definition lr_reduced :: "parser_tables \<Rightarrow> int \<Rightarrow> int list \<Rightarrow> int list" where
  "lr_reduced t n ss =
     (let rest = drop (nat (Short (len t) n)) ss in goto_state t (Short (lhs t) n) (List.hd rest) # rest)"

text \<open>The rule leaves a state on the stack from which to go on.\<close>

definition rule_fits :: "parser_tables \<Rightarrow> int \<Rightarrow> int list \<Rightarrow> bool" where
  "rule_fits t n ss = (0 \<le> Short (len t) n \<and> Short (len t) n < int (length ss))"

text \<open>The stack of states as it lies in the array, and the relation of the registers to a configuration.\<close>

definition state_stack :: "parser_env \<Rightarrow> nat \<Rightarrow> nat \<Rightarrow> int list" where
  "state_stack env b n = rev (map (\<lambda>i. sint (Int_val (s_stack env (of_nat i)))) [b..<n])"

definition lr_rel :: "nat \<Rightarrow> parser_regs \<Rightarrow> parser_env \<Rightarrow> lr_config \<Rightarrow> bool" where
  "lr_rel b r env cfg =
     (let (q, ss, c) = cfg; n = unat (psp r)
      in state r = q \<and> - (2 ^ 15) \<le> q \<and> q < 2 ^ 15 \<and> errflag r = 0 \<and> b \<le> n + 1 \<and> ss = state_stack env b (n + 1)
         \<and> c = sint (Int_val (curr_char env))
         \<and> n < unat (Long_val (stacksize env)) \<and> unat (Long_val (stacksize env)) \<le> 2 ^ 31)"

definition has_room :: "nat \<Rightarrow> parser_regs \<Rightarrow> parser_env \<Rightarrow> bool" where
  "has_room n r env = (unat (psp r) + n < unat (Long_val (stacksize env)))"

text \<open>The rules that can apply to a configuration, or after shifting its token, leave a state on the stack.\<close>

definition rules_fit :: "parser_tables \<Rightarrow> int \<Rightarrow> int list \<Rightarrow> int \<Rightarrow> bool" where
  "rules_fit t q ss c = (case lr_reduce t q c of None \<Rightarrow> True | Some n \<Rightarrow> rule_fits t n ss)"

definition lr_valid :: "parser_tables \<Rightarrow> lr_config \<Rightarrow> bool" where
  "lr_valid t cfg =
     (let (q, ss, c) = cfg
      in rules_fit t q ss c \<and> (case lr_shift t q c of None \<Rightarrow> True | Some q' \<Rightarrow> rules_fit t q' (q' # ss) (- 1)))"

text \<open>
  What a call does from a configuration: it stops for a token, or with a
  reduction to compute, whose result continues the automaton, or because the
  automaton has no move; it may shift the token before the first two.
\<close>

inductive lr_outcome :: "parser_tables \<Rightarrow> nat \<Rightarrow> lr_config \<Rightarrow> parser_output \<Rightarrow> parser_env \<Rightarrow> bool" for t b where
  waiting: "c < 0 \<Longrightarrow> Short (defred t) q = 0 \<Longrightarrow> lr_rel b (RESTORE env) env (q, ss, c) \<Longrightarrow>
     lr_outcome t b (q, ss, c) READ_TOKEN env"
| reducing: "lr_reduce t q c = Some n \<Longrightarrow> rule_number env = Val_int (word_of_int n) \<Longrightarrow>
     \<forall>v. lr_rel b (RESTORE env) (action_computed v (RESTORE env) env) (List.hd (lr_reduced t n ss), lr_reduced t n ss, c) \<Longrightarrow>
     lr_outcome t b (q, ss, c) COMPUTE_SEMANTIC_ACTION env"
| stuck: "0 \<le> c \<Longrightarrow> lr_shift t q c = None \<Longrightarrow> lr_reduce t q c = None \<Longrightarrow> lr_rel b (RESTORE env) env (q, ss, c) \<Longrightarrow>
     lr_outcome t b (q, ss, c) CALL_ERROR_FUNCTION env"
| shifting: "lr_shift t q c = Some q' \<Longrightarrow> lr_outcome t b (q', q' # ss, - 1) out env \<Longrightarrow> lr_outcome t b (q, ss, c) out env"

lemma scast_Int_val:
  assumes n: "unat x < 2 ^ 31"
  shows "scast (Int_val (Val_long x)) = x"
proof -
  have "int (unat x) < int (2 ^ 31)" using n by (rule of_nat_less_iff [THEN iffD2])
  then have u: "0 \<le> uint x" "uint x < 2 ^ 31" by simp_all
  have fits: "signed_take_bit 63 i = i" "signed_take_bit 31 i = i" "take_bit 32 i = i"
    "i \<in> {- (2 ^ 62)..<2 ^ 62}" if "0 \<le> i" "i < 2 ^ 31" for i :: int
    using that by (simp_all add: signed_take_bit_int_eq_self take_bit_int_eq_self)
  have "sint x = uint x" using fits(1) [OF u] by (simp add: sint_uint)
  then have 1: "Long_val (Val_long x) = x" by (intro Long_val_Val_long) (simp only: fits(4) [OF u])
  have "uint (ucast x :: u32) = uint x" using fits(3) [OF u] by (simp add: unsigned_ucast_eq)
  then have "sint (ucast x :: u32) = uint x" using fits(2) [OF u] by (simp add: sint_uint)
  with 1 show ?thesis by (simp add: Int_val_def scast_eq)
qed

lemma RESTORE_SAVE:
  assumes "unat (psp r) < 2 ^ 31" and "- (2 ^ 15) \<le> state r" and "state r < 2 ^ 15" and "errflag r = 0"
  shows "RESTORE (SAVE r env) = r"
  using assms sint_Int_val [of "state r"] sint_Int_val [of 0] by (simp add: RESTORE_def SAVE_def scast_Int_val)

lemma lr_rel_SAVE: "lr_rel b r env cfg \<Longrightarrow> lr_rel b (RESTORE (SAVE r env)) (SAVE r env) cfg"
  by (subst RESTORE_SAVE) (auto simp: lr_rel_def SAVE_def state_stack_def Let_def split: prod.splits)

lemma parse_run_Inl: "parse_step t lbl r env = Inl (lbl', r', env') \<Longrightarrow> parse_run t lbl r env = parse_run t lbl' r' env'"
  by (subst parse_run.simps) simp

lemma parse_run_Inr: "parse_step t lbl r env = Inr res \<Longrightarrow> parse_run t lbl r env = Some res"
  by (subst parse_run.simps) simp

text \<open>Pushing a state: the array below the stack pointer does not change.\<close>

lemma state_stack_push:
  assumes "b \<le> n" and "n < 2 ^ 64" and "i = of_nat n"
  shows "state_stack (env\<lparr>s_stack := (s_stack env)(i := v)\<rparr>) b (Suc n) = sint (Int_val v) # state_stack env b n"
proof -
  have "of_nat k \<noteq> (of_nat n :: u64)" if "k < n" for k
    using that assms(2) by (metis order.strict_trans unat_of_nat_small order_less_irrefl)
  then show ?thesis using assms by (simp add: state_stack_def)
qed

lemma state_stack_drop: "m \<le> n - b \<Longrightarrow> b \<le> n \<Longrightarrow> drop m (state_stack env b n) = state_stack env b (n - m)"
  by (simp add: state_stack_def drop_rev rev_map drop_map take_map)

lemma short_roundtrip: "- (2 ^ 15) \<le> i \<Longrightarrow> i < 2 ^ 15 \<Longrightarrow> sint (Int_val (Val_int (word_of_int i))) = i"
  by (rule sint_Int_val) simp

lemma goto_state_bounds: "- (2 ^ 15) \<le> goto_state t nt q" "goto_state t nt q < 2 ^ 15"
  unfolding goto_state_def using Short_bounds by (auto split: option.split)

lemma action_computed_sel:
  "s_stack (action_computed v r env) = (s_stack env)(psp r := Val_int (word_of_int (state r)))"
  "curr_char (action_computed v r env) = curr_char env" "stacksize (action_computed v r env) = stacksize env"
  by (simp_all add: action_computed_def Let_def)

lemma run_reduce:
  assumes rel: "lr_rel b r env (q, ss, c)" and room: "has_room 1 r env" and fits: "rule_fits t n ss"
  shows "\<exists>env'. parse_run t (Reduce n) r env = Some (COMPUTE_SEMANTIC_ACTION, env') \<and> rule_number env' = Val_int (word_of_int n)
    \<and> (\<forall>v. lr_rel b (RESTORE env') (action_computed v (RESTORE env') env') (List.hd (lr_reduced t n ss), lr_reduced t n ss, c))"
proof -
  define k where "k = unat (psp r)"
  define m where "m = nat (Short (len t) n)"
  define q' where "q' = goto_state t (Short (lhs t) n) (List.hd (drop m ss))"
  note d = rel [unfolded lr_rel_def Let_def prod.case, folded k_def]
  have ss: "ss = state_stack env b (Suc k)" "b \<le> Suc k" using d by simp_all
  have len: "length ss = Suc k - b" unfolding ss(1) by (simp add: state_stack_def Suc_diff_le)
  have m: "Short (len t) n = int m" "m < Suc k - b" using fits unfolding rule_fits_def len m_def by auto
  have small: "Suc k < unat (Long_val (stacksize env))" "Suc k < 2 ^ 31" using room d by (simp_all add: has_room_def k_def)
  have psp: "psp r = of_nat k" by (simp add: k_def)
  define w where "w = (of_nat (k - m + 1) :: u64)"
  have sp: "psp r - word_of_int (Short (len t) n) + 1 = w" "w - 1 = of_nat (k - m)"
    using m by (simp_all add: psp of_nat_diff w_def)
  have km: "k - m + 1 < 2 ^ 31" "k - m + 1 < unat (Long_val (stacksize env))" using small by simp_all
  have usp: "unat w = k - m + 1" unfolding w_def using small by (intro unat_of_nat_small) simp
  have rest: "drop m ss = state_stack env b (Suc (k - m))" unfolding ss(1) using m ss(2) by (subst state_stack_drop) (simp_all add: Suc_diff_le)
  have top: "List.hd (drop m ss) = sint (Int_val (s_stack env (of_nat (k - m))))"
  proof -
    have "b \<le> k - m" using m(2) by simp
    then show ?thesis unfolding rest by (simp add: state_stack_def)
  qed
  define env1 where "env1 = env\<lparr>env_asp := Val_long (psp r), rule_number := Val_int (word_of_int n),
      rule_len := Val_int (word_of_int (Short (len t) n))\<rparr>"
  define r1 where "r1 = r\<lparr>psp := w, state := q'\<rparr>"
  have "parse_step t (Reduce n) r env = Inl (Semantic_action, r1, env1)"
  proof -
    have "w < Long_val (stacksize env)" using small usp by (simp add: word_less_nat_alt)
    then show ?thesis unfolding parse_step_def label.case Let_def sp(1)
      by (simp add: sp(2) top r1_def env1_def q'_def goto_state_def)
  qed
  moreover have "parse_step t Semantic_action r1 env1 = Inr (COMPUTE_SEMANTIC_ACTION, SAVE r1 env1)"
    by (simp add: parse_step_def)
  ultimately have run: "parse_run t (Reduce n) r env = Some (COMPUTE_SEMANTIC_ACTION, SAVE r1 env1)"
    by (simp add: parse_run_Inl parse_run_Inr)
  have r1: "RESTORE (SAVE r1 env1) = r1"
    using usp km d goto_state_bounds by (intro RESTORE_SAVE) (simp_all add: r1_def q'_def)
  have red: "lr_reduced t n ss = q' # drop m ss" by (simp add: lr_reduced_def Let_def m_def q'_def)
  have stack: "state_stack (action_computed v r1 (SAVE r1 env1)) b (Suc (k - m + 1)) = q' # drop m ss" for v
  proof -
    have "state_stack (action_computed v r1 (SAVE r1 env1)) b (Suc (k - m + 1)) =
        state_stack (env\<lparr>s_stack := (s_stack env)(of_nat (k - m + 1) := Val_int (word_of_int q'))\<rparr>) b (Suc (k - m + 1))"
      by (simp add: state_stack_def action_computed_sel r1_def env1_def SAVE_def w_def)
    also have "\<dots> = sint (Int_val (Val_int (word_of_int q'))) # state_stack env b (k - m + 1)"
      using m small by (intro state_stack_push) simp_all
    also have "\<dots> = q' # drop m ss"
      unfolding q'_def using short_roundtrip [OF goto_state_bounds] rest by simp
    finally show ?thesis .
  qed
  have "lr_rel b r1 (action_computed v r1 (SAVE r1 env1)) (q', q' # drop m ss, c)" for v
    using d km m usp goto_state_bounds [of t] stack
    by (simp add: lr_rel_def action_computed_sel r1_def env1_def SAVE_def q'_def)
  then show ?thesis using run unfolding red by (intro exI [of _ "SAVE r1 env1"]) (simp add: r1, simp add: SAVE_def env1_def)
qed

lemma run_reduce_outcome:
  assumes "lr_rel b r env (q, ss, c)" and "has_room 1 r env" and "lr_reduce t q c = Some n" and "rule_fits t n ss"
  shows "\<exists>out env'. parse_run t (Reduce n) r env = Some (out, env') \<and> lr_outcome t b (q, ss, c) out env'"
  using run_reduce [OF assms(1,2,4)] assms(3) by (metis lr_outcome.reducing)

lemma run_loop_no_token:
  assumes rel: "lr_rel b r env (q, ss, c)" and room: "has_room 1 r env" and c: "c < 0" and fits: "rules_fit t q ss c"
  shows "\<exists>out env'. parse_run t Loop r env = Some (out, env') \<and> lr_outcome t b (q, ss, c) out env'"
proof (cases "Short (defred t) q = 0")
  case True
  have "parse_step t Loop r env = Inr (READ_TOKEN, SAVE r env)"
    using rel c True by (simp add: parse_step_def Let_def lr_rel_def)
  then show ?thesis using True c rel by (auto simp: parse_run_Inr intro!: waiting lr_rel_SAVE)
next
  case False
  then have red: "lr_reduce t q c = Some (Short (defred t) q)" by (simp add: lr_reduce_def)
  have "parse_step t Loop r env = Inl (Reduce (Short (defred t) q), r, env)"
    using rel False by (simp add: parse_step_def Let_def lr_rel_def)
  then show ?thesis using run_reduce_outcome [OF rel room red] fits red by (simp add: parse_run_Inl rules_fit_def)
qed

text \<open>Shifting a token and pushing the new state.\<close>

lemma run_shift:
  fixes t :: parser_tables and n2 :: int
  assumes rel: "lr_rel b r env (q, ss, c)" and room: "has_room 2 r env"
  defines "q' \<equiv> Short (table t) n2"
  shows "\<exists>r' env'. parse_run t (Shift n2) r env = parse_run t Loop r' env' \<and> lr_rel b r' env' (q', q' # ss, - 1) \<and> has_room 1 r' env'"
proof -
  define k where "k = unat (psp r)"
  note d = rel [unfolded lr_rel_def Let_def prod.case, folded k_def]
  have small: "Suc k < 2 ^ 31" "k + 2 < unat (Long_val (stacksize env))" using room d by (simp_all add: has_room_def k_def)
  have usp: "unat (psp r + 1) = k + 1" unfolding unat_add_u64 k_def using small by (simp add: k_def)
  have psp: "psp r + 1 = of_nat (k + 1)" unfolding usp [symmetric] by simp
  define env1 where "env1 = env\<lparr>curr_char := Val_int (- 1)\<rparr>"
  define r1 where "r1 = r\<lparr>state := q', psp := psp r + 1\<rparr>"
  define env2 where "env2 = env1\<lparr>s_stack := (s_stack env1)(psp r1 := Val_int (word_of_int (state r1))),
      v_stack := (v_stack env1)(psp r1 := lval env1), symb_start_stack := (symb_start_stack env1)(psp r1 := symb_start env1),
      symb_end_stack := (symb_end_stack env1)(psp r1 := symb_end env1)\<rparr>"
  have "parse_step t (Shift n2) r env = Inl (Shift_recover n2, r, env1)"
    using d by (simp add: parse_step_def env1_def)
  moreover have "parse_step t (Shift_recover n2) r env1 = Inl (Push, r1, env1)"
    using usp small by (simp add: parse_step_def Let_def r1_def q'_def env1_def word_less_nat_alt)
  moreover have "parse_step t Push r1 env1 = Inl (Loop, r1, env2)" by (simp add: parse_step_def env2_def)
  ultimately have run: "parse_run t (Shift n2) r env = parse_run t Loop r1 env2" by (simp add: parse_run_Inl)
  have "state_stack env2 b (Suc (k + 1)) = state_stack (env\<lparr>s_stack := (s_stack env)(psp r + 1 := Val_int (word_of_int q'))\<rparr>) b (Suc (k + 1))"
    by (simp add: state_stack_def env2_def env1_def r1_def)
  also have "\<dots> = sint (Int_val (Val_int (word_of_int q'))) # state_stack env b (k + 1)"
    using d small psp by (intro state_stack_push) simp_all
  also have "\<dots> = q' # ss" using d short_roundtrip [OF Short_bounds] by (simp add: q'_def)
  finally have "lr_rel b r1 env2 (q', q' # ss, - 1)"
    using d small usp Short_bounds [of "table t" n2] sint_Int_val [of "- 1"]
    by (simp add: lr_rel_def r1_def env2_def env1_def q'_def)
  moreover have "has_room 1 r1 env2" using usp small by (simp add: has_room_def r1_def env2_def env1_def)
  ultimately show ?thesis using run by blast
qed

lemma run_testshift:
  assumes rel: "lr_rel b r env (q, ss, c)" and room: "has_room 2 r env" and c: "0 \<le> c" and def0: "Short (defred t) q = 0"
    and valid: "lr_valid t (q, ss, c)"
  shows "\<exists>out env'. parse_run t Testshift r env = Some (out, env') \<and> lr_outcome t b (q, ss, c) out env'"
proof -
  have d: "state r = q" "errflag r = 0" "word_of_int c = Int_val (curr_char env)"
    using rel by (simp_all add: lr_rel_def Let_def)
  have room1: "has_room 1 r env" using room by (simp add: has_room_def)
  show ?thesis
  proof (cases "table_entry t (Short (sindex t) q) (word_of_int c)")
    case (Some n2)
    let ?q = "Short (table t) n2"
    have sh: "lr_shift t q c = Some ?q" using Some c def0 by (simp add: lr_shift_def)
    have "parse_step t Testshift r env = Inl (Shift n2, r, env)" using Some d by (simp add: parse_step_def)
    then obtain r' env' where run: "parse_run t Testshift r env = parse_run t Loop r' env'"
      and rel': "lr_rel b r' env' (?q, ?q # ss, - 1)" and room': "has_room 1 r' env'"
      using run_shift [OF rel room] by (metis parse_run_Inl)
    have "rules_fit t ?q (?q # ss) (- 1)" using valid sh by (simp add: lr_valid_def)
    then obtain out env'' where "parse_run t Loop r' env' = Some (out, env'')" "lr_outcome t b (?q, ?q # ss, - 1) out env''"
      using run_loop_no_token [OF rel' room', of t] by auto
    then show ?thesis using run sh by (metis shifting)
  next
    case None
    then have ns: "lr_shift t q c = None" by (simp add: lr_shift_def)
    show ?thesis
    proof (cases "table_entry t (Short (rindex t) q) (word_of_int c)")
      case (Some n2)
      have red: "lr_reduce t q c = Some (Short (table t) n2)" using Some ns c def0 by (simp add: lr_reduce_def)
      have "parse_step t Testshift r env = Inl (Reduce (Short (table t) n2), r, env)"
        using Some None d by (simp add: parse_step_def)
      then show ?thesis using run_reduce_outcome [OF rel room1 red] valid red
        by (simp add: parse_run_Inl lr_valid_def rules_fit_def)
    next
      case none2: None
      have red: "lr_reduce t q c = None" using none2 ns c def0 by (simp add: lr_reduce_def)
      have "parse_step t Testshift r env = Inr (CALL_ERROR_FUNCTION, SAVE r env)"
        using None none2 d by (simp add: parse_step_def)
      then show ?thesis using c ns red rel by (auto simp: parse_run_Inr intro!: stuck lr_rel_SAVE)
    qed
  qed
qed

lemma run_loop:
  assumes rel: "lr_rel b r env (q, ss, c)" and room: "has_room 2 r env" and valid: "lr_valid t (q, ss, c)"
  shows "\<exists>out env'. parse_run t Loop r env = Some (out, env') \<and> lr_outcome t b (q, ss, c) out env'"
proof (cases "0 \<le> c \<and> Short (defred t) q = 0")
  case True
  have "parse_step t Loop r env = Inl (Testshift, r, env)"
    using rel True by (simp add: parse_step_def Let_def lr_rel_def)
  then show ?thesis using run_testshift [OF rel room] True valid by (simp add: parse_run_Inl)
next
  case False
  have room1: "has_room 1 r env" using room by (simp add: has_room_def)
  show ?thesis
  proof (cases "c < 0")
    case True
    then show ?thesis using run_loop_no_token [OF rel room1] valid by (simp add: lr_valid_def)
  next
    case tok: False
    then have red: "lr_reduce t q c = Some (Short (defred t) q)" using False by (simp add: lr_reduce_def)
    have "parse_step t Loop r env = Inl (Reduce (Short (defred t) q), r, env)"
      using rel False tok by (simp add: parse_step_def Let_def lr_rel_def)
    then show ?thesis using run_reduce_outcome [OF rel room1 red] valid red by (simp add: parse_run_Inl lr_valid_def rules_fit_def)
  qed
qed

section \<open>Error recovery\<close>

text \<open>
  Recovery on the stack of states, topmost first: the states that cannot
  shift the error token are dropped, and the state reached by shifting it
  from the first that can is pushed.
\<close>

definition lr_recover :: "parser_tables \<Rightarrow> int list \<Rightarrow> int list option" where
  "lr_recover t ss =
     (let err = (\<lambda>q. table_entry t (Short (sindex t) q) (word_of_int ERRCODE))
      in case dropWhile (\<lambda>q. err q = None) ss of
           [] \<Rightarrow> None
         | q # rest \<Rightarrow> Some (Short (table t) (the (err q)) # q # rest))"

lemma state_stack_Suc: "b \<le> n \<Longrightarrow> state_stack env b (Suc n) = sint (Int_val (s_stack env (of_nat n))) # state_stack env b n"
  by (simp add: state_stack_def)

lemma lr_recover_simps:
  "lr_recover t [] = None"
  "lr_recover t (q # ss) =
     (case table_entry t (Short (sindex t) q) (word_of_int ERRCODE) of
        Some n2 \<Rightarrow> Some (Short (table t) n2 # q # ss)
      | None \<Rightarrow> lr_recover t ss)"
  by (simp_all add: lr_recover_def Let_def split: option.split)

lemma recover_loop_step:
  assumes "stackbase env = Val_long (of_nat b)" and "b < 2 ^ 31" and "n < 2 ^ 31"
  shows "recover_loop t env (of_nat n) =
    (case table_entry t (Short (sindex t) (sint (Int_val (s_stack env (of_nat n))))) (word_of_int ERRCODE) of
       Some n2 \<Rightarrow> Some (n2, of_nat n)
     | None \<Rightarrow> if n \<le> b then None else recover_loop t env (of_nat n - 1))"
proof -
  have u: "unat (of_nat b :: u64) = b" "unat (of_nat n :: u64) = n" using assms(2,3) by (simp_all add: unat_of_nat_small)
  then have "scast (Int_val (stackbase env)) = (of_nat b :: u64)" unfolding assms(1) using assms(2) by (simp add: scast_Int_val)
  then show ?thesis using u by (subst recover_loop.simps) (simp add: Let_def word_le_nat_alt)
qed

lemma recover_loop_stack:
  assumes base: "stackbase env = Val_long (of_nat b)" and "b \<le> n" and "n < 2 ^ 31"
  shows "case lr_recover t (state_stack env b (Suc n)) of
      None \<Rightarrow> recover_loop t env (of_nat n) = None
    | Some ss \<Rightarrow> \<exists>n2 k. recover_loop t env (of_nat n) = Some (n2, of_nat k) \<and> b \<le> k \<and> k \<le> n
        \<and> ss = Short (table t) n2 # state_stack env b (Suc k)"
  using assms(2,3)
proof (induction n rule: dec_induct)
  case base
  have "state_stack env b b = []" by (simp add: state_stack_def)
  then show ?case
    using recover_loop_step [OF assms(1) base base, of t] state_stack_Suc [of b b env]
    by (auto simp: lr_recover_simps split: option.split)
next
  case (step n)
  have n: "b < 2 ^ 31" "n < 2 ^ 31" "b \<le> Suc n" "\<not> Suc n \<le> b" using step by simp_all
  show ?case
  proof (cases "table_entry t (Short (sindex t) (sint (Int_val (s_stack env (of_nat (Suc n)))))) (word_of_int ERRCODE)")
    case (Some n2)
    then show ?thesis
      using recover_loop_step [OF assms(1) n(1) step.prems, of t] state_stack_Suc [OF n(3), of env] n(3)
      by (auto simp: lr_recover_simps intro!: exI [of _ "Suc n"] simp del: of_nat_Suc)
  next
    case None
    have "recover_loop t env (of_nat (Suc n)) = recover_loop t env (of_nat n)"
      using recover_loop_step [OF assms(1) n(1) step.prems, of t] None n(4) by simp
    moreover have "lr_recover t (state_stack env b (Suc (Suc n))) = lr_recover t (state_stack env b (Suc n))"
      unfolding state_stack_Suc [OF n(3)] lr_recover_simps None by simp
    ultimately show ?thesis using step.IH [OF n(2)] by (fastforce split: option.splits intro: le_SucI)
  qed
qed

text \<open>Shifting the error token from the state at \<open>k\<close>.\<close>

lemma run_shift_recover:
  fixes t :: parser_tables and n2 :: int
  assumes "b \<le> k" and "k < 2 ^ 31 - 1" and "errflag r = 3" and "psp r = of_nat k"
  defines "q \<equiv> Short (table t) n2" and "r' \<equiv> \<lparr>state = Short (table t) n2, psp = of_nat (k + 1), errflag = 3\<rparr>"
  shows "if k + 1 < unat (Long_val (stacksize env))
    then \<exists>env'. parse_run t (Shift_recover n2) r env = parse_run t Loop r' env'
      \<and> state_stack env' b (k + 2) = q # state_stack env b (Suc k) \<and> curr_char env' = curr_char env
      \<and> v_stack env' (psp r') = lval env
    else parse_run t (Shift_recover n2) r env = Some (GROW_STACKS_1, SAVE r' env)"
proof -
  have r: "r\<lparr>state := q, psp := psp r + 1\<rparr> = r'" using assms(3,4) by (simp add: r'_def q_def add.commute)
  have u: "unat (psp r') = k + 1" unfolding r'_def parser_regs.select_convs using assms(2) by (intro unat_of_nat_small) simp
  show ?thesis
  proof (cases "k + 1 < unat (Long_val (stacksize env))")
    case False
    then have "parse_step t (Shift_recover n2) r env = Inr (GROW_STACKS_1, SAVE r' env)"
      using u by (simp add: parse_step_def Let_def r [unfolded q_def] word_less_nat_alt)
    then show ?thesis using False by (simp add: parse_run_Inr)
  next
    case True
    define env' where "env' = env\<lparr>s_stack := (s_stack env)(psp r' := Val_int (word_of_int (state r'))),
      v_stack := (v_stack env)(psp r' := lval env), symb_start_stack := (symb_start_stack env)(psp r' := symb_start env),
      symb_end_stack := (symb_end_stack env)(psp r' := symb_end env)\<rparr>"
    have "parse_step t (Shift_recover n2) r env = Inl (Push, r', env)"
      using True u by (simp add: parse_step_def Let_def r [unfolded q_def] word_less_nat_alt)
    moreover have "parse_step t Push r' env = Inl (Loop, r', env')" by (simp add: parse_step_def env'_def)
    ultimately have run: "parse_run t (Shift_recover n2) r env = parse_run t Loop r' env'" by (simp add: parse_run_Inl)
    have "state_stack env' b (Suc (k + 1)) =
        state_stack (env\<lparr>s_stack := (s_stack env)(psp r' := Val_int (word_of_int q))\<rparr>) b (Suc (k + 1))"
      by (simp add: state_stack_def env'_def r'_def q_def)
    also have "\<dots> = sint (Int_val (Val_int (word_of_int q))) # state_stack env b (k + 1)"
      using assms(1,2) by (intro state_stack_push) (simp_all add: r'_def)
    also have "\<dots> = q # state_stack env b (Suc k)" using short_roundtrip [OF Short_bounds] by (simp add: q_def)
    finally have "state_stack env' b (k + 2) = q # state_stack env b (Suc k)" by simp
    then show ?thesis using True run by (simp, intro exI [of _ env']) (simp add: env'_def)
  qed
qed

section \<open>Properties\<close>

text \<open>
  C36: Every call of the parser engine returns, whatever the tables, the
  environment and the command: the gotos of the automaton cannot loop.
\<close>
theorem parse_engine_returns: "\<exists>out env'. caml_parse_engine t m env cmd arg = Some (out, env')"
proof -
  have "\<exists>out env'. parse_run t lbl r e = Some (out, env')" for lbl r e using parse_run_returns [of t lbl r e] by auto
  then show ?thesis by (auto simp: caml_parse_engine_def Let_def)
qed

text \<open>
  C33: The engine implements the LR automaton of its tables. When it is given
  a token it was waiting for, or the value of a semantic action, it performs
  the moves of the automaton on the stack of states until it needs a token,
  has a reduction to report (whose value, when pushed, continues the
  automaton) or the automaton has no move and the error function is called.
  The stacks have room for two more states and no rule is longer than the
  stack.
\<close>
theorem parse_engine_refines_lr:
  "(lr_rel b (RESTORE env) (token_read t m arg env) (q, ss, c) \<and> 0 \<le> c \<and> Short (defred t) q = 0
      \<and> has_room 2 (RESTORE env) env \<and> lr_valid t (q, ss, c) \<longrightarrow>
    (\<exists>out env'. caml_parse_engine t m env (Val_int 1) arg = Some (out, env') \<and> lr_outcome t b (q, ss, c) out env'))
   \<and> (lr_rel b (RESTORE env) (action_computed arg (RESTORE env) env) (q, ss, c)
      \<and> has_room 2 (RESTORE env) env \<and> lr_valid t (q, ss, c) \<longrightarrow>
    (\<exists>out env'. caml_parse_engine t m env (Val_int 4) arg = Some (out, env') \<and> lr_outcome t b (q, ss, c) out env'))"
proof -
  have cmd: "sint (Int_val (Val_int 1)) = 1" "sint (Int_val (Val_int 4)) = 4"
    using sint_Int_val [of 1] sint_Int_val [of 4] by simp_all
  have "stacksize (token_read t m arg env) = stacksize env" by (simp add: token_read_def)
  moreover have "RESTORE (token_read t m arg env) = RESTORE env" by (simp add: token_read_def RESTORE_def)
  ultimately show ?thesis
    using run_testshift [of b "RESTORE env" "token_read t m arg env" q ss c t]
      run_loop [of b "RESTORE env" "action_computed arg (RESTORE env) env" q ss c t]
    by (auto simp: caml_parse_engine_def cmd has_room_def action_computed_sel)
qed

text \<open>
  C37: Error recovery unwinds the stack to the nearest state that can shift the
  error token. When the error flag is below 3, the
  engine drops the states above it, shifts the error token there with the
  error flag at 3 and keeps the lookahead; then it goes on with the automaton
  from the new state, pushed with the current semantic value, or asks for
  larger stacks if the state does not fit. If no state of this parser's part
  of the stack can shift the error token, it raises a parse error at once.
\<close>
theorem parse_error_recovery:
  assumes "errflag (RESTORE env) < 3" and "stackbase env = Val_long (of_nat b)" and "b \<le> n" and "n < 2 ^ 31 - 1"
    and "psp (RESTORE env) = of_nat n"
  shows "case lr_recover t (state_stack env b (Suc n)) of
      None \<Rightarrow> caml_parse_engine t m env (Val_int 5) arg = Some (RAISE_PARSE_ERROR, env)
    | Some ss \<Rightarrow>
        let r = \<lparr>state = List.hd ss, psp = of_nat (b + length ss - 1), errflag = 3\<rparr>
        in if b + length ss - 1 < unat (Long_val (stacksize env))
           then \<exists>env'. caml_parse_engine t m env (Val_int 5) arg = parse_run t Loop r env'
             \<and> state_stack env' b (b + length ss) = ss \<and> curr_char env' = curr_char env
             \<and> v_stack env' (psp r) = lval env
           else caml_parse_engine t m env (Val_int 5) arg = Some (GROW_STACKS_1, SAVE r env)"
proof -
  have cmd: "sint (Int_val (Val_int 5)) = 5" using sint_Int_val [of 5] by simp
  have eng: "caml_parse_engine t m env (Val_int 5) arg = parse_run t Recover (RESTORE env) env"
    by (simp add: caml_parse_engine_def cmd)
  have "n < 2 ^ 31" using assms(4) by simp
  note rec = recover_loop_stack [OF assms(2,3) this, of t]
  show ?thesis
  proof (cases "lr_recover t (state_stack env b (Suc n))")
    case None
    then have "parse_step t Recover (RESTORE env) env = Inr (RAISE_PARSE_ERROR, env)"
      using assms(1,5) rec by (simp add: parse_step_def)
    then show ?thesis using None by (simp add: eng parse_run_Inr)
  next
    case (Some ss)
    obtain n2 k where k: "recover_loop t env (of_nat n) = Some (n2, of_nat k)" "b \<le> k" "k \<le> n"
      "ss = Short (table t) n2 # state_stack env b (Suc k)" using rec Some by auto
    let ?r = "(RESTORE env)\<lparr>errflag := 3, psp := of_nat k\<rparr>"
    have "parse_step t Recover (RESTORE env) env = Inl (Shift_recover n2, ?r, env)"
      using assms(1,5) k(1) by (simp add: parse_step_def)
    then have run: "caml_parse_engine t m env (Val_int 5) arg = parse_run t (Shift_recover n2) ?r env"
      by (simp add: eng parse_run_Inl)
    have len: "b + length ss - 1 = k + 1" "b + length ss = k + 2" using k(2) by (simp_all add: k(4) state_stack_def)
    have "k < 2 ^ 31 - 1" using k(3) assms(4) by simp
    then show ?thesis unfolding Some option.case Let_def len(1) run unfolding len(2) unfolding k(4) list.sel
      by (intro run_shift_recover [OF k(2)]) simp_all
  qed
qed

text \<open>A parser whose state 0 shifts token 1 to state 2, waiting for a token on an empty stack.\<close>

definition toy_tables :: parser_tables where
  "toy_tables = \<lparr>transl_const = \<lambda>_. Val_int 1, transl_block = \<lambda>_. Val_int 1, lhs = \<lambda>_. 0, len = \<lambda>_. 0, defred = \<lambda>_. 0,
     dgoto = \<lambda>_. 0, sindex = (\<lambda>_. 0)(0 := 1), rindex = \<lambda>_. 0, gindex = \<lambda>_. 0, tablesize = Val_int 10,
     table = (\<lambda>_. 0)(4 := 2), check = (\<lambda>_. 0)(4 := 1)\<rparr>"

definition toy_env :: parser_env where
  "toy_env = \<lparr>s_stack = \<lambda>_. Val_int 0, v_stack = \<lambda>_. 1, symb_start_stack = \<lambda>_. 1, symb_end_stack = \<lambda>_. 1,
     stacksize = Val_long 100, stackbase = Val_long (of_nat 1), curr_char = Val_int (- 1), lval = 1, symb_start = 1, symb_end = 1,
     env_asp = 1, rule_len = 1, rule_number = 1, env_sp = Val_long 1, env_state = Val_int 0, env_errflag = Val_int 0\<rparr>"

lemma toy_regs: "RESTORE toy_env = \<lparr>state = 0, psp = 1, errflag = 0\<rparr>"
  using scast_Int_val [of 1] sint_Int_val [of 0] by (simp add: RESTORE_def toy_env_def)

lemma toy_entries:
  "table_entry toy_tables (Short (sindex toy_tables) 0) (Int_val (Val_int 1)) = Some 2"
  "Short (table toy_tables) 2 = 2" "Short (defred toy_tables) q = 0"
  by (simp_all add: toy_tables_def toy_env_def table_entry_def Short_def Int_val_Val_int)

theorem parse_engine_refines_lr_witness:
  "\<exists>out env'. caml_parse_engine toy_tables (\<lambda>_. 0) toy_env (Val_int 1) (Val_int 0) = Some (out, env')
     \<and> lr_outcome toy_tables 1 (0, [0], 1) out env'"
proof -
  have "Long_val (Val_long 100) = 100" by (rule Long_val_Val_long) simp
  then have "has_room 2 (RESTORE toy_env) toy_env"
    "lr_rel 1 (RESTORE toy_env) (token_read toy_tables (\<lambda>_. 0) (Val_int 0) toy_env) (0, [0], 1)"
    unfolding toy_regs by (simp_all add: has_room_def lr_rel_def toy_env_def toy_tables_def token_read_def state_stack_def Int_val_Val_int)
  moreover have "lr_shift toy_tables 0 1 = Some 2"
    using toy_entries(1,2,3) by (simp add: lr_shift_def Int_val_Val_int)
  then have "lr_valid toy_tables (0, [0], 1)"
    using toy_entries(3) by (simp add: lr_valid_def rules_fit_def lr_reduce_def)
  ultimately show ?thesis
    using parse_engine_refines_lr [of 1 toy_env toy_tables "\<lambda>_. 0" "Val_int 0" 0 "[0]" 1] toy_entries(3) by simp
qed

text \<open>The same parser with a state 3 that shifts the error token to state 2, below a state that does not.\<close>

definition error_tables :: parser_tables where
  "error_tables = toy_tables\<lparr>sindex := (\<lambda>_. 0)(6 := 1), tablesize := Val_int 300, table := (\<lambda>_. 0)(514 := 2),
     check := (\<lambda>_. 0)(515 := 1)\<rparr>"

definition error_env :: parser_env where
  "error_env = toy_env\<lparr>s_stack := (\<lambda>_. Val_int 0)(1 := Val_int 3), env_sp := Val_long 2\<rparr>"

theorem parse_error_recovery_witness:
  "caml_parse_engine toy_tables (\<lambda>_. 0) toy_env (Val_int 5) (Val_int 0) = Some (RAISE_PARSE_ERROR, toy_env)
   \<and> (\<exists>env'. caml_parse_engine error_tables (\<lambda>_. 0) error_env (Val_int 5) (Val_int 0)
        = parse_run error_tables Loop \<lparr>state = 2, psp = 2, errflag = 3\<rparr> env' \<and> state_stack env' 1 3 = [2, 3])"
proof
  have "state_stack toy_env 1 (Suc 1) = [0]" by (simp add: state_stack_def toy_env_def Int_val_Val_int)
  moreover have "lr_recover toy_tables [0] = None"
    by (simp add: lr_recover_simps table_entry_def toy_tables_def Short_def Int_val_Val_int)
  ultimately show "caml_parse_engine toy_tables (\<lambda>_. 0) toy_env (Val_int 5) (Val_int 0) = Some (RAISE_PARSE_ERROR, toy_env)"
    using parse_error_recovery [of toy_env 1 1 toy_tables "\<lambda>_. 0" "Val_int 0"] toy_regs by (simp add: toy_env_def)
next
  have regs: "RESTORE error_env = \<lparr>state = 0, psp = 2, errflag = 0\<rparr>"
    using scast_Int_val [of 2] sint_Int_val [of 0] by (simp add: RESTORE_def error_env_def toy_env_def)
  have "state_stack error_env 1 (Suc 2) = [0, 3]"
    by (simp add: state_stack_def error_env_def toy_env_def Int_val_Val_int upt_rec)
  moreover have "lr_recover error_tables [0, 3] = Some [2, 3]"
    by (simp add: lr_recover_simps table_entry_def error_tables_def toy_tables_def Short_def Int_val_Val_int)
  moreover have "stackbase error_env = Val_long (of_nat 1)" "Long_val (stacksize error_env) = 100"
    using Long_val_Val_long [of 100] by (simp_all add: error_env_def toy_env_def)
  ultimately show "\<exists>env'. caml_parse_engine error_tables (\<lambda>_. 0) error_env (Val_int 5) (Val_int 0)
        = parse_run error_tables Loop \<lparr>state = 2, psp = 2, errflag = 3\<rparr> env' \<and> state_stack env' 1 3 = [2, 3]"
    using parse_error_recovery [of error_env 1 2 error_tables "\<lambda>_. 0" "Val_int 0"] regs by (auto simp: numeral_3_eq_3)
qed

end
