(* ===== verification/Freelist.thy ===== *)
theory Freelist
  imports Runtime
begin

text \<open>
  The free list of the major heap (\<^verbatim>\<open>freelist.c\<close>): allocation with the
  next-fit and the first-fit policy, the merging of swept blocks, heap
  extensions and the cutting of chunks into blocks. Blocks are chained through
  their first field by increasing addresses, starting from the sentinel of the
  context. Pointers are word indices with 0 for \<^verbatim>\<open>NULL\<close>, sizes are natural
  numbers; the assertions and checks of the debugging build are left out.
\<close>

section \<open>State\<close>

abbreviation (input) Policy_next_fit :: nat where "Policy_next_fit \<equiv> 0"
abbreviation (input) Policy_first_fit :: nat where "Policy_first_fit \<equiv> 1"
abbreviation (input) NULL :: ptr where "NULL \<equiv> 0"

definition FLP_MAX :: nat where "FLP_MAX = 1000"

record freelist =
  fl_mem :: memory
  Fl_head :: ptr
  fl_prev :: ptr
  fl_last :: ptr
  caml_fl_merge :: ptr
  caml_fl_cur_size :: u64
  last_fragment :: ptr
  flp :: "nat \<Rightarrow> ptr"
  flp_size :: nat
  beyond :: ptr
  policy :: nat
  caml_gc_sweep_hp :: ptr

definition Next_bp :: "memory \<Rightarrow> ptr \<Rightarrow> ptr" where
  "Next_bp m b = Op_val (m b)"

abbreviation Next :: "freelist \<Rightarrow> ptr \<Rightarrow> ptr" where
  "Next s b \<equiv> Next_bp (fl_mem s) b"

definition set_Next :: "ptr \<Rightarrow> ptr \<Rightarrow> freelist \<Rightarrow> freelist" where
  "set_Next b p s = s\<lparr>fl_mem := (fl_mem s)(b := val_of_ptr p)\<rparr>"

definition Wosize_bp :: "memory \<Rightarrow> ptr \<Rightarrow> nat" where
  "Wosize_bp m b = unat (Wosize_hd (m (b - 1)))"

definition set_Hd :: "ptr \<Rightarrow> header_t \<Rightarrow> freelist \<Rightarrow> freelist" where
  "set_Hd b h s = s\<lparr>fl_mem := (fl_mem s)(b - 1 := h)\<rparr>"

section \<open>Allocation\<close>

definition detach_flp :: "nat \<Rightarrow> ptr \<Rightarrow> ptr \<Rightarrow> freelist \<Rightarrow> freelist" where
  "detach_flp flpi prev cur s =
     (if policy s = Policy_first_fit
      then if flpi + 1 < flp_size s \<and> flp s (flpi + 1) = cur
           then s\<lparr>flp := (flp s)(flpi + 1 := prev)\<rparr>
           else if flpi + 1 = flp_size s
           then s\<lparr>beyond := (if prev = Fl_head s then NULL else prev), flp_size := flp_size s - 1\<rparr>
           else s
      else s)"

definition allocate_block :: "nat \<Rightarrow> nat \<Rightarrow> ptr \<Rightarrow> ptr \<Rightarrow> freelist \<Rightarrow> ptr \<times> freelist" where
  "allocate_block wh_sz flpi prev cur s =
     (let wo = Wosize_bp (fl_mem s) cur;
          s1 = (if wo < wh_sz + 1
                then let s1 = set_Next prev (Next s cur) (s\<lparr>caml_fl_cur_size := caml_fl_cur_size s - of_nat (wo + 1)\<rparr>);
                         s2 = (if caml_fl_merge s1 = cur then s1\<lparr>caml_fl_merge := prev\<rparr> else s1);
                         s3 = set_Hd cur (Make_header 0 0 Caml_white) s2
                     in detach_flp flpi prev cur s3
                else set_Hd cur (Make_header (of_nat (wo - wh_sz)) 0 Caml_blue)
                       (s\<lparr>caml_fl_cur_size := caml_fl_cur_size s - of_nat wh_sz\<rparr>));
          s2 = (if policy s1 = Policy_next_fit then s1\<lparr>fl_prev := prev\<rparr> else s1)
      in (cur + wo - wh_sz, s2))"

text \<open>Next fit: from the allocation pointer to the end, then from the start up to it.\<close>

partial_function (option) nf_search1 :: "memory \<Rightarrow> nat \<Rightarrow> ptr \<Rightarrow> ((ptr \<times> ptr) + ptr) option" where
  "nf_search1 m wo_sz prev =
     (let cur = Next_bp m prev
      in if cur \<noteq> NULL
         then if Wosize_bp m cur \<ge> wo_sz then Some (Inl (prev, cur)) else nf_search1 m wo_sz cur
         else Some (Inr prev))"

partial_function (option) nf_search2 :: "memory \<Rightarrow> nat \<Rightarrow> ptr \<Rightarrow> ptr \<Rightarrow> (ptr \<times> ptr) option option" where
  "nf_search2 m wo_sz stop prev =
     (if prev \<noteq> stop
      then let cur = Next_bp m prev
           in if Wosize_bp m cur \<ge> wo_sz then Some (Some (prev, cur)) else nf_search2 m wo_sz stop cur
      else Some None)"

definition nf_allocate :: "nat \<Rightarrow> freelist \<Rightarrow> (ptr \<times> freelist) option" where
  "nf_allocate wo_sz s =
     Option.bind (nf_search1 (fl_mem s) wo_sz (fl_prev s)) (\<lambda>r.
       case r of
         Inl (prev, cur) \<Rightarrow> Some (allocate_block (wo_sz + 1) 0 prev cur s)
       | Inr fin \<Rightarrow>
           let s1 = s\<lparr>fl_last := fin\<rparr>
           in map_option (\<lambda>f. case f of
                  Some (prev, cur) \<Rightarrow> allocate_block (wo_sz + 1) 0 prev cur s1
                | None \<Rightarrow> (NULL, s1))
                (nf_search2 (fl_mem s1) wo_sz (fl_prev s1) (Fl_head s1)))"

text \<open>
  First fit: the table \<^verbatim>\<open>flp\<close> holds the predecessors of the blocks that are
  larger than all blocks before them. It is searched, extended along the list,
  and repaired around the entry whose block was removed or reduced.
\<close>

fun flp_find :: "freelist \<Rightarrow> nat \<Rightarrow> nat list \<Rightarrow> nat option" where
  "flp_find s wo_sz [] = None"
| "flp_find s wo_sz (i # is) = (if Wosize_bp (fl_mem s) (Next s (flp s i)) \<ge> wo_sz then Some i else flp_find s wo_sz is)"

datatype extension =
  Ext_end freelist
| Ext_hit freelist nat nat ptr
| Ext_full freelist ptr

partial_function (option) flp_extend :: "nat \<Rightarrow> ptr \<Rightarrow> nat \<Rightarrow> ptr \<Rightarrow> freelist \<Rightarrow> extension option" where
  "flp_extend wo_sz prev prevsz last_cur s =
     (if flp_size s < FLP_MAX then
        let cur = Next s prev
        in if cur = NULL
           then Some (Ext_end (s\<lparr>fl_last := prev, beyond := (if prev = Fl_head s then NULL else prev)\<rparr>))
           else let sz = Wosize_bp (fl_mem s) cur
                in if sz > prevsz
                   then let s1 = s\<lparr>flp := (flp s)(flp_size s := prev), flp_size := flp_size s + 1\<rparr>
                        in if sz \<ge> wo_sz
                           then let (result, s2) = allocate_block (wo_sz + 1) (flp_size s1 - 1) prev cur (s1\<lparr>beyond := cur\<rparr>)
                                in Some (Ext_hit s2 (flp_size s1 - 1) sz result)
                           else flp_extend wo_sz cur sz cur s1
                   else flp_extend wo_sz cur prevsz cur s
      else Some (Ext_full s last_cur))"

partial_function (option) ff_slow :: "nat \<Rightarrow> nat \<Rightarrow> ptr \<Rightarrow> freelist \<Rightarrow> (ptr \<times> freelist) option" where
  "ff_slow wo_sz prevsz prev s =
     (let cur = Next s prev
      in if cur \<noteq> NULL
         then let sz = Wosize_bp (fl_mem s) cur
              in if sz < prevsz then ff_slow wo_sz prevsz cur (s\<lparr>beyond := cur\<rparr>)
                 else if sz \<ge> wo_sz then Some (allocate_block (wo_sz + 1) (flp_size s) prev cur s)
                 else ff_slow wo_sz prevsz cur s
         else Some (NULL, s\<lparr>fl_last := prev\<rparr>))"

partial_function (option) flp_buf :: "memory \<Rightarrow> nat \<Rightarrow> ptr \<Rightarrow> ptr \<Rightarrow> nat \<Rightarrow> ptr list \<Rightarrow> ptr list option" where
  "flp_buf m oldsz stop prev prevsz buf =
     (if prev \<noteq> stop
      then let cur = Next_bp m prev; sz = Wosize_bp m cur
           in if sz > prevsz
              then if sz \<ge> oldsz then Some (buf @ [prev]) else flp_buf m oldsz stop cur sz (buf @ [prev])
              else flp_buf m oldsz stop cur prevsz buf
      else Some buf)"

definition move_flp :: "nat \<Rightarrow> nat \<Rightarrow> nat \<Rightarrow> (nat \<Rightarrow> ptr) \<Rightarrow> nat \<Rightarrow> ptr" where
  "move_flp dst src n f k = (if dst \<le> k \<and> k < dst + n then f (src + (k - dst)) else f k)"

definition store_flp :: "nat \<Rightarrow> nat \<Rightarrow> ptr list \<Rightarrow> (nat \<Rightarrow> ptr) \<Rightarrow> nat \<Rightarrow> ptr" where
  "store_flp dst n buf f k = (if dst \<le> k \<and> k < dst + n then buf ! (k - dst) else f k)"

definition splice_flp :: "nat \<Rightarrow> ptr list \<Rightarrow> freelist \<Rightarrow> freelist" where
  "splice_flp i buf s =
     (let j = length buf
      in if FLP_MAX \<ge> flp_size s + j - 1
         then s\<lparr>flp := store_flp i j buf (if j \<noteq> 1 then move_flp (i + j) (i + 1) (flp_size s - i - 1) (flp s) else flp s),
                flp_size := flp_size s + j - 1\<rparr>
         else let f = (if FLP_MAX > i + j
                       then store_flp i j buf (if j \<noteq> 1 then move_flp (i + j) (i + 1) (FLP_MAX - i - j) (flp s) else flp s)
                       else if i \<noteq> FLP_MAX then store_flp i (FLP_MAX - i) buf (flp s)
                       else flp s)
              in s\<lparr>flp := f, flp_size := FLP_MAX - 1, beyond := Next s (f (FLP_MAX - 1))\<rparr>)"

definition update_flp :: "nat \<Rightarrow> nat \<Rightarrow> ptr \<Rightarrow> freelist \<Rightarrow> (ptr \<times> freelist) option" where
  "update_flp i sz result s =
     (if i < flp_size s
      then let prevsz = (if i > 0 then Wosize_bp (fl_mem s) (Next s (flp s (i - 1))) else 0)
           in if i = flp_size s - 1
              then Some (result,
                     if Wosize_bp (fl_mem s) (Next s (flp s i)) \<le> prevsz
                     then s\<lparr>beyond := Next s (flp s i), flp_size := flp_size s - 1\<rparr>
                     else s\<lparr>beyond := NULL\<rparr>)
              else map_option (\<lambda>buf. (result, splice_flp i buf s))
                     (flp_buf (fl_mem s) sz (flp s (i + 1)) (flp s i) prevsz [])
      else Some (result, s))"

definition ff_allocate :: "nat \<Rightarrow> freelist \<Rightarrow> (ptr \<times> freelist) option" where
  "ff_allocate wo_sz s =
     (case flp_find s wo_sz [0..<flp_size s] of
        Some i \<Rightarrow>
          let sz = Wosize_bp (fl_mem s) (Next s (flp s i));
              (result, s1) = allocate_block (wo_sz + 1) i (flp s i) (Next s (flp s i)) s
          in update_flp i sz result s1
      | None \<Rightarrow>
          let (prev, prevsz) =
                (if flp_size s = 0 then (Fl_head s, 0)
                 else let prev = Next s (flp s (flp_size s - 1))
                      in (if beyond s \<noteq> NULL then beyond s else prev, Wosize_bp (fl_mem s) prev))
          in Option.bind (flp_extend wo_sz prev prevsz NULL s) (\<lambda>e.
               case e of
                 Ext_end s1 \<Rightarrow> Some (NULL, s1)
               | Ext_hit s1 i sz result \<Rightarrow> update_flp i sz result s1
               | Ext_full s1 cur \<Rightarrow>
                   let s2 = s1\<lparr>beyond := cur\<rparr>;
                       prev = (if beyond s2 \<noteq> NULL then beyond s2 else flp s2 (flp_size s2 - 1))
                   in ff_slow wo_sz (Wosize_bp (fl_mem s2) (Next s2 (flp s2 (FLP_MAX - 1)))) prev s2))"

definition caml_fl_allocate :: "nat \<Rightarrow> freelist \<Rightarrow> (ptr \<times> freelist) option" where
  "caml_fl_allocate wo_sz s =
     (if policy s = Policy_next_fit then nf_allocate wo_sz s
      else if policy s = Policy_first_fit then ff_allocate wo_sz s
      else Some (NULL, s))"

section \<open>Merging and extension\<close>

definition caml_fl_init_merge :: "freelist \<Rightarrow> freelist" where
  "caml_fl_init_merge s = s\<lparr>last_fragment := NULL, caml_fl_merge := Fl_head s\<rparr>"

primrec truncate_count :: "freelist \<Rightarrow> ptr \<Rightarrow> nat \<Rightarrow> nat" where
  "truncate_count s changed 0 = 0"
| "truncate_count s changed (Suc n) = (if Next s (flp s n) \<ge> changed then truncate_count s changed n else Suc n)"

definition truncate_flp :: "ptr \<Rightarrow> freelist \<Rightarrow> freelist" where
  "truncate_flp changed s =
     (if changed = Fl_head s then s\<lparr>flp_size := 0, beyond := NULL\<rparr>
      else s\<lparr>flp_size := truncate_count s changed (flp_size s),
             beyond := (if beyond s \<ge> changed then NULL else beyond s)\<rparr>)"

definition caml_fl_reset :: "freelist \<Rightarrow> freelist" where
  "caml_fl_reset s =
     (let s1 = set_Next (Fl_head s) NULL s;
          s2 = (if policy s1 = Policy_next_fit then s1\<lparr>fl_prev := Fl_head s1\<rparr>
                else if policy s1 = Policy_first_fit then truncate_flp (Fl_head s1) s1 else s1)
      in caml_fl_init_merge (s2\<lparr>caml_fl_cur_size := 0\<rparr>))"

definition merge_fragment :: "header_t \<Rightarrow> ptr \<Rightarrow> freelist \<Rightarrow> header_t \<times> ptr \<times> freelist" where
  "merge_fragment hd1 bp s =
     (if last_fragment s = bp - 1
      then let bp_whsz = Wosize_bp (fl_mem s) bp + 1
           in if bp_whsz \<le> unat Max_wosize
              then let hd2 = Make_header (of_nat bp_whsz) 0 Caml_white;
                       s1 = set_Hd (last_fragment s) hd2 s
                   in (hd2, last_fragment s, s1\<lparr>caml_fl_cur_size := caml_fl_cur_size s1 + 1\<rparr>)
              else (hd1, bp, s)
      else (hd1, bp, s))"

definition merge_next :: "ptr \<Rightarrow> ptr \<Rightarrow> header_t \<Rightarrow> ptr \<Rightarrow> freelist \<Rightarrow> header_t \<times> ptr \<times> freelist" where
  "merge_next prev cur hd1 bp s =
     (if bp + unat (Wosize_hd hd1) = cur - 1
      then let next_cur = Next s cur;
               cur_whsz = Wosize_bp (fl_mem s) cur + 1
           in if unat (Wosize_hd hd1) + cur_whsz \<le> unat Max_wosize
              then let s1 = set_Next prev next_cur s;
                       s2 = (if policy s1 = Policy_next_fit \<and> fl_prev s1 = cur then s1\<lparr>fl_prev := prev\<rparr> else s1);
                       hd2 = Make_header (of_nat (unat (Wosize_hd hd1) + cur_whsz)) 0 Caml_blue
                   in (hd2, next_cur, set_Hd bp hd2 s2)
              else (hd1, cur, s)
      else (hd1, cur, s))"

definition link_block :: "ptr \<Rightarrow> ptr \<Rightarrow> header_t \<Rightarrow> ptr \<Rightarrow> freelist \<Rightarrow> freelist" where
  "link_block prev cur hd1 bp s =
     (let wo = unat (Wosize_hd hd1); prev_wosz = Wosize_bp (fl_mem s) prev
      in if prev + prev_wosz = bp - 1 \<and> prev_wosz + (wo + 1) < unat Max_wosize
         then set_Hd prev (Make_header (of_nat (prev_wosz + (wo + 1))) 0 Caml_blue) s
         else if wo \<noteq> 0
         then (set_Next prev bp (set_Next bp cur (set_Hd bp (Bluehd_hd hd1) s)))\<lparr>caml_fl_merge := bp\<rparr>
         else s\<lparr>last_fragment := bp, caml_fl_cur_size := caml_fl_cur_size s - 1\<rparr>)"

definition caml_fl_merge_block :: "ptr \<Rightarrow> freelist \<Rightarrow> ptr \<times> freelist" where
  "caml_fl_merge_block bp0 s =
     (let hd0 = fl_mem s (bp0 - 1);
          s1 = s\<lparr>caml_fl_cur_size := caml_fl_cur_size s + of_nat (unat (Wosize_hd hd0) + 1)\<rparr>;
          prev = caml_fl_merge s1;
          cur = Next s1 prev;
          s2 = (if policy s1 = Policy_first_fit then truncate_flp prev s1 else s1);
          (hd1, bp, s3) = merge_fragment hd0 bp0 s2;
          (hd2, cur', s4) = merge_next prev cur hd1 bp s3
      in (bp + unat (Wosize_hd hd2), link_block prev cur' hd2 bp s4))"

partial_function (option) insertion_point :: "memory \<Rightarrow> ptr \<Rightarrow> ptr \<Rightarrow> (ptr \<times> ptr) option" where
  "insertion_point m bp prev =
     (let cur = Next_bp m prev
      in if cur \<noteq> NULL \<and> cur < bp then insertion_point m bp cur else Some (prev, cur))"

definition caml_fl_add_blocks :: "ptr \<Rightarrow> freelist \<Rightarrow> freelist option" where
  "caml_fl_add_blocks bp s =
     (let s1 = s\<lparr>caml_fl_cur_size := caml_fl_cur_size s + of_nat (Wosize_bp (fl_mem s) bp + 1)\<rparr>;
          tail = Op_val (fl_mem s1 (bp + 1))
      in if bp > fl_last s1
         then let s2 = set_Next (fl_last s1) bp s1;
                  s3 = (if fl_last s2 = caml_fl_merge s2 \<and> bp < caml_gc_sweep_hp s2
                        then s2\<lparr>caml_fl_merge := Op_val (fl_mem s2 (bp + 1))\<rparr> else s2)
              in Some (if policy s3 = Policy_first_fit \<and> flp_size s3 < FLP_MAX
                       then s3\<lparr>flp := (flp s3)(flp_size s3 := fl_last s3), flp_size := flp_size s3 + 1\<rparr> else s3)
         else map_option (\<lambda>(prev, cur).
                let s2 = set_Next prev bp (set_Next tail cur s1);
                    s3 = (if prev = caml_fl_merge s2 \<and> bp < caml_gc_sweep_hp s2
                          then s2\<lparr>caml_fl_merge := Op_val (fl_mem s2 (bp + 1))\<rparr> else s2)
                in if policy s3 = Policy_first_fit then truncate_flp bp s3 else s3)
                (insertion_point (fl_mem s1) bp (Fl_head s1)))"

function caml_make_free_blocks :: "ptr \<Rightarrow> nat \<Rightarrow> bool \<Rightarrow> u64 \<Rightarrow> freelist \<Rightarrow> freelist" where
  "caml_make_free_blocks p n do_merge color s =
     (if n > 0
      then let sz = (if n > unat Max_wosize + 1 then unat Max_wosize + 1 else n);
               s1 = s\<lparr>fl_mem := (fl_mem s)(p := Make_header (of_nat (sz - 1)) 0 color)\<rparr>;
               s2 = (if do_merge then snd (caml_fl_merge_block (p + 1) s1) else s1)
           in caml_make_free_blocks (p + sz) (n - sz) do_merge color s2
      else s)"
  by pat_completeness auto

termination
  by (relation "measure (\<lambda>(p, n, _). n)") auto

definition caml_set_allocation_policy :: "nat \<Rightarrow> freelist \<Rightarrow> freelist" where
  "caml_set_allocation_policy p s =
     (if p = Policy_next_fit then s\<lparr>fl_prev := Fl_head s, policy := p\<rparr>
      else if p = Policy_first_fit then s\<lparr>flp_size := 0, beyond := NULL, policy := p\<rparr>
      else s)"

end
