(* ===== verification/Freelist_Chain.thy ===== *)
theory Freelist_Chain
  imports Freelist
begin

text \<open>
  The chain of free blocks as a list of addresses and sizes. A chain is sorted,
  its blocks are disjoint, non-empty, blue and apart from the sentinel; the
  lemmas say how the chain changes when a block is unlinked, inserted or resized,
  and that the two loops of the next-fit search find the first fitting block of
  the part they scan.
\<close>

definition fl_end :: "ptr \<Rightarrow> (ptr \<times> nat) list \<Rightarrow> ptr" where
  "fl_end p xs = last (p # map fst xs)"

fun seg :: "memory \<Rightarrow> ptr \<Rightarrow> (ptr \<times> nat) list \<Rightarrow> bool" where
  "seg m p [] = True"
| "seg m p ((b, n) # xs) = (Next_bp m p = b \<and> Wosize_bp m b = n \<and> Color_hd (m (b - 1)) = Caml_blue \<and> seg m b xs)"

definition fl_list :: "memory \<Rightarrow> ptr \<Rightarrow> (ptr \<times> nat) list \<Rightarrow> bool" where
  "fl_list m p xs = (seg m p xs \<and> Next_bp m (fl_end p xs) = NULL)"

definition spaced :: "ptr \<Rightarrow> (ptr \<times> nat) list \<Rightarrow> bool" where
  "spaced h xs \<longleftrightarrow> 1 < h \<and> h < 2 ^ 61 \<and> sorted_wrt (\<lambda>(b, n) (b', n'). b + n < b') xs \<and>
     (\<forall>(b, n) \<in> set xs. 1 < b \<and> b + n < 2 ^ 61 \<and> (h + 1 < b \<or> b + n < h))"

definition nonempty :: "(ptr \<times> nat) list \<Rightarrow> bool" where
  "nonempty xs \<longleftrightarrow> (\<forall>(b, n) \<in> set xs. 1 \<le> n)"

lemma fl_end_simps [simp]:
  "fl_end p [] = p" "fl_end p (x # xs) = fl_end (fst x) xs" "fl_end p (xs @ ys) = fl_end (fl_end p xs) ys"
  by (auto simp: fl_end_def)

lemma fl_end_in: "fl_end p xs \<in> set (p # map fst xs)"
  unfolding fl_end_def by (rule last_in_set) simp

lemma seg_append [simp]: "seg m p (xs @ ys) \<longleftrightarrow> seg m p xs \<and> seg m (fl_end p xs) ys"
proof (induction xs arbitrary: p)
  case (Cons x xs)
  then show ?case by (cases x) simp
qed simp

lemma fl_list_append: "fl_list m p (xs @ ys) \<longleftrightarrow> seg m p xs \<and> fl_list m (fl_end p xs) ys"
  by (auto simp: fl_list_def)

lemma fl_list_Cons: "fl_list m p (x # xs) \<longleftrightarrow> seg m p [x] \<and> fl_list m (fst x) xs"
  by (cases x) (auto simp: fl_list_def)

lemma seg_cong:
  assumes "\<And>b. b \<in> fst ` set xs \<Longrightarrow> m' (b - 1) = m (b - 1)"
    and "\<And>q. q \<in> set (butlast (p # map fst xs)) \<Longrightarrow> m' q = m q"
  shows "seg m' p xs = seg m p xs"
  using assms
proof (induction xs arbitrary: p)
  case Nil
  show ?case by simp
next
  case (Cons x xs)
  obtain b n where x: "x = (b, n)" by force
  have "seg m' b xs = seg m b xs" using Cons.prems by (intro Cons.IH) (auto simp: x)
  moreover have "m' p = m p" "m' (b - 1) = m (b - 1)" using Cons.prems by (auto simp: x)
  ultimately show ?case by (simp add: x Next_bp_def Wosize_bp_def)
qed

lemma fl_list_start:
  assumes "Next_bp m p = Next_bp m q"
  shows "fl_list m p xs = fl_list m q xs"
  using assms by (cases xs) (auto simp: fl_list_def)

lemma fl_list_cong:
  assumes "\<And>b. b \<in> fst ` set xs \<Longrightarrow> m' (b - 1) = m (b - 1)"
    and "\<And>q. q \<in> fst ` set xs \<Longrightarrow> m' q = m q" and "Next_bp m' p' = Next_bp m p"
  shows "fl_list m' p' xs = fl_list m p xs"
proof (cases xs)
  case Nil
  then show ?thesis using assms(3) by (simp add: fl_list_def)
next
  case (Cons x ys)
  obtain b n where x: "x = (b, n)" by force
  have "q \<in> fst ` set xs" if "q \<in> set (butlast (b # map fst ys))" for q
    using in_set_butlastD [OF that] by (auto simp: Cons x)
  then have "seg m' b ys = seg m b ys" using assms(1,2) by (intro seg_cong) (auto simp: Cons x)
  moreover have "fl_end b ys \<in> fst ` set xs" using fl_end_in [of b ys] by (auto simp: Cons x)
  then have "m' (fl_end b ys) = m (fl_end b ys)" by (rule assms(2))
  moreover have "m' (b - 1) = m (b - 1)" using assms(1) by (simp add: Cons x)
  ultimately show ?thesis using assms(3) by (simp add: fl_list_def Cons x Next_bp_def Wosize_bp_def)
qed

lemma spaced_append:
  "spaced h (xs @ ys) \<longleftrightarrow> spaced h xs \<and> spaced h ys \<and>
     (\<forall>x \<in> set xs. \<forall>y \<in> set ys. fst x + snd x < fst y)"
  by (auto simp: spaced_def sorted_wrt_append case_prod_unfold)

lemma spaced_Cons:
  "spaced h ((b, n) # xs) \<longleftrightarrow> 1 < b \<and> b + n < 2 ^ 61 \<and> (h + 1 < b \<or> b + n < h) \<and> spaced h xs \<and> (\<forall>y \<in> set xs. b + n < fst y)"
  by (auto simp: spaced_def case_prod_unfold)

lemma spaced_head: "spaced h xs \<Longrightarrow> 1 < h \<and> h < 2 ^ 61"
  by (simp add: spaced_def)

lemma spaced_elem: "spaced h xs \<Longrightarrow> (b, n) \<in> set xs \<Longrightarrow> 1 < b \<and> b + n < 2 ^ 61 \<and> (h + 1 < b \<or> b + n < h)"
  by (auto simp: spaced_def)

lemma spaced_gt1: "spaced h xs \<Longrightarrow> b \<in> fst ` set xs \<Longrightarrow> 1 < b"
  by (auto dest: spaced_elem)

lemma nonempty_simps [simp]:
  "nonempty []" "nonempty ((b, n) # xs) \<longleftrightarrow> 1 \<le> n \<and> nonempty xs"
  "nonempty (xs @ ys) \<longleftrightarrow> nonempty xs \<and> nonempty ys"
  by (auto simp: nonempty_def)

lemma spaced_distinct: "spaced h xs \<Longrightarrow> distinct (h # map fst xs)"
  by (induction xs) (fastforce simp: spaced_def)+

text \<open>The words of a chain and the headers of its blocks do not overlap.\<close>

lemma spaced_header:
  assumes "spaced h xs" and "nonempty xs" and "b \<in> fst ` set xs"
  shows "b - 1 \<notin> set (h # map fst xs)" and "b - 1 \<noteq> h - 1" and "b \<noteq> h - 1"
proof -
  obtain n where bn: "(b, n) \<in> set xs" using assms(3) by auto
  then obtain us vs where xs: "xs = us @ (b, n) # vs" by (auto dest: split_list)
  have s: "spaced h us" "spaced h ((b, n) # vs)" "\<forall>x \<in> set us. fst x + snd x < b"
    using assms(1) by (auto simp: xs spaced_append)
  have us: "x < b - 1" if x: "x \<in> fst ` set us" for x
  proof -
    obtain k where k: "(x, k) \<in> set us" using x by auto
    then have "x + k < b" using s(3) by force
    moreover have "1 \<le> k" using k assms(2) by (auto simp: xs nonempty_def)
    ultimately show ?thesis by simp
  qed
  have vs: "b < x" if "x \<in> fst ` set vs" for x
    using that s(2) by (auto simp: spaced_Cons)
  have b: "1 < b" "h + 1 < b \<or> b + n < h" "1 < h" using spaced_elem [OF assms(1) bn] spaced_head [OF assms(1)] by auto
  have "b - 1 \<noteq> h" "b - 1 \<noteq> b" using b by auto
  then show "b - 1 \<notin> set (h # map fst xs)" using us vs by (force simp: xs)
  have "1 \<le> n" using bn assms(2) by (auto simp: nonempty_def)
  then show "b - 1 \<noteq> h - 1" "b \<noteq> h - 1" using b by auto
qed

text \<open>Changing a chain: relinking, insertion and resizing.\<close>

lemma spaced_end:
  assumes "spaced h (xs @ ys)" and "nonempty (xs @ ys)"
  shows "fl_end h xs \<notin> set (butlast (h # map fst xs))"
    and "fl_end h xs \<notin> fst ` set ys"
    and "b \<in> fst ` set (xs @ ys) \<Longrightarrow> b - 1 \<noteq> fl_end h xs"
proof -
  have d: "distinct (h # map fst (xs @ ys))" using spaced_distinct [OF assms(1)] .
  have "butlast (h # map fst xs) @ [last (h # map fst xs)] = h # map fst xs" by (rule append_butlast_last_id) simp
  moreover have "distinct (h # map fst xs)" using d by auto
  ultimately show "fl_end h xs \<notin> set (butlast (h # map fst xs))"
    unfolding fl_end_def by (metis distinct_append disjoint_iff list.set_intros(1))
  have "set (h # map fst xs) \<inter> fst ` set ys = {}" using d by auto
  then show "fl_end h xs \<notin> fst ` set ys" using fl_end_in [of h xs] by blast
  show "b - 1 \<noteq> fl_end h xs" if "b \<in> fst ` set (xs @ ys)"
  proof -
    have "set (h # map fst xs) \<subseteq> set (h # map fst (xs @ ys))" by auto
    from subsetD [OF this fl_end_in] spaced_header(1) [OF assms that] show ?thesis by metis
  qed
qed

lemma fl_list_relink:
  assumes "seg m h xs" and "fl_list m q ys" and "spaced h (xs @ ys)" and "nonempty (xs @ ys)"
    and "\<And>a. a \<noteq> fl_end h xs \<Longrightarrow> m' a \<noteq> m a \<Longrightarrow> a \<notin> set (h # map fst (xs @ ys)) \<and> a + 1 \<notin> fst ` set (xs @ ys)"
    and "Next_bp m' (fl_end h xs) = Next_bp m q"
  shows "fl_list m' h (xs @ ys)"
proof -
  note e = spaced_end [OF assms(3,4)]
  have hdr: "m' (b - 1) = m (b - 1)" if "b \<in> fst ` set (xs @ ys)" for b
  proof -
    have "1 < b" using spaced_gt1 [OF assms(3) that] .
    then show ?thesis using assms(5) [of "b - 1"] e(3) [OF that] that by (auto simp del: set_append)
  qed
  have "seg m' h xs = seg m h xs"
  proof (rule seg_cong)
    fix x assume x: "x \<in> set (butlast (h # map fst xs))"
    then have "x \<in> set (h # map fst (xs @ ys))" using in_set_butlastD [OF x] by auto
    then show "m' x = m x" using x e(1) assms(5) [of x] by blast
  qed (use hdr in auto)
  moreover have "fl_list m' (fl_end h xs) ys = fl_list m q ys"
  proof (rule fl_list_cong)
    fix x assume x: "x \<in> fst ` set ys"
    then have "x \<noteq> fl_end h xs" using e(2) by blast
    then show "m' x = m x" using x assms(5) [of x] by auto
  qed (use hdr assms(6) in auto)
  ultimately show ?thesis using assms(1,2) by (simp add: fl_list_append)
qed

lemma fl_list_insert:
  assumes "seg m h xs" and "fl_list m q ys" and "spaced h (xs @ (b, n) # ys)" and "nonempty (xs @ (b, n) # ys)"
    and "\<And>a. a \<noteq> fl_end h xs \<Longrightarrow> a \<noteq> b \<Longrightarrow> a \<noteq> b - 1 \<Longrightarrow> m' a = m a"
    and "Next_bp m' (fl_end h xs) = b" and "Next_bp m' b = Next_bp m q"
    and "Wosize_bp m' b = n" and "Color_hd (m' (b - 1)) = Caml_blue"
  shows "fl_list m' h (xs @ (b, n) # ys)"
proof -
  note e = spaced_end [OF assms(3,4)]
  have d: "distinct (h # map fst (xs @ (b, n) # ys))" using spaced_distinct [OF assms(3)] .
  have b1: "b - 1 \<notin> set (h # map fst (xs @ (b, n) # ys))"
    using spaced_header(1) [OF assms(3,4), of b] by auto
  have hdr: "m' (x - 1) = m (x - 1)" if "x \<in> fst ` set (xs @ ys)" for x
  proof -
    have x: "x \<in> fst ` set (xs @ (b, n) # ys)" using that by auto
    then have "1 < x" "1 < b" using spaced_gt1 [OF assms(3)] by auto
    moreover have "x \<noteq> b" using that d by auto
    ultimately show ?thesis using assms(5) [of "x - 1"] e(3) [OF x] spaced_header(1) [OF assms(3,4) x] by auto
  qed
  have "seg m' h xs = seg m h xs"
  proof (rule seg_cong)
    fix x assume x: "x \<in> set (butlast (h # map fst xs))"
    then have "x \<in> set (h # map fst xs)" by (rule in_set_butlastD)
    then have "x \<noteq> b" "x \<noteq> b - 1" using d b1 by auto
    then show "m' x = m x" using x e(1) assms(5) [of x] by blast
  qed (use hdr in auto)
  moreover have "fl_list m' b ys = fl_list m q ys"
  proof (rule fl_list_cong)
    fix x assume x: "x \<in> fst ` set ys"
    have "b \<notin> fst ` set ys" "b - 1 \<notin> fst ` set ys" "fl_end h xs \<notin> fst ` set ys" using e(2) d b1 by auto
    then have "x \<noteq> fl_end h xs" "x \<noteq> b" "x \<noteq> b - 1" using x by metis+
    then show "m' x = m x" by (intro assms(5))
  qed (use hdr assms(7) in auto)
  ultimately show ?thesis using assms by (simp add: fl_list_append fl_list_Cons [of m' "fl_end h xs"])
qed

lemma fl_list_resize:
  assumes "fl_list m h (xs @ (b, n) # ys)" and "spaced h (xs @ (b, n) # ys)" and "nonempty (xs @ (b, n) # ys)"
    and "\<And>a. a \<noteq> b - 1 \<Longrightarrow> m' a = m a"
    and "Wosize_bp m' b = n'" and "Color_hd (m' (b - 1)) = Caml_blue"
  shows "fl_list m' h (xs @ (b, n') # ys)"
proof -
  have b1: "b - 1 \<notin> set (h # map fst (xs @ (b, n) # ys))"
    using spaced_header(1) [OF assms(2,3), of b] by auto
  then have f: "m' a = m a" if "a \<in> set (h # map fst (xs @ (b, n) # ys))" for a using that assms(4) by metis
  have hdr: "m' (x - 1) = m (x - 1)" if "x \<in> fst ` set (xs @ ys)" for x
  proof -
    have "b \<notin> fst ` set (xs @ ys)" using spaced_distinct [OF assms(2)] by auto
    then have "x \<noteq> b" "1 < x" "1 < b" using that spaced_gt1 [OF assms(2)] by auto
    then show ?thesis using assms(4) [of "x - 1"] by simp
  qed
  have "set (h # map fst xs) \<subseteq> set (h # map fst (xs @ (b, n) # ys))" by auto
  then have fx: "m' a = m a" if "a \<in> set (h # map fst xs)" for a using that f by blast
  have "seg m' h xs = seg m h xs"
  proof (rule seg_cong)
    fix q assume "q \<in> set (butlast (h # map fst xs))"
    then show "m' q = m q" by (rule fx [OF in_set_butlastD])
  qed (use hdr in auto)
  moreover have "fl_list m' b ys = fl_list m b ys"
    by (rule fl_list_cong) (use hdr f in \<open>auto simp: Next_bp_def\<close>)
  moreover have "m' (fl_end h xs) = m (fl_end h xs)" by (rule fx [OF fl_end_in])
  ultimately show ?thesis using assms(1,5,6)
    by (simp add: fl_list_append fl_list_Cons [of _ "fl_end h xs"] Next_bp_def)
qed

section \<open>The invariant\<close>

definition fl_total :: "(ptr \<times> nat) list \<Rightarrow> nat" where
  "fl_total xs = sum_list (map (\<lambda>(b, n). n + 1) xs)"

definition fl_words :: "(ptr \<times> nat) list \<Rightarrow> ptr set" where
  "fl_words xs = (\<Union>(b, n) \<in> set xs. {b - 1..<b + n})"

definition fl_ok :: "freelist \<Rightarrow> (ptr \<times> nat) list \<Rightarrow> bool" where
  "fl_ok s xs \<longleftrightarrow> fl_list (fl_mem s) (Fl_head s) xs \<and> spaced (Fl_head s) xs \<and> nonempty xs \<and>
     Wosize_bp (fl_mem s) (Fl_head s) = 0 \<and> caml_fl_cur_size s = of_nat (fl_total xs) \<and>
     caml_fl_merge s \<in> set (Fl_head s # map fst xs) \<and>
     (policy s = Policy_next_fit \<longrightarrow> fl_prev s \<in> set (Fl_head s # map fst xs))"

lemma fl_total_simps [simp]:
  "fl_total [] = 0" "fl_total ((b, n) # xs) = n + 1 + fl_total xs" "fl_total (xs @ ys) = fl_total xs + fl_total ys"
  by (simp_all add: fl_total_def)

lemma fl_words_simps [simp]:
  "fl_words [] = {}" "fl_words ((b, n) # xs) = {b - 1..<b + n} \<union> fl_words xs"
  "fl_words (xs @ ys) = fl_words xs \<union> fl_words ys"
  by (auto simp: fl_words_def)

lemma chain_position:
  assumes "p \<in> set (h # map fst xs)"
  obtains us vs where "xs = us @ vs" and "p = fl_end h us"
proof (cases "p = h")
  case True
  then show ?thesis using that [of "[]" xs] by simp
next
  case False
  then obtain n where "(p, n) \<in> set xs" using assms by auto
  then obtain us vs where "xs = us @ (p, n) # vs" by (auto dest: split_list)
  then show ?thesis using that [of "us @ [(p, n)]" vs] by simp
qed

lemma seg_no_null: "spaced h xs \<Longrightarrow> (b, n) \<in> set xs \<Longrightarrow> b \<noteq> NULL"
  using spaced_elem by fastforce

lemma Next_range: "spaced h ys \<Longrightarrow> fl_list m p ys \<Longrightarrow> Next_bp m p < 2 ^ 61"
  by (cases ys) (auto simp: fl_list_def spaced_def)

section \<open>Next-fit search\<close>

lemma nf_search1_spec:
  assumes "fl_list m p ys" and "NULL \<notin> fst ` set ys"
  shows "(\<exists>us b n vs. ys = us @ (b, n) # vs \<and> (\<forall>x \<in> set us. snd x < w) \<and> w \<le> n \<and> nf_search1 m w p = Some (Inl (fl_end p us, b)))
    \<or> ((\<forall>x \<in> set ys. snd x < w) \<and> nf_search1 m w p = Some (Inr (fl_end p ys)))"
  using assms
proof (induction ys arbitrary: p)
  case Nil
  then show ?case by (subst (2) nf_search1.simps) (simp add: fl_list_def Let_def)
next
  case (Cons x ys)
  obtain b n where x: "x = (b, n)" by force
  have n: "Next_bp m p = b" "Wosize_bp m b = n" "b \<noteq> NULL" and l: "fl_list m b ys"
    using Cons.prems by (auto simp: fl_list_def x)
  show ?case
  proof (cases "w \<le> n")
    case True
    then have "nf_search1 m w p = Some (Inl (fl_end p [], b))" by (subst nf_search1.simps) (simp add: n Let_def)
    then show ?thesis using True x by (intro disjI1 exI [of _ "[]"]) auto
  next
    case False
    then have e: "nf_search1 m w p = nf_search1 m w b" by (subst nf_search1.simps) (simp add: n Let_def)
    consider (1) us b' n' vs where "ys = us @ (b', n') # vs" "\<forall>x \<in> set us. snd x < w" "w \<le> n'"
          "nf_search1 m w b = Some (Inl (fl_end b us, b'))"
      | (2) "\<forall>x \<in> set ys. snd x < w" "nf_search1 m w b = Some (Inr (fl_end b ys))"
      using Cons.IH [OF l] Cons.prems(2) by auto
    then show ?thesis
    proof cases
      case 1
      then show ?thesis using False x e by (intro disjI1 exI [of _ "x # us"]) auto
    next
      case 2
      then show ?thesis using False x e by auto
    qed
  qed
qed

lemma nf_search2_spec:
  assumes "seg m p ys" and "distinct (p # map fst ys)"
  shows "(\<exists>us b n vs. ys = us @ (b, n) # vs \<and> (\<forall>x \<in> set us. snd x < w) \<and> w \<le> n \<and> nf_search2 m w (fl_end p ys) p = Some (Some (fl_end p us, b)))
    \<or> ((\<forall>x \<in> set ys. snd x < w) \<and> nf_search2 m w (fl_end p ys) p = Some None)"
  using assms
proof (induction ys arbitrary: p)
  case Nil
  then show ?case by (subst (2) nf_search2.simps) simp
next
  case (Cons x ys)
  obtain b n where x: "x = (b, n)" by force
  have n: "Next_bp m p = b" "Wosize_bp m b = n" and l: "seg m b ys" and d: "distinct (b # map fst ys)"
    using Cons.prems by (auto simp: x)
  have "p \<noteq> fl_end b ys" using fl_end_in [of b ys] Cons.prems(2) by (metis distinct.simps(2) list.simps(9) fst_conv x)
  note s = n this
  show ?case
  proof (cases "w \<le> n")
    case True
    then have "nf_search2 m w (fl_end b ys) p = Some (Some (fl_end p [], b))"
      by (subst nf_search2.simps) (simp add: s Let_def)
    then show ?thesis using True x by (intro disjI1 exI [of _ "[]"]) auto
  next
    case False
    then have e: "nf_search2 m w (fl_end b ys) p = nf_search2 m w (fl_end b ys) b"
      by (subst nf_search2.simps) (simp add: s Let_def)
    consider (1) us b' n' vs where "ys = us @ (b', n') # vs" "\<forall>x \<in> set us. snd x < w" "w \<le> n'"
          "nf_search2 m w (fl_end b ys) b = Some (Some (fl_end b us, b'))"
      | (2) "\<forall>x \<in> set ys. snd x < w" "nf_search2 m w (fl_end b ys) b = Some None"
      using Cons.IH [OF l d] by auto
    then show ?thesis
    proof cases
      case 1
      then show ?thesis using False x e by (intro disjI1 exI [of _ "x # us"]) auto
    next
      case 2
      then show ?thesis using False x e by auto
    qed
  qed
qed

end
