(* ===== verification/Freelist_Alloc.thy ===== *)
theory Freelist_Alloc
  imports Freelist_Chain
begin

text \<open>
  Allocation from the free list: what \<^verbatim>\<open>allocate_block_r\<close> does to the chain
  when it detaches or splits a block, and that the next-fit policy finds a block
  exactly when some free block is large enough.
\<close>

section \<open>Taking a block\<close>

lemma Make_header_nat:
  assumes "k \<le> unat Max_wosize" and "c \<in> {Caml_white, Caml_blue}"
  shows "unat (Wosize_hd (Make_header (of_nat k) 0 c)) = k" and "Color_hd (Make_header (of_nat k) 0 c) = c"
proof -
  have k: "unat (of_nat k :: u64) = k" using assms(1) by (intro unat_of_nat_small) (simp add: Max_wosize_def)
  then have "of_nat k \<le> Max_wosize" using assms(1) by (simp add: word_le_nat_alt)
  then have m: "Wosize_hd (Make_header (of_nat k) 0 c) = of_nat k" "Color_hd (Make_header (of_nat k) 0 c) = c"
    using Make_header_fields [of "of_nat k" 0 c] assms(2) by auto
  then show "unat (Wosize_hd (Make_header (of_nat k) 0 c)) = k" "Color_hd (Make_header (of_nat k) 0 c) = c"
    by (simp_all add: k)
qed

lemma Wosize_bp_max: "Wosize_bp m b \<le> unat Max_wosize"
  using unat_Wosize_hd [of "m (b - 1)"] by (simp add: Wosize_bp_def Max_wosize_def)

lemma Next_upd [simp]: "p < 2 ^ 61 \<Longrightarrow> Next_bp (m(b := val_of_ptr p)) b = p"
  by (simp add: Next_bp_def)

lemma detach_flp_other [simp]:
  "fl_mem (detach_flp i p c s) = fl_mem s" "Fl_head (detach_flp i p c s) = Fl_head s"
  "policy (detach_flp i p c s) = policy s" "fl_prev (detach_flp i p c s) = fl_prev s"
  "caml_fl_merge (detach_flp i p c s) = caml_fl_merge s" "caml_fl_cur_size (detach_flp i p c s) = caml_fl_cur_size s"
  by (simp_all add: detach_flp_def)

text \<open>
  What an allocation of \<^term>\<open>w\<close> words promises: the block lies in free memory,
  is no longer free, and at most one word besides it was lost, which then holds
  the header of an empty white block.
\<close>

definition taken :: "freelist \<Rightarrow> (ptr \<times> nat) list \<Rightarrow> nat \<Rightarrow> ptr \<Rightarrow> freelist \<Rightarrow> (ptr \<times> nat) list \<Rightarrow> bool" where
  "taken s xs w r s' zs \<longleftrightarrow>
     fl_ok s' zs \<and> r \<noteq> NULL \<and> Fl_head s' = Fl_head s \<and> policy s' = policy s \<and>
     fl_words zs \<inter> {r..<r + w + 1} = {} \<and>
     (fl_words xs = fl_words zs \<union> {r..<r + w + 1} \<or>
      fl_words xs = insert (r - 1) (fl_words zs) \<union> {r..<r + w + 1} \<and> r - 1 \<notin> fl_words zs \<and>
        fl_mem s' (r - 1) = Make_header 0 0 Caml_white) \<and>
     (\<forall>a. a \<notin> fl_words xs \<longrightarrow> a \<noteq> Fl_head s \<longrightarrow> fl_mem s' a = fl_mem s a)"

lemma allocate_block_split:
  assumes ok: "fl_ok s (xs @ (b, n) # ys)" and "wh + 1 \<le> n" and "1 \<le> wh"
    and e: "allocate_block wh flpi (fl_end (Fl_head s) xs) b s = (r, s')"
  shows "fl_ok s' (xs @ (b, n - wh) # ys)" and "r = b + n - wh" and "Fl_head s' = Fl_head s"
    and "\<And>a. a \<noteq> b - 1 \<Longrightarrow> fl_mem s' a = fl_mem s a" and "policy s' = policy s"
proof -
  let ?h = "Fl_head s" and ?m = "fl_mem s"
  have l: "fl_list ?m ?h (xs @ (b, n) # ys)" and sp: "spaced ?h (xs @ (b, n) # ys)" and ne: "nonempty (xs @ (b, n) # ys)"
    using ok by (auto simp: fl_ok_def)
  have n: "Wosize_bp ?m b = n" using l by (auto simp: fl_list_def)
  have nm: "n - wh \<le> unat Max_wosize" using Wosize_bp_max [of ?m b] by (simp add: n)
  define m' where "m' = ?m(b - 1 := Make_header (of_nat (n - wh)) 0 Caml_blue)"
  have s': "r = b + n - wh" "s' = (s\<lparr>caml_fl_cur_size := caml_fl_cur_size s - of_nat wh, fl_mem := m',
      fl_prev := (if policy s = Policy_next_fit then fl_end ?h xs else fl_prev s)\<rparr>)"
    using e assms(2) by (auto simp: allocate_block_def n Let_def set_Hd_def m'_def)
  show "r = b + n - wh" by (rule s')
  show "Fl_head s' = ?h" "policy s' = policy s" by (simp_all add: s')
  show "fl_mem s' a = ?m a" if "a \<noteq> b - 1" for a using that by (simp add: s' m'_def)
  have "fl_list m' ?h (xs @ (b, n - wh) # ys)"
    by (rule fl_list_resize [OF l sp ne]) (use Make_header_nat [OF nm] in \<open>auto simp: m'_def Wosize_bp_def\<close>)
  moreover have "spaced ?h (xs @ (b, n - wh) # ys)" using sp by (auto simp: spaced_append spaced_Cons)
  moreover have "?h - 1 \<noteq> b - 1" using spaced_header(2) [OF sp ne, of b] by auto
  then have "Wosize_bp m' ?h = 0" using ok by (simp add: m'_def Wosize_bp_def fl_ok_def)
  moreover have "caml_fl_cur_size s - of_nat wh = of_nat (fl_total (xs @ (b, n - wh) # ys))"
  proof -
    have "fl_total (xs @ (b, n) # ys) = fl_total (xs @ (b, n - wh) # ys) + wh" using assms(2) by simp
    then show ?thesis using ok by (simp only: fl_ok_def of_nat_add) simp
  qed
  moreover have "fl_end ?h xs \<in> set (?h # map fst (xs @ (b, n - wh) # ys))"
    using fl_end_in [of ?h xs] by auto
  ultimately show "fl_ok s' (xs @ (b, n - wh) # ys)" using ok ne assms(2) by (auto simp: fl_ok_def s')
qed

lemma allocate_block_detach:
  assumes ok: "fl_ok s (xs @ (b, n) # ys)" and "n < wh + 1" and "wh \<le> n + 1"
    and e: "allocate_block wh flpi (fl_end (Fl_head s) xs) b s = (r, s')"
  shows "fl_ok s' (xs @ ys)" and "r = b + n - wh" and "Fl_head s' = Fl_head s"
    and "\<And>a. a \<noteq> b - 1 \<Longrightarrow> a \<noteq> fl_end (Fl_head s) xs \<Longrightarrow> fl_mem s' a = fl_mem s a" and "policy s' = policy s"
    and "fl_mem s' (b - 1) = Make_header 0 0 Caml_white"
proof -
  let ?h = "Fl_head s" and ?m = "fl_mem s"
  let ?p = "fl_end ?h xs"
  have l: "fl_list ?m ?h (xs @ (b, n) # ys)" and sp: "spaced ?h (xs @ (b, n) # ys)" and ne: "nonempty (xs @ (b, n) # ys)"
    using ok by (auto simp: fl_ok_def)
  have n: "Wosize_bp ?m b = n" using l by (auto simp: fl_list_def)
  define m' where "m' = ?m(?p := val_of_ptr (Next_bp ?m b), b - 1 := Make_header 0 0 Caml_white)"
  have s': "r = b + n - wh" "fl_mem s' = m'" "Fl_head s' = ?h" "policy s' = policy s"
    "caml_fl_cur_size s' = caml_fl_cur_size s - of_nat (n + 1)"
    "caml_fl_merge s' = (if caml_fl_merge s = b then ?p else caml_fl_merge s)"
    "policy s = Policy_next_fit \<Longrightarrow> fl_prev s' = ?p"
    using e assms(2) by (auto simp: allocate_block_def n Let_def set_Hd_def set_Next_def m'_def)
  show "r = b + n - wh" "Fl_head s' = ?h" "policy s' = policy s" by (simp_all add: s')
  show "fl_mem s' (b - 1) = Make_header 0 0 Caml_white" by (simp add: s' m'_def)
  show "fl_mem s' a = ?m a" if "a \<noteq> b - 1" "a \<noteq> ?p" for a using that by (simp add: s' m'_def)
  have b1: "b - 1 \<noteq> ?h - 1" "b - 1 \<notin> set (?h # map fst (xs @ (b, n) # ys))" "b \<noteq> ?h - 1"
    using spaced_header [OF sp ne, of b] by auto
  have sp': "spaced ?h (xs @ ys)" and spy: "spaced ?h ys" using sp by (auto simp: spaced_append spaced_Cons)
  have b: "1 < b" using sp by (auto simp: spaced_append spaced_Cons)
  have b2: "b - 1 \<noteq> ?p" using spaced_end(3) [OF sp ne, of b] by auto
  have ly: "fl_list ?m b ys" using l by (auto simp: fl_list_def)
  have "fl_list m' ?h (xs @ ys)"
  proof (rule fl_list_relink [OF _ ly sp'])
    show "seg ?m ?h xs" using l by (auto simp: fl_list_def)
    show "nonempty (xs @ ys)" using ne by simp
    show "Next_bp m' ?p = Next_bp ?m b" using Next_range [OF spy ly] b2 by (simp add: m'_def Next_bp_def)
    fix a assume "a \<noteq> ?p" "m' a \<noteq> ?m a"
    then have a: "a = b - 1" by (auto simp: m'_def split: if_splits)
    have "b \<notin> fst ` set (xs @ ys)" using spaced_distinct [OF sp] by auto
    then show "a \<notin> set (?h # map fst (xs @ ys)) \<and> a + 1 \<notin> fst ` set (xs @ ys)" using a b1(2) b by auto
  qed
  moreover have "?p \<noteq> ?h - 1"
    using fl_end_in [of ?h xs] spaced_header(3) [OF sp ne] spaced_head [OF sp] by auto
  then have "Wosize_bp m' ?h = 0" using ok b1(1) by (simp add: m'_def Wosize_bp_def fl_ok_def)
  moreover have "caml_fl_cur_size s' = of_nat (fl_total (xs @ ys))"
    using ok by (simp add: s' fl_ok_def)
  moreover have pin: "?p \<in> set (?h # map fst (xs @ ys))" using fl_end_in [of ?h xs] by auto
  moreover have "caml_fl_merge s' \<in> set (?h # map fst (xs @ ys))" using ok pin by (auto simp: s' fl_ok_def)
  ultimately show "fl_ok s' (xs @ ys)" using ok ne sp' by (auto simp: fl_ok_def s')
qed

lemma spaced_words:
  assumes "spaced h (xs @ (b, n) # ys)"
  shows "fl_words (xs @ ys) \<inter> {b - 1..<b + n} = {}"
proof -
  have "x + k \<le> b - 1" if "(x, k) \<in> set xs" for x k using that assms by (fastforce simp: spaced_append)
  moreover have "b + n \<le> y - 1" if "(y, k) \<in> set ys" for y k using that assms by (fastforce simp: spaced_append spaced_Cons)
  ultimately show ?thesis by (fastforce simp: fl_words_def)
qed

lemma fl_end_words: "nonempty xs \<Longrightarrow> fl_end h xs \<noteq> h \<Longrightarrow> fl_end h xs \<in> fl_words xs"
proof -
  assume ne: "nonempty xs" and "fl_end h xs \<noteq> h"
  then obtain k where k: "(fl_end h xs, k) \<in> set xs" using fl_end_in [of h xs] by auto
  then have "1 \<le> k" using ne by (auto simp: nonempty_def)
  then have "fl_end h xs \<in> {fl_end h xs - 1..<fl_end h xs + k}" by auto
  then show ?thesis using k unfolding fl_words_def by blast
qed

lemma taken_block:
  assumes ok: "fl_ok s (xs @ (b, n) # ys)" and w: "w \<le> n" "1 \<le> w"
    and e: "allocate_block (w + 1) i (fl_end (Fl_head s) xs) b s = (r, s')"
  obtains zs where "taken s (xs @ (b, n) # ys) w r s' zs"
proof -
  have sp: "spaced (Fl_head s) (xs @ (b, n) # ys)" and ne: "nonempty (xs @ (b, n) # ys)" using ok by (auto simp: fl_ok_def)
  have b: "1 < b" using sp by (auto simp: spaced_append spaced_Cons)
  note d = spaced_words [OF sp]
  have W: "fl_words (xs @ (b, n) # ys) = {b - 1..<b + n} \<union> fl_words (xs @ ys)" by auto
  show ?thesis
  proof (cases "n < w + 1 + 1")
    case True
    have "w + 1 \<le> n + 1" using w by simp
    note D = allocate_block_detach [OF ok True this e]
    have r: "r = b + n - (w + 1)" "n = w \<or> n = w + 1" using D(2) True w by auto
    have r0: "r \<noteq> NULL" using r b by auto
    have cover: "{r..<r + w + 1} = {b - 1..<b + n} \<or>
        insert (r - 1) {r..<r + w + 1} = {b - 1..<b + n} \<and> r - 1 = b - 1"
    proof (cases "n = w")
      case True
      then have "r = b - 1" "r + w + 1 = b + n" using r b by auto
      then show ?thesis by simp
    next
      case False
      then have "r = b" "r + w + 1 = b + n" using r b by auto
      then show ?thesis using b by auto
    qed
    have "fl_mem s' a = fl_mem s a" if "a \<notin> fl_words (xs @ (b, n) # ys)" "a \<noteq> Fl_head s" for a
    proof (rule D(4))
      show "a \<noteq> b - 1" using that(1) b by auto
      show "a \<noteq> fl_end (Fl_head s) xs" using that fl_end_words [of xs "Fl_head s"] ne by auto
    qed
    moreover have "fl_words (xs @ ys) \<inter> {r..<r + w + 1} = {}" using cover d by blast
    moreover have "fl_words (xs @ (b, n) # ys) = fl_words (xs @ ys) \<union> {r..<r + w + 1} \<or>
        fl_words (xs @ (b, n) # ys) = insert (r - 1) (fl_words (xs @ ys)) \<union> {r..<r + w + 1} \<and>
        r - 1 \<notin> fl_words (xs @ ys) \<and> fl_mem s' (r - 1) = Make_header 0 0 Caml_white"
      using cover
    proof
      assume "{r..<r + w + 1} = {b - 1..<b + n}"
      then show ?thesis unfolding W by blast
    next
      assume c: "insert (r - 1) {r..<r + w + 1} = {b - 1..<b + n} \<and> r - 1 = b - 1"
      then have "fl_mem s' (r - 1) = Make_header 0 0 Caml_white" using D(6) by metis
      moreover have "r - 1 \<notin> fl_words (xs @ ys)" using c d by blast
      moreover have "fl_words (xs @ (b, n) # ys) = insert (r - 1) (fl_words (xs @ ys)) \<union> {r..<r + w + 1}"
        using c unfolding W by blast
      ultimately show ?thesis by blast
    qed
    ultimately have "taken s (xs @ (b, n) # ys) w r s' (xs @ ys)"
      unfolding taken_def using D(1,3,5) r0 by metis
    then show ?thesis by (rule that)
  next
    case False
    then have n: "w + 1 + 1 \<le> n" by simp
    have "1 \<le> w + 1" by simp
    note D = allocate_block_split [OF ok n this e]
    have r: "r = b + n - (w + 1)" using D(2) by simp
    have r0: "r \<noteq> NULL" using r b n by auto
    have cover: "{b - 1..<b + n} = {b - 1..<b + (n - (w + 1))} \<union> {r..<r + w + 1}"
      "{b - 1..<b + (n - (w + 1))} \<inter> {r..<r + w + 1} = {}" using r b n by auto
    have W': "fl_words (xs @ (b, n - (w + 1)) # ys) = {b - 1..<b + (n - (w + 1))} \<union> fl_words (xs @ ys)" by auto
    have "fl_mem s' a = fl_mem s a" if "a \<notin> fl_words (xs @ (b, n) # ys)" for a
      by (rule D(4)) (use that b in auto)
    then have "taken s (xs @ (b, n) # ys) w r s' (xs @ (b, n - (w + 1)) # ys)"
      unfolding taken_def using D(1,3,5) cover r0 d W W' by blast
    then show ?thesis by (rule that)
  qed
qed

lemma nf_allocate_spec:
  assumes ok: "fl_ok s xs" and nf: "policy s = Policy_next_fit" and w: "1 \<le> w"
  obtains r s' where "caml_fl_allocate w s = Some (r, s')"
    and "if \<forall>x \<in> set xs. snd x < w then r = NULL \<and> s' = s\<lparr>fl_last := fl_end (Fl_head s) xs\<rparr>
      else \<exists>zs. taken s xs w r s' zs"
proof -
  note goal = that
  let ?h = "Fl_head s" and ?m = "fl_mem s"
  have l: "fl_list ?m ?h xs" and sp: "spaced ?h xs" using ok by (auto simp: fl_ok_def)
  obtain us vs where xs: "xs = us @ vs" and p: "fl_prev s = fl_end ?h us"
    using chain_position [of "fl_prev s" ?h xs] ok nf by (auto simp: fl_ok_def)
  have A: thesis if x0: "xs = as @ (b, n) # bs" "w \<le> n"
      and c: "caml_fl_allocate w s = Some (allocate_block (w + 1) 0 (fl_end ?h as) b s0)" "s0 = s\<lparr>fl_last := q\<rparr>" for as b n bs s0 q
  proof -
    obtain r s' where e: "allocate_block (w + 1) 0 (fl_end ?h as) b s0 = (r, s')" by force
    have "fl_ok s0 (as @ (b, n) # bs)" using ok x0 c by (simp add: fl_ok_def)
    moreover have "Fl_head s0 = ?h" by (simp add: c)
    ultimately obtain zs where "taken s0 xs w r s' zs" using taken_block [of s0 as b n bs w 0 r s'] w x0 e by metis
    then have "taken s xs w r s' zs" using c(2) by (simp add: taken_def)
    moreover have "\<not> (\<forall>x \<in> set xs. snd x < w)" using x0 by force
    ultimately show thesis using goal [of r s'] c(1) e by metis
  qed
  have v: "fl_list ?m (fl_end ?h us) vs" "seg ?m ?h us" using l by (auto simp: xs fl_list_append)
  have d: "distinct (?h # map fst us)" using spaced_distinct [OF sp] by (auto simp: xs)
  have "NULL \<notin> fst ` set vs" using spaced_gt1 [OF sp, of NULL] by (auto simp: xs)
  with v(1) consider (1) as b n bs where "vs = as @ (b, n) # bs" "w \<le> n"
        "nf_search1 ?m w (fl_end ?h us) = Some (Inl (fl_end (fl_end ?h us) as, b))"
    | (2) "\<forall>x \<in> set vs. snd x < w" "nf_search1 ?m w (fl_end ?h us) = Some (Inr (fl_end ?h xs))"
    using nf_search1_spec [of ?m "fl_end ?h us" vs w] by (auto simp: xs)
  then show thesis
  proof cases
    case 1
    show thesis
      by (rule A [of "us @ as" b n bs s "fl_last s"]) (use 1 in \<open>simp_all add: caml_fl_allocate_def nf nf_allocate_def p xs\<close>)
  next
    case 2
    consider (3) as b n bs where "us = as @ (b, n) # bs" "w \<le> n"
        "nf_search2 ?m w (fl_end ?h us) ?h = Some (Some (fl_end ?h as, b))"
      | (4) "\<forall>x \<in> set us. snd x < w" "nf_search2 ?m w (fl_end ?h us) ?h = Some None"
      using nf_search2_spec [OF v(2) d, of w] by auto
    then show thesis
    proof cases
      case 3
      show thesis
        by (rule A [of as b n "bs @ vs" "s\<lparr>fl_last := fl_end ?h xs\<rparr>" "fl_end ?h xs"])
          (use 2 3 in \<open>simp_all add: caml_fl_allocate_def nf nf_allocate_def p xs Let_def\<close>)
    next
      case 4
      have "caml_fl_allocate w s = Some (NULL, s\<lparr>fl_last := fl_end ?h xs\<rparr>)"
        using 2(2) 4(2) by (simp add: caml_fl_allocate_def nf nf_allocate_def p Let_def)
      moreover have "\<forall>x \<in> set xs. snd x < w" using 2(1) 4(1) by (auto simp: xs)
      ultimately show thesis using that by simp
    qed
  qed
qed

text \<open>
  C39: With the next-fit policy \<^verbatim>\<open>caml_fl_allocate_r\<close> always returns. It fails,
  changing nothing but the remembered end of the list, exactly when every free
  block is too small. Otherwise the returned words were free and are no longer in
  the list, at most one further word is lost, memory outside the free list is
  untouched and the invariant of the list holds again.
\<close>

theorem nf_allocate_correct:
  assumes "fl_ok s xs" and "policy s = Policy_next_fit" and "1 \<le> w"
  shows "\<exists>r s'. caml_fl_allocate w s = Some (r, s') \<and>
    (if \<forall>x \<in> set xs. snd x < w then r = NULL \<and> s' = s\<lparr>fl_last := fl_end (Fl_head s) xs\<rparr>
     else \<exists>zs. taken s xs w r s' zs)"
  using nf_allocate_spec [OF assms] by metis

definition sample_memory :: memory where
  "sample_memory = (\<lambda>a. 0)(10 := val_of_ptr 20, 19 := Make_header 3 0 Caml_blue, 20 := val_of_ptr 40,
     39 := Make_header 6 0 Caml_blue)"

definition sample_freelist :: freelist where
  "sample_freelist = \<lparr>fl_mem = sample_memory, Fl_head = 10, fl_prev = 40, fl_last = 0, caml_fl_merge = 10,
     caml_fl_cur_size = 11, last_fragment = 0, flp = (\<lambda>i. 0), flp_size = 0, beyond = 0, policy = 0, caml_gc_sweep_hp = 0\<rparr>"

lemma sample_freelist_ok: "fl_ok sample_freelist [(20, 3), (40, 6)]"
proof -
  have "Color_hd (Make_header 3 0 Caml_blue) = Caml_blue" "Color_hd (Make_header 6 0 Caml_blue) = Caml_blue"
    "unat (Wosize_hd (Make_header 3 0 Caml_blue)) = 3" "unat (Wosize_hd (Make_header 6 0 Caml_blue)) = 6"
    "unat (Wosize_hd 0) = 0" "Op_val 0 = 0" by code_simp+
  then show ?thesis
    by (simp add: fl_ok_def sample_freelist_def fl_list_def Next_bp_def Wosize_bp_def sample_memory_def spaced_def)
qed

theorem nf_allocate_correct_witness:
  "\<exists>r s' zs. caml_fl_allocate 5 sample_freelist = Some (r, s') \<and> taken sample_freelist [(20, 3), (40, 6)] 5 r s' zs"
proof -
  have "policy sample_freelist = 0" "1 \<le> (5::nat)" by (simp_all add: sample_freelist_def)
  from nf_allocate_correct [OF sample_freelist_ok this] show ?thesis by auto
qed

end
