(* ===== verification/Freelist_Merge.thy ===== *)
theory Freelist_Merge
  imports Freelist_Alloc
begin

text \<open>
  Merging a swept block into the free list: the block is joined with a fragment
  before it, with the next free block and with the previous one where they are
  adjacent and the result is not too large. The lemmas follow the three stages of
  \<^verbatim>\<open>caml_fl_merge_block_r\<close> over a chain with one block not yet linked.
\<close>

text \<open>A dead block between two parts of the chain, not yet linked.\<close>

definition pending :: "freelist \<Rightarrow> header_t \<Rightarrow> (ptr \<times> nat) list \<Rightarrow> ptr \<Rightarrow> (ptr \<times> nat) list \<Rightarrow> bool" where
  "pending s hd1 xs b ys \<longleftrightarrow>
     fl_list (fl_mem s) (Fl_head s) (xs @ ys) \<and> spaced (Fl_head s) (xs @ (b, unat (Wosize_hd hd1)) # ys) \<and>
     nonempty (xs @ ys) \<and> Wosize_bp (fl_mem s) (Fl_head s) = 0 \<and>
     caml_fl_cur_size s = of_nat (fl_total (xs @ (b, unat (Wosize_hd hd1)) # ys)) \<and>
     caml_fl_merge s = fl_end (Fl_head s) xs \<and>
     (policy s = Policy_next_fit \<longrightarrow> fl_prev s \<in> set (Fl_head s # map fst (xs @ ys)))"

lemma words_addr:
  assumes "nonempty xs" and "b \<in> fst ` set xs" and "1 < b"
  shows "b \<in> fl_words xs" and "b - 1 \<in> fl_words xs"
proof -
  obtain n where n: "(b, n) \<in> set xs" using assms(2) by auto
  then have "1 \<le> n" using assms(1) by (auto simp: nonempty_def)
  then have "b \<in> {b - 1..<b + n}" "b - 1 \<in> {b - 1..<b + n}" using assms(3) by auto
  then show "b \<in> fl_words xs" "b - 1 \<in> fl_words xs" using n unfolding fl_words_def by blast+
qed

lemma spaced_gap:
  assumes "spaced h (xs @ (b, n) # ys)"
  shows "spaced h (xs @ ys)" and "1 < b" and "b + n < 2 ^ 61" and "h \<notin> {b - 1..<b + n}" and "h - 1 \<notin> {b - 1..<b + n}"
  using assms spaced_head [OF assms] by (auto simp: spaced_append spaced_Cons)

lemma gap_end:
  assumes sp: "spaced h (xs @ (b, n) # ys)" and ne: "nonempty (xs @ ys)"
  shows "fl_end h xs \<notin> {b - 1..<b + n}" and "fl_end h xs \<noteq> h - 1"
proof -
  have "fl_end h xs \<notin> {b - 1..<b + n} \<and> fl_end h xs \<noteq> h - 1"
  proof (cases "fl_end h xs = h")
    case True
    then show ?thesis using spaced_gap(4) [OF sp] spaced_head [OF sp] by auto
  next
    case False
    then have "fl_end h xs \<in> fst ` set (xs @ ys)" using fl_end_in [of h xs] by auto
    then have "fl_end h xs \<noteq> h - 1" using spaced_header(3) [OF spaced_gap(1) [OF sp] ne] by metis
    moreover have "fl_end h xs \<in> fl_words (xs @ ys)" using False fl_end_words [of xs h] ne by auto
    ultimately show ?thesis using spaced_words [OF sp] by blast
  qed
  then show "fl_end h xs \<notin> {b - 1..<b + n}" "fl_end h xs \<noteq> h - 1" by blast+
qed

text \<open>Writing into the dead block leaves the chain alone.\<close>

lemma fl_list_frame:
  assumes "fl_list m h (xs @ ys)" and sp: "spaced h (xs @ (b, n) # ys)" and ne: "nonempty (xs @ ys)"
    and "\<And>a. a \<notin> {b - 1..<b + n} \<Longrightarrow> m' a = m a"
  shows "fl_list m' h (xs @ ys)"
proof -
  have s: "fl_list m (fl_end h xs) ys" "seg m h xs" using assms(1) by (auto simp: fl_list_append)
  have out: "a \<notin> {b - 1..<b + n}" if "a \<in> set (h # map fst (xs @ ys)) \<or> a + 1 \<in> fst ` set (xs @ ys)" for a
  proof (cases "a = h")
    case True
    then show ?thesis using spaced_gap(4) [OF sp] by simp
  next
    case False
    then have "a \<in> fl_words (xs @ ys)"
      using that words_addr [OF ne, of a] words_addr [OF ne, of "a + 1"] spaced_gt1 [OF spaced_gap(1) [OF sp], of a]
        spaced_gt1 [OF spaced_gap(1) [OF sp], of "a + 1"] by auto
    then show ?thesis using spaced_words [OF sp] by blast
  qed
  have "fl_end h xs \<in> set (h # map fst (xs @ ys))" using fl_end_in [of h xs] by auto
  then have "m' (fl_end h xs) = m (fl_end h xs)" using out assms(4) by blast
  then show ?thesis
    using out assms(4) by (intro fl_list_relink [OF s(2,1) spaced_gap(1) [OF sp] ne]) (auto simp: Next_bp_def)
qed

lemma truncate_flp_other [simp]:
  "fl_mem (truncate_flp p s) = fl_mem s" "Fl_head (truncate_flp p s) = Fl_head s"
  "policy (truncate_flp p s) = policy s" "fl_prev (truncate_flp p s) = fl_prev s"
  "last_fragment (truncate_flp p s) = last_fragment s"
  "caml_fl_merge (truncate_flp p s) = caml_fl_merge s" "caml_fl_cur_size (truncate_flp p s) = caml_fl_cur_size s"
  by (simp_all add: truncate_flp_def)

lemma merge_fragment_pending:
  assumes p: "pending s hd1 xs b ys" and hd1: "hd1 = fl_mem s (b - 1)"
    and fr: "last_fragment s = b - 1 \<Longrightarrow> spaced (Fl_head s) (xs @ (b - 1, unat (Wosize_hd hd1) + 1) # ys)"
    and e: "merge_fragment hd1 b s = (hd2, b', s')"
  defines "joined \<equiv> last_fragment s = b - 1 \<and> unat (Wosize_hd hd1) + 1 \<le> unat Max_wosize"
  shows "pending s' hd2 xs b' ys" and "Fl_head s' = Fl_head s" and "policy s' = policy s"
    and "last_fragment s' = last_fragment s" and "\<And>a. a \<noteq> b' - 1 \<Longrightarrow> fl_mem s' a = fl_mem s a"
    and "b' = (if joined then b - 1 else b)"
    and "unat (Wosize_hd hd2) = (if joined then unat (Wosize_hd hd1) + 1 else unat (Wosize_hd hd1))"
    and "fl_mem s' (b' - 1) = hd2" and "\<not> joined \<Longrightarrow> s' = s"
proof -
  let ?n = "unat (Wosize_hd hd1)"
  have w: "Wosize_bp (fl_mem s) b = ?n" by (simp add: Wosize_bp_def hd1)
  have *: "pending s' hd2 xs b' ys \<and> Fl_head s' = Fl_head s \<and> policy s' = policy s \<and> last_fragment s' = last_fragment s \<and>
     (\<forall>a. a \<noteq> b' - 1 \<longrightarrow> fl_mem s' a = fl_mem s a) \<and> b' = (if joined then b - 1 else b) \<and>
     unat (Wosize_hd hd2) = (if joined then ?n + 1 else ?n) \<and> fl_mem s' (b' - 1) = hd2 \<and> (\<not> joined \<longrightarrow> s' = s)"
  proof (cases joined)
    case False
    then have "hd2 = hd1" "b' = b" "s' = s"
      using e unfolding joined_def merge_fragment_def Let_def w by (auto split: if_splits)
    then show ?thesis using False p hd1 by simp
  next
    case True
    then have n: "?n + 1 \<le> unat Max_wosize" and lf: "last_fragment s = b - 1" by (auto simp: joined_def)
    let ?hd2 = "Make_header (of_nat (?n + 1)) 0 Caml_white"
    have r: "hd2 = ?hd2" "b' = b - 1" "s' = s\<lparr>fl_mem := (fl_mem s)(b - 1 - 1 := ?hd2), caml_fl_cur_size := caml_fl_cur_size s + 1\<rparr>"
      using e n lf unfolding merge_fragment_def Let_def w set_Hd_def by (auto simp: lf)
    have sz: "unat (Wosize_hd hd2) = ?n + 1" using Make_header_nat(1) [OF n] r(1) by simp
    have sp: "spaced (Fl_head s) (xs @ (b - 1, ?n + 1) # ys)" by (rule fr [OF lf])
    have l: "fl_list (fl_mem s') (Fl_head s) (xs @ ys)"
      by (rule fl_list_frame [OF _ sp, of "fl_mem s"]) (use p spaced_gap(2) [OF sp] in \<open>auto simp: r pending_def\<close>)
    have "Fl_head s - 1 \<noteq> b - 1 - 1" using spaced_gap(2,5) [OF sp] by auto
    then have "Wosize_bp (fl_mem s') (Fl_head s) = 0" using p by (simp add: Wosize_bp_def r pending_def)
    then have "pending s' hd2 xs b' ys" using l p sp sz by (simp add: pending_def r)
    then show ?thesis using True sz by (simp add: r)
  qed
  then show "pending s' hd2 xs b' ys" "Fl_head s' = Fl_head s" "policy s' = policy s" "last_fragment s' = last_fragment s"
    "\<And>a. a \<noteq> b' - 1 \<Longrightarrow> fl_mem s' a = fl_mem s a" "b' = (if joined then b - 1 else b)"
    "unat (Wosize_hd hd2) = (if joined then unat (Wosize_hd hd1) + 1 else unat (Wosize_hd hd1))"
    "fl_mem s' (b' - 1) = hd2" "\<not> joined \<Longrightarrow> s' = s" by blast+
qed

lemma merge_next_pending:
  assumes p: "pending s hd1 xs b ys" and cur: "cur = Next_bp (fl_mem s) (fl_end (Fl_head s) xs)"
    and e: "merge_next (fl_end (Fl_head s) xs) cur hd1 b s = (hd2, cur', s')" and hd1: "fl_mem s (b - 1) = hd1"
  obtains ys' where "pending s' hd2 xs b ys'" and "cur' = Next_bp (fl_mem s') (fl_end (Fl_head s) xs)"
    and "ys' = ys \<and> hd2 = hd1 \<and> s' = s \<or> (\<exists>c k. ys = (c, k) # ys' \<and> c = b + unat (Wosize_hd hd1) + 1 \<and> c + k = b + unat (Wosize_hd hd2))"
    and "Fl_head s' = Fl_head s" and "policy s' = policy s" and "last_fragment s' = last_fragment s"
    and "\<And>a. a \<noteq> fl_end (Fl_head s) xs \<Longrightarrow> a \<noteq> b - 1 \<Longrightarrow> fl_mem s' a = fl_mem s a" and "fl_mem s' (b - 1) = hd2"
proof -
  let ?h = "Fl_head s" and ?m = "fl_mem s" and ?n = "unat (Wosize_hd hd1)"
  let ?p = "fl_end ?h xs"
  have l: "fl_list ?m ?h (xs @ ys)" and sp: "spaced ?h (xs @ (b, ?n) # ys)" and ne: "nonempty (xs @ ys)"
    using p by (auto simp: pending_def)
  show ?thesis
  proof (cases "b + ?n = cur - 1 \<and> ?n + (Wosize_bp ?m cur + 1) \<le> unat Max_wosize")
    case False
    then have "hd2 = hd1" "cur' = cur" "s' = s" using e by (auto simp: merge_next_def Let_def split: if_splits)
    then show ?thesis using that [of ys] p cur hd1 by simp
  next
    case True
    have "cur \<noteq> 0" using True spaced_gap(2) [OF sp] by auto
    then obtain k ys' where ys: "ys = (cur, k) # ys'" using l cur by (cases ys) (auto simp: fl_list_def)
    have k: "Wosize_bp ?m cur = k" and ly: "fl_list ?m cur ys'" and sx: "seg ?m ?h xs"
      using l by (auto simp: fl_list_def ys)
    let ?N = "?n + (k + 1)"
    let ?hd2 = "Make_header (of_nat ?N) 0 Caml_blue"
    define m1 where "m1 = ?m(?p := val_of_ptr (Next_bp ?m cur))"
    define m2 where "m2 = m1(b - 1 := ?hd2)"
    have r: "hd2 = ?hd2" "cur' = Next_bp ?m cur" "s' = s\<lparr>fl_mem := m2,
        fl_prev := (if policy s = Policy_next_fit \<and> fl_prev s = cur then ?p else fl_prev s)\<rparr>"
      using e True by (auto simp: merge_next_def Let_def k m2_def m1_def set_Next_def set_Hd_def)
    have N: "?N \<le> unat Max_wosize" using True k by simp
    have sz: "unat (Wosize_hd hd2) = ?N" using Make_header_nat(1) [OF N] r(1) by simp
    have b: "1 < b" by (rule spaced_gap(2) [OF sp])
    have fin: "b + ?N = cur + k" using True b by auto
    have sp2: "spaced ?h (xs @ (b, ?N) # ys')"
      using sp True fin by (auto simp: ys spaced_append spaced_Cons)
    have d: "spaced ?h (xs @ ys)" by (rule spaced_gap(1) [OF sp])
    have sp3: "spaced ?h (xs @ ys')" by (rule spaced_gap(1) [OF sp2])
    have spy: "spaced ?h ys'" using sp3 by (simp add: spaced_append)
    have nx: "Next_bp ?m cur < 2 ^ 61" by (rule Next_range [OF spy ly])
    have "fl_list m1 ?h (xs @ ys')"
      by (rule fl_list_relink [OF sx ly sp3]) (use ne nx in \<open>auto simp: ys m1_def\<close>)
    then have l2: "fl_list m2 ?h (xs @ ys')"
      by (rule fl_list_frame [OF _ sp2]) (use ne b in \<open>auto simp: ys m2_def\<close>)
    have pb: "?p \<noteq> b - 1" using gap_end(1) [OF sp2] ne b by (auto simp: ys)
    have "?h - 1 \<noteq> ?p" "?h - 1 \<noteq> b - 1"
      using gap_end(2) [OF sp2] spaced_gap(5) [OF sp2] ne b by (auto simp: ys)
    then have h: "Wosize_bp m2 ?h = 0" using p by (simp add: m2_def m1_def Wosize_bp_def pending_def)
    have pin: "?p \<in> set (?h # map fst (xs @ ys'))" using fl_end_in [of ?h xs] by auto
    have "pending s' hd2 xs b ys'"
      using p l2 sp2 h sz pin by (auto simp: pending_def r(3) ys)
    moreover have "cur' = Next_bp (fl_mem s') ?p" using nx pb by (simp add: r m2_def m1_def Next_bp_def)
    moreover have "fl_mem s' a = ?m a" if "a \<noteq> ?p" "a \<noteq> b - 1" for a using that by (simp add: r m2_def m1_def)
    moreover have "fl_mem s' (b - 1) = hd2" by (simp add: r m2_def)
    moreover have "cur = b + ?n + 1" using True b by auto
    ultimately show ?thesis using that [of ys'] fin sz by (simp add: r ys)
  qed
qed

text \<open>
  Linking either extends the part of the chain before the sweep by exactly the
  words of the dead block, or leaves a lone header as the new fragment.
\<close>

definition linked :: "freelist \<Rightarrow> freelist \<Rightarrow> (ptr \<times> nat) list \<Rightarrow> ptr \<Rightarrow> nat \<Rightarrow> (ptr \<times> nat) list \<Rightarrow> (ptr \<times> nat) list \<Rightarrow> bool" where
  "linked s s' xs b n ys as \<longleftrightarrow>
     fl_ok s' (as @ ys) \<and> caml_fl_merge s' = fl_end (Fl_head s) as \<and> Fl_head s' = Fl_head s \<and> policy s' = policy s \<and>
     (last_fragment s' = last_fragment s \<and> fl_words as = fl_words xs \<union> {b - 1..<b + n} \<and>
        (\<exists>as' c k. as = as' @ [(c, k)] \<and> c + k = b + n) \<or>
      last_fragment s' = b \<and> n = 0 \<and> as = xs \<and> fl_mem s' = fl_mem s) \<and>
     (\<forall>a. a \<notin> fl_words xs \<longrightarrow> a \<noteq> Fl_head s \<longrightarrow> a \<notin> {b - 1..<b + n} \<longrightarrow> fl_mem s' a = fl_mem s a)"

lemma link_join:
  assumes p: "pending s hd1 xs b ys"
    and adj: "fl_end (Fl_head s) xs + Wosize_bp (fl_mem s) (fl_end (Fl_head s) xs) = b - 1"
    and small: "Wosize_bp (fl_mem s) (fl_end (Fl_head s) xs) + (unat (Wosize_hd hd1) + 1) < unat Max_wosize"
  shows "\<exists>as. linked s (link_block (fl_end (Fl_head s) xs) cur hd1 b s) xs b (unat (Wosize_hd hd1)) ys as"
proof -
  let ?h = "Fl_head s" and ?m = "fl_mem s" and ?n = "unat (Wosize_hd hd1)"
  let ?p = "fl_end ?h xs"
  let ?k = "Wosize_bp ?m ?p"
  have l: "fl_list ?m ?h (xs @ ys)" and sp: "spaced ?h (xs @ (b, ?n) # ys)" and ne: "nonempty (xs @ ys)"
    using p by (auto simp: pending_def)
  have b: "1 < b" by (rule spaced_gap(2) [OF sp])
  have "?p \<noteq> ?h" using adj p spaced_gap(4) [OF sp] b by (auto simp: pending_def)
  then obtain xs' q k where xs: "xs = xs' @ [(q, k)]" by (cases xs rule: rev_cases) auto
  have q: "?p = q" by (simp add: xs)
  have k: "Wosize_bp ?m q = k" using l by (auto simp: xs fl_list_def)
  let ?N = "k + (?n + 1)"
  define m' where "m' = ?m(q - 1 := Make_header (of_nat ?N) 0 Caml_blue)"
  define as where "as = xs' @ [(q, ?N)]"
  have s': "link_block ?p cur hd1 b s = s\<lparr>fl_mem := m'\<rparr>"
    using adj small by (simp add: link_block_def Let_def set_Hd_def m'_def q k)
  have N: "?N \<le> unat Max_wosize" using small q k by simp
  have fin: "q + ?N = b + ?n" using adj q k b by simp
  have spd: "spaced ?h (xs' @ (q, k) # ys)" using spaced_gap(1) [OF sp] by (simp add: xs)
  have ned: "nonempty (xs' @ (q, k) # ys)" using ne by (simp add: xs)
  have ld: "fl_list ?m ?h (xs' @ (q, k) # ys)" using l by (simp add: xs)
  have q1: "1 < q" using spd by (auto simp: spaced_append spaced_Cons)
  have "fl_list m' ?h (xs' @ (q, ?N) # ys)"
    by (rule fl_list_resize [OF ld spd ned]) (use Make_header_nat [OF N] in \<open>auto simp: m'_def Wosize_bp_def\<close>)
  then have 1: "fl_list m' ?h (as @ ys)" by (simp add: as_def)
  have 2: "spaced ?h (as @ ys)" using sp fin by (auto simp: as_def xs spaced_append spaced_Cons)
  have 3: "nonempty (as @ ys)" using ned by (simp add: as_def)
  have "?h - 1 \<noteq> q - 1" using spaced_header(2) [OF spd ned, of q] by auto
  then have 4: "Wosize_bp m' ?h = 0" using p by (simp add: m'_def Wosize_bp_def pending_def)
  have tot: "fl_total (as @ ys) = fl_total (xs @ (b, ?n) # ys)" by (simp add: as_def xs)
  have dom: "map fst (as @ ys) = map fst (xs @ ys)" by (simp add: as_def xs)
  have fe: "fl_end ?h as = ?p" by (simp add: as_def xs)
  have "?p \<in> set (?h # map fst (xs @ ys))" by (simp add: xs)
  then have ok: "fl_ok (s\<lparr>fl_mem := m'\<rparr>) (as @ ys)"
    using 1 2 3 4 p tot unfolding fl_ok_def pending_def dom by simp
  have "{q - 1..<q + ?N} = {q - 1..<q + k} \<union> {b - 1..<b + ?n}" using adj q k fin b q1 by auto
  then have w: "fl_words as = fl_words xs \<union> {b - 1..<b + ?n}" by (auto simp: as_def xs)
  have fr: "m' a = ?m a" if "a \<notin> fl_words xs" for a
    using that ned by (auto simp: m'_def xs)
  have "linked s (s\<lparr>fl_mem := m'\<rparr>) xs b ?n ys as"
    unfolding linked_def using ok w fin fr p fe by (auto simp: as_def pending_def)
  then show ?thesis unfolding s' by blast
qed

lemma link_insert:
  assumes p: "pending s hd1 xs b ys" and cur: "cur = Next_bp (fl_mem s) (fl_end (Fl_head s) xs)"
    and n: "unat (Wosize_hd hd1) \<noteq> 0"
  defines "s' \<equiv> (set_Next (fl_end (Fl_head s) xs) b (set_Next b cur (set_Hd b (Bluehd_hd hd1) s)))\<lparr>caml_fl_merge := b\<rparr>"
  shows "linked s s' xs b (unat (Wosize_hd hd1)) ys (xs @ [(b, unat (Wosize_hd hd1))])"
proof -
  let ?h = "Fl_head s" and ?m = "fl_mem s" and ?n = "unat (Wosize_hd hd1)"
  let ?p = "fl_end ?h xs"
  have l: "fl_list ?m ?p ys" "seg ?m ?h xs" and sp: "spaced ?h (xs @ (b, ?n) # ys)" and ne: "nonempty (xs @ ys)"
    using p by (auto simp: pending_def fl_list_append)
  have ned: "nonempty (xs @ (b, ?n) # ys)" using ne n by simp
  have b: "1 < b" "b < 2 ^ 61" using spaced_gap(2,3) [OF sp] by auto
  have pb: "?p \<noteq> b" "?p \<noteq> b - 1" "?p \<noteq> ?h - 1" using gap_end [OF sp ne] n b by auto
  have hb: "?h - 1 \<noteq> b - 1" "?h - 1 \<noteq> b" using spaced_gap(5) [OF sp] n b by auto
  define m' where "m' = ?m(b - 1 := Bluehd_hd hd1, b := val_of_ptr cur, ?p := val_of_ptr b)"
  have s': "s' = s\<lparr>fl_mem := m', caml_fl_merge := b\<rparr>"
    by (simp add: s'_def set_Next_def set_Hd_def m'_def)
  have "spaced ?h ys" using spaced_gap(1) [OF sp] by (simp add: spaced_append)
  from Next_range [OF this l(1)] have c: "cur < 2 ^ 61" by (simp add: cur)
  have "fl_list m' ?h (xs @ (b, ?n) # ys)"
    by (rule fl_list_insert [OF l(2,1) sp ned])
      (use pb b c in \<open>auto simp: m'_def Next_bp_def Wosize_bp_def recolour_size recolour_colour cur\<close>)
  moreover have "Wosize_bp m' ?h = 0" using p hb pb by (auto simp: m'_def Wosize_bp_def pending_def)
  ultimately have ok: "fl_ok s' (xs @ (b, ?n) # ys)"
    using p sp ned by (auto simp: fl_ok_def pending_def s')
  have "m' a = ?m a" if "a \<notin> fl_words xs" "a \<noteq> ?h" "a \<notin> {b - 1..<b + ?n}" for a
  proof -
    have "a \<noteq> b" "a \<noteq> b - 1" using that(3) n b by auto
    moreover have "a \<noteq> ?p" using that fl_end_words [of xs ?h] ne by auto
    ultimately show ?thesis by (simp add: m'_def)
  qed
  then show ?thesis unfolding linked_def using ok by (auto simp: s')
qed

lemma link_fragment:
  assumes p: "pending s hd1 xs b ys" and n: "unat (Wosize_hd hd1) = 0"
  shows "linked s (s\<lparr>last_fragment := b, caml_fl_cur_size := caml_fl_cur_size s - 1\<rparr>) xs b (unat (Wosize_hd hd1)) ys xs"
  using p n spaced_gap(1) [of "Fl_head s" xs b 0 ys] fl_end_in [of "Fl_head s" xs]
  by (auto simp: linked_def fl_ok_def pending_def)

lemma link_block_linked:
  assumes p: "pending s hd1 xs b ys" and cur: "cur = Next_bp (fl_mem s) (fl_end (Fl_head s) xs)"
  shows "\<exists>as. linked s (link_block (fl_end (Fl_head s) xs) cur hd1 b s) xs b (unat (Wosize_hd hd1)) ys as"
proof (cases "fl_end (Fl_head s) xs + Wosize_bp (fl_mem s) (fl_end (Fl_head s) xs) = b - 1 \<and>
    Wosize_bp (fl_mem s) (fl_end (Fl_head s) xs) + (unat (Wosize_hd hd1) + 1) < unat Max_wosize")
  case True
  then show ?thesis using link_join [OF p] by blast
next
  case False
  show ?thesis
  proof (cases "unat (Wosize_hd hd1) = 0")
    case True
    then show ?thesis using False link_fragment [OF p True] by (auto simp: link_block_def Let_def)
  next
    case n: False
    have "link_block (fl_end (Fl_head s) xs) cur hd1 b s =
        (set_Next (fl_end (Fl_head s) xs) b (set_Next b cur (set_Hd b (Bluehd_hd hd1) s)))\<lparr>caml_fl_merge := b\<rparr>"
      using False n by (auto simp: link_block_def Let_def)
    then show ?thesis using link_insert [OF p cur n] by auto
  qed
qed

section \<open>Merging a swept block\<close>

text \<open>
  The words that become free: those of the block, and the fragment just before
  it when there is one.
\<close>

definition freed_words :: "freelist \<Rightarrow> ptr \<Rightarrow> nat \<Rightarrow> ptr set" where
  "freed_words s b n = (if last_fragment s = b - 1 \<and> n + 1 \<le> unat Max_wosize then {b - 2..<b + n} else {b - 1..<b + n})"

definition merged :: "freelist \<Rightarrow> freelist \<Rightarrow> (ptr \<times> nat) list \<Rightarrow> ptr \<Rightarrow> nat \<Rightarrow> (ptr \<times> nat) list
    \<Rightarrow> ptr \<Rightarrow> (ptr \<times> nat) list \<Rightarrow> (ptr \<times> nat) list \<Rightarrow> bool" where
  "merged s s' xs b n ys adj as ys' \<longleftrightarrow>
     fl_ok s' (as @ ys') \<and> caml_fl_merge s' = fl_end (Fl_head s) as \<and> Fl_head s' = Fl_head s \<and> policy s' = policy s \<and>
     (ys' = ys \<and> adj = b + n \<or> (\<exists>k. ys = (b + n + 1, k) # ys' \<and> adj = b + n + 1 + k)) \<and>
     (last_fragment s' = last_fragment s \<and> fl_words (as @ ys') = fl_words (xs @ ys) \<union> freed_words s b n \<and>
        (\<exists>as' c k. as = as' @ [(c, k)] \<and> c + k = adj) \<or>
      last_fragment s' = b \<and> n = 0 \<and> as = xs \<and> ys' = ys \<and> fl_mem s' = fl_mem s) \<and>
     (\<forall>a. a \<notin> fl_words xs \<longrightarrow> a \<notin> fl_words as \<longrightarrow> a \<noteq> Fl_head s \<longrightarrow> a \<notin> freed_words s b n \<longrightarrow> fl_mem s' a = fl_mem s a)"

lemma merge_block_merged:
  assumes ok: "fl_ok s (xs @ ys)" and mg: "caml_fl_merge s = fl_end (Fl_head s) xs"
    and sp: "spaced (Fl_head s) (xs @ (b, Wosize_bp (fl_mem s) b) # ys)"
    and fr: "last_fragment s = b - 1 \<Longrightarrow> spaced (Fl_head s) (xs @ (b - 1, Wosize_bp (fl_mem s) b + 1) # ys)"
  obtains adj s' as ys' where "caml_fl_merge_block b s = (adj, s')" and "merged s s' xs b (Wosize_bp (fl_mem s) b) ys adj as ys'"
proof -
  let ?n = "Wosize_bp (fl_mem s) b" and ?h = "Fl_head s" and ?hd0 = "fl_mem s (b - 1)"
  let ?p = "fl_end ?h xs"
  have n: "unat (Wosize_hd ?hd0) = ?n" by (simp add: Wosize_bp_def)
  define s1 where "s1 = s\<lparr>caml_fl_cur_size := caml_fl_cur_size s + of_nat (?n + 1)\<rparr>"
  define s2 where "s2 = (if policy s1 = Policy_first_fit then truncate_flp ?p s1 else s1)"
  have s2: "fl_mem s2 = fl_mem s" "Fl_head s2 = ?h" "policy s2 = policy s" "last_fragment s2 = last_fragment s"
    "caml_fl_merge s2 = ?p" "fl_prev s2 = fl_prev s" "caml_fl_cur_size s2 = caml_fl_cur_size s + of_nat (?n + 1)"
    by (simp_all add: s2_def s1_def mg)
  have p2: "pending s2 ?hd0 xs b ys"
    using ok sp unfolding pending_def fl_ok_def s2 n by simp
  obtain hd1 b1 s3 where e3: "merge_fragment ?hd0 b s2 = (hd1, b1, s3)" by (metis prod_cases3)
  have fr2: "spaced (Fl_head s2) (xs @ (b - 1, unat (Wosize_hd ?hd0) + 1) # ys)" if "last_fragment s2 = b - 1"
    using fr that unfolding s2 n by blast
  define joined where "joined \<longleftrightarrow> last_fragment s = b - 1 \<and> ?n + 1 \<le> unat Max_wosize"
  have f3: "pending s3 hd1 xs b1 ys" "Fl_head s3 = ?h" "policy s3 = policy s" "last_fragment s3 = last_fragment s"
     "\<And>a. a \<noteq> b1 - 1 \<Longrightarrow> fl_mem s3 a = fl_mem s a" "b1 = (if joined then b - 1 else b)"
     "unat (Wosize_hd hd1) = (if joined then ?n + 1 else ?n)" "fl_mem s3 (b1 - 1) = hd1"
     "\<not> joined \<Longrightarrow> s3 = s2"
    using merge_fragment_pending [OF p2 _ fr2 e3] unfolding s2 n joined_def by blast+
  let ?n1 = "unat (Wosize_hd hd1)"
  have b1: "1 < b1" using spaced_gap(2) f3(1) unfolding pending_def by blast
  have F: "freed_words s b ?n = {b1 - 1..<b1 + ?n1}" "b1 + ?n1 = b + ?n"
    using f3(6,7) b1 by (auto simp: freed_words_def joined_def)
  have p0: "?p \<noteq> b1 - 1"
    using gap_end(1) [of ?h xs b1 ?n1 ys] f3(1,2) b1 by (auto simp: pending_def)
  obtain hd2 cur' s4 where e4: "merge_next ?p (Next_bp (fl_mem s) ?p) hd1 b1 s3 = (hd2, cur', s4)" by (metis prod_cases3)
  have c: "Next_bp (fl_mem s) ?p = Next_bp (fl_mem s3) (fl_end (Fl_head s3) xs)" using p0 f3(2,5) by (simp add: Next_bp_def)
  note e5 = e4 [folded f3(2)]
  obtain ys' where f4: "pending s4 hd2 xs b1 ys'" "cur' = Next_bp (fl_mem s4) ?p"
     "ys' = ys \<and> hd2 = hd1 \<and> s4 = s3 \<or> (\<exists>c k. ys = (c, k) # ys' \<and> c = b1 + ?n1 + 1 \<and> c + k = b1 + unat (Wosize_hd hd2))"
     "Fl_head s4 = ?h" "policy s4 = policy s" "last_fragment s4 = last_fragment s"
     "\<And>a. a \<noteq> ?p \<Longrightarrow> a \<noteq> b1 - 1 \<Longrightarrow> fl_mem s4 a = fl_mem s3 a" "fl_mem s4 (b1 - 1) = hd2"
    using merge_next_pending [OF f3(1) _ e5 f3(8)] c unfolding f3(2,3,4) by blast
  let ?n2 = "unat (Wosize_hd hd2)" and ?s' = "link_block ?p cur' hd2 b1 s4"
  obtain as where L: "linked s4 ?s' xs b1 ?n2 ys' as" using link_block_linked [OF f4(1), of cur'] f4(2,4) by auto
  have e: "caml_fl_merge_block b s = (b1 + ?n2, ?s')"
  proof -
    have "caml_fl_merge s1 = ?p" "fl_mem s1 = fl_mem s" by (simp_all add: s1_def mg)
    then show ?thesis unfolding caml_fl_merge_block_def Let_def n s1_def [symmetric]
      by (simp only: s2_def [symmetric] e3 e4 prod.case)
  qed
  have adj: "ys' = ys \<and> b1 + ?n2 = b + ?n \<or> (\<exists>k. ys = (b + ?n + 1, k) # ys' \<and> b1 + ?n2 = b + ?n + 1 + k)"
    using f4(3) F(2) by auto
  have W: "{b1 - 1..<b1 + ?n2} \<union> fl_words ys' = {b1 - 1..<b1 + ?n1} \<union> fl_words ys" using f4(3) by auto
  have fr: "fl_mem ?s' a = fl_mem s a" if a: "a \<notin> fl_words xs" "a \<notin> fl_words as" "a \<noteq> ?h" "a \<notin> {b1 - 1..<b1 + ?n1}" for a
  proof -
    have "a \<noteq> b1 - 1" using a(4) b1 by auto
    moreover have "a \<noteq> ?p" using a(1,3) fl_end_words [of xs ?h] f3(1) by (auto simp: pending_def)
    ultimately have "fl_mem s4 a = fl_mem s a" using f4(7) f3(5) by metis
    moreover have "a \<notin> {b1 - 1..<b1 + ?n2}"
      using L a(2) \<open>a \<noteq> b1 - 1\<close> b1 unfolding linked_def by auto
    ultimately show ?thesis using L a(1,3) f4(4) unfolding linked_def by metis
  qed
  have fragment: "last_fragment ?s' = b \<and> ?n = 0 \<and> as = xs \<and> ys' = ys \<and> fl_mem ?s' = fl_mem s"
    if B: "last_fragment ?s' = b1 \<and> ?n2 = 0 \<and> as = xs \<and> fl_mem ?s' = fl_mem s4"
  proof -
    have "ys' = ys" "hd2 = hd1" "s4 = s3" using f4(3) B by auto
    moreover have "\<not> joined" using B \<open>hd2 = hd1\<close> f3(7) by auto
    ultimately show ?thesis using B f3(6,7,9) s2(1) by simp
  qed
  have words: "fl_words (as @ ys') = fl_words (xs @ ys) \<union> {b1 - 1..<b1 + ?n1}"
    if "fl_words as = fl_words xs \<union> {b1 - 1..<b1 + ?n2}" using that W by auto
  note L' = L [unfolded linked_def f4(4,5,6)]
  have "merged s ?s' xs b ?n ys (b1 + ?n2) as ys'"
    unfolding merged_def F(1)
  proof (intro conjI)
    show "last_fragment ?s' = last_fragment s \<and> fl_words (as @ ys') = fl_words (xs @ ys) \<union> {b1 - 1..<b1 + ?n1} \<and>
        (\<exists>as' c k. as = as' @ [(c, k)] \<and> c + k = b1 + ?n2) \<or>
      last_fragment ?s' = b \<and> ?n = 0 \<and> as = xs \<and> ys' = ys \<and> fl_mem ?s' = fl_mem s"
      using L' words fragment by blast
  qed (use L' adj fr in blast)+
  then show ?thesis using e that by blast
qed

text \<open>
  C40: \<^verbatim>\<open>caml_fl_merge_block_r\<close>, called on a block that lies between
  \<^verbatim>\<open>caml_fl_merge\<close> and the next free block, keeps the list sorted, disjoint and
  correctly counted. The free words grow by exactly the words of the block and of
  a fragment just before it, or, for a lone header that cannot be joined, nothing
  but the remembered fragment changes. The returned address is the end of the
  block or of the free block it absorbed, \<^verbatim>\<open>caml_fl_merge\<close> is the last free block
  before it, and no other memory is written.
\<close>

theorem merge_block_correct:
  assumes "fl_ok s (xs @ ys)" and "caml_fl_merge s = fl_end (Fl_head s) xs"
    and "spaced (Fl_head s) (xs @ (b, Wosize_bp (fl_mem s) b) # ys)"
    and "last_fragment s = b - 1 \<Longrightarrow> spaced (Fl_head s) (xs @ (b - 1, Wosize_bp (fl_mem s) b + 1) # ys)"
  shows "\<exists>adj s' as ys'. caml_fl_merge_block b s = (adj, s') \<and> merged s s' xs b (Wosize_bp (fl_mem s) b) ys adj as ys'"
  using merge_block_merged [OF assms] by metis

definition sample_sweep :: freelist where
  "sample_sweep = sample_freelist\<lparr>fl_mem := sample_memory(23 := Make_header 15 0 Caml_white), caml_fl_merge := 20\<rparr>"

theorem merge_block_correct_witness:
  "\<exists>adj s' as ys'. caml_fl_merge_block 24 sample_sweep = (adj, s') \<and>
     merged sample_sweep s' [(20, 3)] 24 15 [(40, 6)] adj as ys'"
proof -
  have n: "Wosize_bp (fl_mem sample_sweep) 24 = 15"
  proof -
    have "unat (Wosize_hd (Make_header 15 0 Caml_white)) = 15" by code_simp
    then show ?thesis by (simp add: sample_sweep_def Wosize_bp_def)
  qed
  have "fl_ok sample_sweep ([(20, 3)] @ [(40, 6)])"
    using sample_freelist_ok by (simp add: fl_ok_def sample_sweep_def sample_freelist_def fl_list_def Next_bp_def Wosize_bp_def)
  moreover have "caml_fl_merge sample_sweep = fl_end (Fl_head sample_sweep) [(20, 3)]"
    by (simp add: sample_sweep_def)
  moreover have "spaced (Fl_head sample_sweep) ([(20, 3)] @ (24, Wosize_bp (fl_mem sample_sweep) 24) # [(40, 6)])"
    unfolding n by (simp add: spaced_def sample_sweep_def sample_freelist_def)
  moreover have "last_fragment sample_sweep \<noteq> 24 - 1" by (simp add: sample_sweep_def sample_freelist_def)
  ultimately show ?thesis using merge_block_correct [of sample_sweep "[(20, 3)]" "[(40, 6)]" 24] n by simp
qed

end
