(* ===== verification/Major_Gc.thy ===== *)
theory Major_Gc
  imports Freelist
begin

text \<open>
  The major collector (\<^verbatim>\<open>major_gc.c\<close>, with \<^verbatim>\<open>caml_final_update_r\<close> of
  \<^verbatim>\<open>finalise.c\<close>): darkening, the marking loop with its mark stack that may
  overflow, the weak and finalisation subphases, and the sweeping loop. The
  mark stack is a list with the top at its end. What the collector asks of the
  rest of the runtime is the record \<open>gc_env\<close>: the page classification, the
  roots, whether \<^verbatim>\<open>realloc\<close> succeeds, as a function of the size requested, and
  whether a custom block has a finaliser. Messages, assertions and the counts
  of allocated words, which are statistics, are left out.
\<close>

section \<open>State\<close>

datatype gc_phase = Phase_mark | Phase_sweep | Phase_idle
datatype gc_subphase = Subphase_main | Subphase_weak1 | Subphase_weak2 | Subphase_final

record final =
  final_fun :: mlvalue
  final_val :: mlvalue
  final_offset :: u32

record gc_env =
  Is_in_heap :: "mlvalue \<Rightarrow> bool"
  Is_in_value_area :: "mlvalue \<Rightarrow> bool"
  caml_weak_none :: mlvalue
  gc_roots :: "mlvalue list"
  realloc_succeeds :: "nat \<Rightarrow> bool"
  has_finalizer :: "mlvalue \<Rightarrow> bool"

record gc =
  heap :: freelist
  gray_vals :: "mlvalue list"
  gray_vals_size :: nat
  heap_is_pure :: bool
  markhp :: ptr
  mark_chunk :: ptr
  mark_limit :: ptr
  weak_prev :: ptr
  weak_list_head_addr :: ptr
  caml_gc_phase :: gc_phase
  caml_gc_subphase :: gc_subphase
  caml_heap_start :: ptr
  caml_stat_heap_size :: nat
  caml_stat_major_collections :: nat
  caml_fl_size_at_phase_change :: u64
  final_table :: "final list"
  to_do :: "final list list"
  finalized :: "mlvalue list"

abbreviation gmem :: "gc \<Rightarrow> memory" where
  "gmem s \<equiv> fl_mem (heap s)"

definition store :: "ptr \<Rightarrow> u64 \<Rightarrow> gc \<Rightarrow> gc" where
  "store a w s = s\<lparr>heap := (heap s)\<lparr>fl_mem := (gmem s)(a := w)\<rparr>\<rparr>"

definition Chunk_size :: "memory \<Rightarrow> ptr \<Rightarrow> nat" where
  "Chunk_size m c = unat (m (c - 2)) div 8"

definition Chunk_next :: "memory \<Rightarrow> ptr \<Rightarrow> ptr" where
  "Chunk_next m c = Op_val (m (c - 1))"

definition Infix_offset_val :: "memory \<Rightarrow> mlvalue \<Rightarrow> u64" where
  "Infix_offset_val m v = Bosize_hd (Hd_val m v)"

abbreviation Forward_val :: "memory \<Rightarrow> mlvalue \<Rightarrow> mlvalue" where
  "Forward_val m v \<equiv> Field m v 0"

definition Is_white_hd :: "header_t \<Rightarrow> bool" where "Is_white_hd h = (Color_hd h = Caml_white)"
definition Is_gray_hd :: "header_t \<Rightarrow> bool" where "Is_gray_hd h = (Color_hd h = Caml_gray)"

definition Is_white_val :: "memory \<Rightarrow> mlvalue \<Rightarrow> bool" where "Is_white_val m v = Is_white_hd (Hd_val m v)"

text \<open>A forward block is not bypassed when its value is itself special.\<close>

definition keep_forward :: "gc_env \<Rightarrow> memory \<Rightarrow> mlvalue \<Rightarrow> bool" where
  "keep_forward env m f = (\<not> Is_in_value_area env f \<or> Tag_val m f = 250 \<or> Tag_val m f = 246 \<or> Tag_val m f = 253)"

section \<open>The mark stack\<close>

definition realloc_gray_vals :: "gc_env \<Rightarrow> gc \<Rightarrow> gc" where
  "realloc_gray_vals env s =
     (if gray_vals_size s < caml_stat_heap_size s div 128
      then if realloc_succeeds env (2 * gray_vals_size s)
           then s\<lparr>gray_vals_size := 2 * gray_vals_size s\<rparr>
           else s\<lparr>gray_vals := [], heap_is_pure := False\<rparr>
      else s\<lparr>gray_vals := take (gray_vals_size s div 2) (gray_vals s), heap_is_pure := False\<rparr>)"

definition push_gray :: "gc_env \<Rightarrow> mlvalue \<Rightarrow> gc \<Rightarrow> gc" where
  "push_gray env v s =
     (let s1 = s\<lparr>gray_vals := gray_vals s @ [v]\<rparr>
      in if length (gray_vals s1) \<ge> gray_vals_size s1 then realloc_gray_vals env s1 else s1)"

definition caml_darken :: "gc_env \<Rightarrow> mlvalue \<Rightarrow> gc \<Rightarrow> gc" where
  "caml_darken env v0 s =
     (if Is_block v0 \<and> Is_in_heap env v0
      then let h0 = Hd_val (gmem s) v0;
               v = (if Tag_hd h0 = Infix_tag then v0 - Infix_offset_val (gmem s) v0 else v0);
               h = Hd_val (gmem s) v;
               t = Tag_hd h
           in if Is_white_hd h
              then if t < No_scan_tag
                   then push_gray env v (store (Op_val v - 1) (Grayhd_hd h) s)
                   else store (Op_val v - 1) (Blackhd_hd h) s
              else s
      else s)"

definition start_cycle :: "gc_env \<Rightarrow> gc \<Rightarrow> gc" where
  "start_cycle env s =
     (fold (caml_darken env) (gc_roots env) s)\<lparr>caml_gc_phase := Phase_mark, caml_gc_subphase := Subphase_main, markhp := NULL\<rparr>"

section \<open>Marking\<close>

definition mark_field :: "gc_env \<Rightarrow> mlvalue \<Rightarrow> nat \<Rightarrow> gc \<Rightarrow> gc" where
  "mark_field env v i s =
     (let child0 = Field (gmem s) v i
      in if Is_block child0 \<and> Is_in_heap env child0
         then let hd0 = Hd_val (gmem s) child0;
                  s1 = (if Tag_hd hd0 = Forward_tag
                        then let f = Forward_val (gmem s) child0
                             in if Is_block f \<and> keep_forward env (gmem s) f then s
                                else store (Op_val v + i) f s
                        else s);
                  child = (if Tag_hd hd0 \<noteq> Forward_tag \<and> Tag_hd hd0 = Infix_tag
                           then child0 - Infix_offset_val (gmem s) child0 else child0);
                  hd = (if Tag_hd hd0 \<noteq> Forward_tag \<and> Tag_hd hd0 = Infix_tag then Hd_val (gmem s) child else hd0)
              in if Is_white_hd hd
                 then push_gray env child (store (Op_val child - 1) (Grayhd_hd hd) s1)
                 else s1
         else s)"

definition mark_gray :: "gc_env \<Rightarrow> gc \<Rightarrow> int \<times> gc" where
  "mark_gray env s =
     (let v = last (gray_vals s);
          hd = Hd_val (gmem s) v;
          s1 = store (Op_val v - 1) (Blackhd_hd hd) (s\<lparr>gray_vals := butlast (gray_vals s)\<rparr>);
          size = unat (Wosize_hd hd)
      in (int size + 1,
          if Tag_hd hd < No_scan_tag then fold (mark_field env v) [0..<size] s1 else s1))"

definition mark_heap :: "gc \<Rightarrow> gc" where
  "mark_heap s =
     (if markhp s = mark_limit s
      then let c = Chunk_next (gmem s) (mark_chunk s)
           in if c = NULL then s\<lparr>mark_chunk := c, markhp := NULL\<rparr>
              else s\<lparr>mark_chunk := c, markhp := c, mark_limit := c + Chunk_size (gmem s) c\<rparr>
      else let hp = markhp s;
               s1 = (if Is_gray_hd (gmem s hp) then s\<lparr>gray_vals := gray_vals s @ [val_of_ptr (hp + 1)]\<rparr> else s)
           in s1\<lparr>markhp := hp + (Wosize_bp (gmem s) (hp + 1) + 1)\<rparr>)"

definition mark_restart :: "gc \<Rightarrow> gc" where
  "mark_restart s =
     s\<lparr>heap_is_pure := True, mark_chunk := caml_heap_start s, markhp := caml_heap_start s,
       mark_limit := caml_heap_start s + Chunk_size (gmem s) (caml_heap_start s)\<rparr>"

section \<open>Weak pointers and finalisation\<close>

definition weak_clean :: "gc_env \<Rightarrow> ptr \<Rightarrow> nat \<Rightarrow> gc \<Rightarrow> gc" where
  "weak_clean env cur i s =
     (let curfield = gmem s (cur + i)
      in if curfield \<noteq> caml_weak_none env \<and> Is_block curfield \<and> Is_in_heap env curfield \<and> Is_white_val (gmem s) curfield
         then store (cur + i) (caml_weak_none env) s else s)"

definition weak_field :: "gc_env \<Rightarrow> ptr \<Rightarrow> nat \<Rightarrow> gc \<Rightarrow> gc" where
  "weak_field env cur i s =
     (let curfield = gmem s (cur + i)
      in if curfield \<noteq> caml_weak_none env \<and> Is_block curfield \<and> Is_in_heap env curfield \<and>
            Tag_val (gmem s) curfield = 250 \<and> Is_block (Forward_val (gmem s) curfield) \<and>
            \<not> keep_forward env (gmem s) (Forward_val (gmem s) curfield)
         then weak_clean env cur i (store (cur + i) (Forward_val (gmem s) curfield) s)
         else weak_clean env cur i s)"

definition mark_weak1 :: "gc_env \<Rightarrow> ptr \<Rightarrow> gc \<Rightarrow> int \<times> gc" where
  "mark_weak1 env cur s =
     (let sz = Wosize_bp (gmem s) cur
      in (int sz + 1, (fold (weak_field env cur) [1..<sz] s)\<lparr>weak_prev := cur\<rparr>))"

datatype verdict = Keep final | Todo final

definition final_white :: "gc_env \<Rightarrow> memory \<Rightarrow> final \<Rightarrow> verdict" where
  "final_white env m x =
     (let v = final_val x
      in if \<not> Is_white_val m v then Keep x
         else if Tag_val m v = 250
         then let fv = Forward_val m v
              in if Is_block fv \<and> keep_forward env m fv then Todo x
                 else let y = x\<lparr>final_val := fv\<rparr>
                      in if Is_block fv \<and> Is_in_heap env fv \<and> \<not> Is_white_val m fv then Keep y else Todo y
         else Todo x)"

definition caml_final_update :: "gc_env \<Rightarrow> gc \<Rightarrow> gc" where
  "caml_final_update env s =
     (if \<exists>x \<in> set (final_table s). Is_white_val (gmem s) (final_val x)
      then let vs = map (final_white env (gmem s)) (final_table s);
               todo = [x. Todo x \<leftarrow> vs]
           in fold (\<lambda>x. caml_darken env (final_val x)) todo
                (s\<lparr>final_table := [x. Keep x \<leftarrow> vs], to_do := to_do s @ [todo]\<rparr>)
      else s)"

definition mark_sub :: "gc_env \<Rightarrow> gc \<Rightarrow> int \<times> gc" where
  "mark_sub env s =
     (case caml_gc_subphase s of
        Subphase_main \<Rightarrow> (0, s\<lparr>caml_gc_subphase := Subphase_weak1, weak_prev := weak_list_head_addr s\<rparr>)
      | Subphase_weak1 \<Rightarrow>
          let cur = gmem s (weak_prev s)
          in if cur \<noteq> 0 then mark_weak1 env (Op_val cur) s
             else (0, (caml_final_update env s)\<lparr>caml_gc_subphase := Subphase_weak2, weak_prev := weak_list_head_addr s\<rparr>)
      | Subphase_weak2 \<Rightarrow>
          let cur = gmem s (weak_prev s)
          in if cur \<noteq> 0
             then (1, if Color_hd (Hd_val (gmem s) cur) = Caml_white
                      then store (weak_prev s) (Field (gmem s) cur 0) s
                      else s\<lparr>weak_prev := Op_val cur\<rparr>)
             else (0, s\<lparr>caml_gc_subphase := Subphase_final\<rparr>)
      | Subphase_final \<Rightarrow>
          let c = caml_heap_start s;
              fl1 = (caml_fl_init_merge (heap s))\<lparr>caml_gc_sweep_hp := c\<rparr>
          in (0, s\<lparr>heap := fl1, caml_gc_phase := Phase_sweep, mark_chunk := c,
                   mark_limit := c + Chunk_size (gmem s) c, caml_fl_size_at_phase_change := caml_fl_cur_size fl1\<rparr>))"

definition mark_step :: "gc_env \<Rightarrow> gc \<Rightarrow> int \<times> gc" where
  "mark_step env s =
     (if gray_vals s \<noteq> [] then mark_gray env s
      else if markhp s \<noteq> NULL then (0, mark_heap s)
      else if \<not> heap_is_pure s then (0, mark_restart s)
      else mark_sub env s)"

text \<open>The last step of the phase sets the work to zero, which leaves the loop.\<close>

partial_function (option) mark_slice :: "gc_env \<Rightarrow> int \<Rightarrow> gc \<Rightarrow> gc option" where
  "mark_slice env work s =
     (if work > 0
      then let (w, s') = mark_step env s
           in if caml_gc_phase s' = Phase_sweep then Some s' else mark_slice env (work - w) s'
      else Some s)"

section \<open>Sweeping\<close>

definition set_sweep_hp :: "ptr \<Rightarrow> gc \<Rightarrow> gc" where
  "set_sweep_hp p s = s\<lparr>heap := (heap s)\<lparr>caml_gc_sweep_hp := p\<rparr>\<rparr>"

definition sweep_block :: "gc_env \<Rightarrow> gc \<Rightarrow> int \<times> gc" where
  "sweep_block env s =
     (let hp = caml_gc_sweep_hp (heap s);
          hd = gmem s hp;
          s1 = set_sweep_hp (hp + (unat (Wosize_hd hd) + 1)) s
      in (int (unat (Wosize_hd hd)) + 1,
          if Color_hd hd = Caml_white
          then let v = val_of_ptr (hp + 1);
                   s2 = (if Tag_hd hd = Custom_tag \<and> has_finalizer env v then s1\<lparr>finalized := finalized s1 @ [v]\<rparr> else s1);
                   (adj, fl1) = caml_fl_merge_block (hp + 1) (heap s2)
               in set_sweep_hp adj (s2\<lparr>heap := fl1\<rparr>)
          else if Color_hd hd = Caml_blue
          then s1\<lparr>heap := (heap s1)\<lparr>caml_fl_merge := hp + 1\<rparr>\<rparr>
          else store hp (Whitehd_hd hd) s1))"

partial_function (option) sweep_slice :: "gc_env \<Rightarrow> int \<Rightarrow> gc \<Rightarrow> gc option" where
  "sweep_slice env work s =
     (if work > 0
      then if caml_gc_sweep_hp (heap s) < mark_limit s
           then let (w, s') = sweep_block env s in sweep_slice env (work - w) s'
           else let c = Chunk_next (gmem s) (mark_chunk s)
                in if c = NULL
                   then Some (s\<lparr>mark_chunk := c, caml_stat_major_collections := caml_stat_major_collections s + 1,
                                caml_gc_phase := Phase_idle\<rparr>)
                   else sweep_slice env work (set_sweep_hp c (s\<lparr>mark_chunk := c, mark_limit := c + Chunk_size (gmem s) c\<rparr>))
      else Some s)"

section \<open>A whole cycle\<close>

definition LONG_MAX :: int where "LONG_MAX = 2 ^ 63 - 1"

partial_function (option) mark_all :: "gc_env \<Rightarrow> gc \<Rightarrow> gc option" where
  "mark_all env s =
     (if caml_gc_phase s = Phase_mark then Option.bind (mark_slice env LONG_MAX s) (mark_all env) else Some s)"

partial_function (option) sweep_all :: "gc_env \<Rightarrow> gc \<Rightarrow> gc option" where
  "sweep_all env s =
     (if caml_gc_phase s = Phase_sweep then Option.bind (sweep_slice env LONG_MAX s) (sweep_all env) else Some s)"

definition caml_finish_major_cycle :: "gc_env \<Rightarrow> gc \<Rightarrow> gc option" where
  "caml_finish_major_cycle env s =
     (let s1 = (if caml_gc_phase s = Phase_idle then start_cycle env s else s)
      in Option.bind (mark_all env s1) (sweep_all env))"

end
