(* ===== verification/Major_Sweep.thy ===== *)
theory Major_Sweep
  imports Freelist_Merge Major_Gc
begin

text \<open>
  The sweeping phase. The invariant splits the blocks of the heap into those
  already swept and those to come: what was black is white again and untouched,
  what was white or blue belongs to the free list up to lone headers, and the
  blue blocks still to come are the rest of the list. Every slice keeps it and
  always returns.
\<close>

abbreviation hcolor :: "memory \<Rightarrow> ptr \<Rightarrow> u64" where
  "hcolor m b \<equiv> Color_hd (m (b - 1))"

definition blues :: "memory \<Rightarrow> (ptr \<times> nat) list \<Rightarrow> (ptr \<times> nat) list" where
  "blues m rs = filter (\<lambda>(b, n). hcolor m b = Caml_blue) rs"

definition dead :: "memory \<Rightarrow> (ptr \<times> nat) list \<Rightarrow> (ptr \<times> nat) list" where
  "dead m rs = filter (\<lambda>(b, n). hcolor m b \<in> {Caml_white, Caml_blue}) rs"

definition swept :: "memory \<Rightarrow> memory \<Rightarrow> ptr set \<Rightarrow> ptr \<times> nat \<Rightarrow> bool" where
  "swept m0 m free = (\<lambda>(b, n).
     if hcolor m0 b = Caml_blue then {b - 1..<b + n} \<subseteq> free
     else if hcolor m0 b = Caml_white
     then {b - 1..<b + n} \<subseteq> free \<or> n = 0 \<and> b - 1 \<notin> free \<and> m (b - 1) = m0 (b - 1)
     else m (b - 1) = Whitehd_hd (m0 (b - 1)) \<and> (\<forall>a \<in> {b..<b + n}. m a = m0 a))"

definition fragment_ok :: "memory \<Rightarrow> ptr \<Rightarrow> (ptr \<times> nat) list \<Rightarrow> ptr set \<Rightarrow> bool" where
  "fragment_ok m0 f ds free \<longleftrightarrow> (f \<noteq> NULL \<longrightarrow> (f, 0) \<in> set ds \<and> hcolor m0 f = Caml_white \<and>
     (last ds = (f, 0) \<longrightarrow> f - 1 \<notin> free))"

definition sweeping :: "memory \<Rightarrow> freelist \<Rightarrow> (ptr \<times> nat) list \<Rightarrow> (ptr \<times> nat) list \<Rightarrow> (ptr \<times> nat) list \<Rightarrow> bool" where
  "sweeping m0 s ds rs as \<longleftrightarrow>
     fl_ok s (as @ blues m0 rs) \<and> caml_fl_merge s = fl_end (Fl_head s) as \<and> spaced (Fl_head s) (ds @ rs) \<and>
     (\<forall>(b, n) \<in> set (ds @ rs). Wosize_bp m0 b = n) \<and>
     fl_words as \<subseteq> fl_words (dead m0 ds) \<and>
     (\<forall>a \<in> fl_words rs. fl_mem s a = m0 a) \<and>
     (\<forall>a. a \<notin> fl_words (ds @ rs) \<longrightarrow> a \<noteq> Fl_head s \<longrightarrow> fl_mem s a = m0 a) \<and>
     (\<forall>x \<in> set ds. swept m0 (fl_mem s) (fl_words as) x) \<and>
     fragment_ok m0 (last_fragment s) ds (fl_words as)"

lemma fragment_ok_extend:
  assumes "fragment_ok m0 f ds free" and "ds' \<noteq> []" and "f \<notin> fst ` set ds'"
  shows "fragment_ok m0 f (ds @ ds') free'"
proof -
  have "last ds' \<noteq> (f, 0)" using assms(2,3) last_in_set [of ds'] by force
  then show ?thesis using assms(1,2) by (auto simp: fragment_ok_def)
qed

lemma blues_simps [simp]:
  "blues m [] = []" "blues m (xs @ ys) = blues m xs @ blues m ys"
  "blues m ((b, n) # xs) = (if hcolor m b = Caml_blue then (b, n) # blues m xs else blues m xs)"
  by (simp_all add: blues_def)

lemma dead_simps [simp]:
  "dead m [] = []" "dead m (xs @ ys) = dead m xs @ dead m ys"
  "dead m ((b, n) # xs) = (if hcolor m b \<in> {Caml_white, Caml_blue} then (b, n) # dead m xs else dead m xs)"
  by (simp_all add: dead_def)

lemma spaced_filter: "spaced h xs \<Longrightarrow> spaced h (filter P xs)"
  by (auto simp: spaced_def intro: sorted_wrt_filter)

lemma fl_words_filter: "fl_words (filter P xs) \<subseteq> fl_words xs"
  by (auto simp: fl_words_def)

lemma spaced_disjoint: "spaced h (xs @ ys) \<Longrightarrow> fl_words xs \<inter> fl_words ys = {}"
proof (induction ys arbitrary: xs)
  case (Cons y ys)
  obtain b n where y: "y = (b, n)" by force
  have "fl_words (xs @ ys) \<inter> {b - 1..<b + n} = {}" using spaced_words Cons.prems y by blast
  moreover have "fl_words xs \<inter> fl_words ys = {}" using Cons.IH Cons.prems y spaced_gap(1) by blast
  ultimately show ?case by (auto simp: y)
qed simp

lemma spaced_before:
  assumes "spaced h (ds @ (b, n) # rs)" and "a \<in> fl_words ds"
  shows "a < b - 1"
  using assms by (fastforce simp: fl_words_def spaced_append)

text \<open>The next block fits between the swept and the unswept part of the list.\<close>

lemma sweeping_gap:
  assumes s: "sweeping m0 s ds ((b, n) # rs) as"
  shows "spaced (Fl_head s) (as @ (b, n) # blues m0 rs)" and "\<And>c k. (c, k) \<in> set as \<Longrightarrow> c + k \<le> b - 1"
proof -
  let ?h = "Fl_head s"
  have sp: "spaced ?h (ds @ (b, n) # rs)" and ok: "fl_ok s (as @ blues m0 ((b, n) # rs))"
    and w: "fl_words as \<subseteq> fl_words (dead m0 ds)" using s unfolding sweeping_def by blast+
  have w2: "a < b - 1" if "a \<in> fl_words as" for a
    using spaced_before [OF sp] that w fl_words_filter unfolding dead_def by blast
  show le: "c + k \<le> b - 1" if ck: "(c, k) \<in> set as" for c k
  proof -
    have "1 \<le> k" using ok ck by (auto simp: fl_ok_def nonempty_def)
    then have "c + k - 1 \<in> {c - 1..<c + k}" by auto
    then have "c + k - 1 \<in> fl_words as" using ck unfolding fl_words_def by blast
    then show ?thesis using w2 by fastforce
  qed
  have "spaced ?h as" using ok by (auto simp: fl_ok_def spaced_append)
  moreover have "spaced ?h ((b, n) # blues m0 rs)"
  proof -
    have "spaced ?h ((b, n) # rs)" using sp by (simp add: spaced_append)
    then show ?thesis using spaced_filter unfolding blues_def by (auto simp: spaced_Cons)
  qed
  moreover have b: "1 < b" using sp by (simp add: spaced_append spaced_Cons)
  moreover have "fst x + snd x < fst y" if "x \<in> set as" "y \<in> set ((b, n) # blues m0 rs)" for x y
  proof -
    have "fst x + snd x < b" using le [of "fst x" "snd x"] that(1) b by simp
    moreover have "b \<le> fst y" using that(2) sp by (fastforce simp: blues_def spaced_append spaced_Cons)
    ultimately show ?thesis by simp
  qed
  ultimately show "spaced ?h (as @ (b, n) # blues m0 rs)" by (simp add: spaced_append)
qed

lemma swept_mono:
  assumes "swept m0 m free x" and "free \<subseteq> free'" and "\<And>a. a \<in> {fst x - 1..<fst x + snd x} \<Longrightarrow> a \<notin> free' \<Longrightarrow> m' a = m a"
    and "hcolor m0 (fst x) \<notin> {Caml_white, Caml_blue} \<Longrightarrow> {fst x - 1..<fst x + snd x} \<inter> free' = {}" and "1 < fst x"
  shows "swept m0 m' free' x"
proof -
  obtain b n where x: "x = (b, n)" by force
  have b: "1 < b" using assms(5) x by simp
  consider (blue) "hcolor m0 b = Caml_blue" | (white) "hcolor m0 b = Caml_white" "hcolor m0 b \<noteq> Caml_blue"
    | (black) "hcolor m0 b \<noteq> Caml_white" "hcolor m0 b \<noteq> Caml_blue" by blast
  then show ?thesis
  proof cases
    case blue
    then show ?thesis using assms(1,2) by (auto simp: swept_def x)
  next
    case white
    then consider "{b - 1..<b + n} \<subseteq> free" | "n = 0" "b - 1 \<notin> free" "m (b - 1) = m0 (b - 1)"
      using assms(1) by (auto simp: swept_def x)
    then show ?thesis
    proof cases
      case 1
      then show ?thesis using white assms(2) by (auto simp: swept_def x)
    next
      case 2
      show ?thesis
      proof (cases "b - 1 \<in> free'")
        case True
        moreover have "{b - 1..<b + n} = {b - 1}" using 2 b by auto
        ultimately have "{b - 1..<b + n} \<subseteq> free'" by simp
        then show ?thesis using white by (simp add: swept_def x)
      next
        case False
        then show ?thesis using white 2 assms(3) [of "b - 1"] b by (simp add: swept_def x)
      qed
    qed
  next
    case black
    then have "{b - 1..<b + n} \<inter> free' = {}" using assms(4) by (simp add: x)
    then have "m' a = m a" if "a \<in> {b - 1..<b + n}" for a using assms(3) [of a] that unfolding x fst_conv snd_conv by blast
    then show ?thesis using black assms(1) b by (auto simp: swept_def x)
  qed
qed

lemma dead_words: "fl_words (dead m xs) \<subseteq> fl_words xs"
  unfolding dead_def by (rule fl_words_filter)

lemma live_apart:
  assumes "spaced h ds" and "x \<in> set ds" and "hcolor m0 (fst x) \<notin> {Caml_white, Caml_blue}"
  shows "{fst x - 1..<fst x + snd x} \<inter> fl_words (dead m0 ds) = {}"
proof -
  obtain b n where x: "x = (b, n)" by force
  then obtain us vs where ds: "ds = us @ (b, n) # vs" using assms(2) by (auto dest: split_list)
  have "dead m0 ds = dead m0 (us @ vs)" using assms(3) by (simp add: ds x)
  then have "fl_words (dead m0 ds) \<subseteq> fl_words (us @ vs)" using dead_words by metis
  then show ?thesis using spaced_words [of h us b n vs] assms(1) unfolding ds x by auto
qed

lemma fragment_neq:
  assumes "sweeping m0 s ds ((b, n) # rs) as" and "(c, k) \<in> set ((b, n) # rs)"
  shows "last_fragment s \<noteq> c"
proof -
  have sp: "spaced (Fl_head s) (ds @ (b, n) # rs)" and f: "fragment_ok m0 (last_fragment s) ds (fl_words as)"
    using assms(1) unfolding sweeping_def by blast+
  have c: "c \<in> fst ` set ((b, n) # rs)" using assms(2) by force
  have "fst ` set ds \<inter> fst ` set ((b, n) # rs) = {}" using spaced_distinct [OF sp] by auto
  then have "c \<notin> fst ` set ds" using c by blast
  then have "(c, 0) \<notin> set ds" by force
  moreover have "1 < c" by (rule spaced_gt1 [OF sp]) (use c in auto)
  ultimately show ?thesis using f by (auto simp: fragment_ok_def)
qed

lemma sweeping_swept:
  assumes s: "sweeping m0 s ds (new @ rs) as" and mono: "fl_words as \<subseteq> free'" and dead: "free' \<subseteq> fl_words (dead m0 (ds @ new))"
    and fr: "\<And>a. a \<in> fl_words ds \<Longrightarrow> a \<notin> free' \<Longrightarrow> m' a = fl_mem s a" and x: "x \<in> set ds"
  shows "swept m0 m' free' x"
proof (rule swept_mono [OF _ mono])
  have sp: "spaced (Fl_head s) ((ds @ new) @ rs)" using s unfolding sweeping_def by simp
  show "swept m0 (fl_mem s) (fl_words as) x" using s x unfolding sweeping_def by blast
  have "{fst x - 1..<fst x + snd x} \<subseteq> fl_words ds" using x unfolding fl_words_def by force
  then show "m' a = fl_mem s a" if "a \<in> {fst x - 1..<fst x + snd x}" "a \<notin> free'" for a using that fr by blast
  show "1 < fst x" using spaced_gt1 [OF sp, of "fst x"] x by auto
  assume "hcolor m0 (fst x) \<notin> {Caml_white, Caml_blue}"
  moreover have "spaced (Fl_head s) (ds @ new)" using sp by (simp add: spaced_append)
  ultimately show "{fst x - 1..<fst x + snd x} \<inter> free' = {}"
    using live_apart [of "Fl_head s" "ds @ new" x m0] x dead by auto
qed

lemma spaced_head_words: "spaced h xs \<Longrightarrow> h \<notin> fl_words xs"
  by (fastforce simp: fl_words_def dest: spaced_elem)

lemma sweeping_black:
  assumes s: "sweeping m0 s ds ((b, n) # rs) as" and c: "hcolor m0 b \<notin> {Caml_white, Caml_blue}"
  shows "sweeping m0 (s\<lparr>fl_mem := (fl_mem s)(b - 1 := Whitehd_hd (fl_mem s (b - 1)))\<rparr>) (ds @ [(b, n)]) rs as"
proof -
  let ?h = "Fl_head s" and ?m = "fl_mem s"
  let ?m' = "?m(b - 1 := Whitehd_hd (?m (b - 1)))"
  have sp: "spaced ?h (ds @ (b, n) # rs)" and ok: "fl_ok s (as @ blues m0 rs)"
    and w: "fl_words as \<subseteq> fl_words (dead m0 ds)" and rs: "\<forall>a \<in> fl_words ((b, n) # rs). ?m a = m0 a"
    and sz: "\<forall>(b, n) \<in> set (ds @ (b, n) # rs). Wosize_bp m0 b = n"
    using s c unfolding sweeping_def by simp_all
  note gap = sweeping_gap(1) [OF s]
  have b: "1 < b" by (rule spaced_gap(2) [OF sp])
  have mb: "?m (b - 1) = m0 (b - 1)" using rs b by auto
  have "fl_list ?m' ?h (as @ blues m0 rs)"
    by (rule fl_list_frame [where m = ?m, OF _ gap]) (use ok b in \<open>auto simp: fl_ok_def\<close>)
  moreover have "?h - 1 \<noteq> b - 1" using spaced_gap(5) [OF gap] b by auto
  ultimately have ok': "fl_ok (s\<lparr>fl_mem := ?m'\<rparr>) (as @ blues m0 rs)"
    using ok by (simp add: fl_ok_def Wosize_bp_def)
  have nb: "b - 1 \<notin> fl_words ds" "b - 1 \<notin> fl_words rs" using spaced_words [OF sp] b by auto
  have "swept m0 ?m' (fl_words as) x" if x: "x \<in> set ds" for x
    by (rule sweeping_swept [of m0 s ds "[(b, n)]" rs as]) (use s w c nb x in auto)
  moreover have "\<forall>a \<in> {b..<b + n}. ?m a = m0 a" using rs by (auto simp: ball_Un)
  then have "swept m0 ?m' (fl_words as) (b, n)" unfolding swept_def using c b mb by auto
  ultimately have sw': "\<forall>x \<in> set (ds @ [(b, n)]). swept m0 ?m' (fl_words as) x" by simp
  have lf: "fragment_ok m0 (last_fragment s) (ds @ [(b, n)]) (fl_words as)"
    by (rule fragment_ok_extend) (use s fragment_neq [OF s] in \<open>auto simp: sweeping_def\<close>)
  show ?thesis
    unfolding sweeping_def
  proof (intro conjI)
    show "\<forall>a. a \<notin> fl_words ((ds @ [(b, n)]) @ rs) \<longrightarrow> a \<noteq> Fl_head (s\<lparr>fl_mem := ?m'\<rparr>) \<longrightarrow> fl_mem (s\<lparr>fl_mem := ?m'\<rparr>) a = m0 a"
      using s b unfolding sweeping_def by auto
    show "\<forall>a \<in> fl_words rs. fl_mem (s\<lparr>fl_mem := ?m'\<rparr>) a = m0 a" using rs nb by auto
  qed (use s ok' sw' lf sz sp w c in \<open>simp_all add: sweeping_def\<close>)
qed

lemma sweeping_blue:
  assumes s: "sweeping m0 s ds ((b, n) # rs) as" and c: "hcolor m0 b = Caml_blue"
  shows "sweeping m0 (s\<lparr>caml_fl_merge := b\<rparr>) (ds @ [(b, n)]) rs (as @ [(b, n)])"
proof -
  let ?h = "Fl_head s" and ?m = "fl_mem s" and ?free = "fl_words (as @ [(b, n)])"
  have sp: "spaced ?h (ds @ (b, n) # rs)" and ok: "fl_ok s (as @ (b, n) # blues m0 rs)"
    and w: "fl_words as \<subseteq> fl_words (dead m0 ds)" and rs: "\<forall>a \<in> fl_words ((b, n) # rs). ?m a = m0 a"
    using s c unfolding sweeping_def by simp_all
  have ok': "fl_ok (s\<lparr>caml_fl_merge := b\<rparr>) ((as @ [(b, n)]) @ blues m0 rs)" using ok by (simp add: fl_ok_def)
  have "swept m0 ?m ?free x" if x: "x \<in> set ds" for x
    by (rule sweeping_swept [of m0 s ds "[(b, n)]" rs as]) (use s w c x in auto)
  moreover have "swept m0 ?m ?free (b, n)" using c by (auto simp: swept_def)
  ultimately have sw': "\<forall>x \<in> set (ds @ [(b, n)]). swept m0 ?m ?free x" by simp
  have lf: "fragment_ok m0 (last_fragment s) (ds @ [(b, n)]) ?free"
    by (rule fragment_ok_extend) (use s fragment_neq [OF s] in \<open>auto simp: sweeping_def\<close>)
  show ?thesis
    unfolding sweeping_def
  proof (intro conjI)
    show "?free \<subseteq> fl_words (dead m0 (ds @ [(b, n)]))" using w c by auto
    show "\<forall>a \<in> fl_words rs. fl_mem (s\<lparr>caml_fl_merge := b\<rparr>) a = m0 a" using rs by auto
  qed (use s ok' sw' lf sp in \<open>simp_all add: sweeping_def\<close>)
qed

lemma sweeping_fragment:
  assumes s: "sweeping m0 s ds ((b, n) # rs) as" and f: "last_fragment s = b - 1"
  shows "spaced (Fl_head s) (as @ (b - 1, n + 1) # blues m0 rs)" and "(b - 1, 0) \<in> set (dead m0 ds)"
proof -
  let ?h = "Fl_head s"
  have sp: "spaced ?h (ds @ (b, n) # rs)" using s unfolding sweeping_def by blast
  have ok: "fl_ok s (as @ blues m0 ((b, n) # rs))" using s unfolding sweeping_def by blast
  note gap = sweeping_gap [OF s]
  have b: "1 < b" by (rule spaced_gap(2) [OF sp])
  have fo: "(b - 1, 0) \<in> set ds" "hcolor m0 (b - 1) = Caml_white" "last ds = (b - 1, 0) \<longrightarrow> b - 1 - 1 \<notin> fl_words as"
    using s f b unfolding sweeping_def fragment_ok_def by auto
  then show "(b - 1, 0) \<in> set (dead m0 ds)" by (simp add: dead_def)
  obtain us vs where ds: "ds = us @ (b - 1, 0) # vs" using fo(1) by (auto dest: split_list)
  have "vs = []"
  proof (cases vs)
    case (Cons v vs')
    obtain c k where v: "v = (c, k)" by force
    have "b - 1 < fst v" "fst v + snd v < b" using sp unfolding ds Cons v by (auto simp: spaced_append spaced_Cons)
    then show ?thesis by simp
  qed simp
  then have nw: "b - 1 - 1 \<notin> fl_words as" using fo(3) by (simp add: ds)
  have g: "1 < b - 1" "?h + 1 < b - 1 \<or> b - 1 < ?h" using spaced_elem [OF sp, of "b - 1" 0] fo(1) by auto
  have lt: "c + k < b - 1" if ck: "(c, k) \<in> set as" for c k
  proof -
    have "1 \<le> k" using ok ck by (auto simp: fl_ok_def nonempty_def)
    then have "c + k - 1 \<in> {c - 1..<c + k}" by auto
    then have "c + k - 1 \<in> fl_words as" using ck unfolding fl_words_def by blast
    then show ?thesis using nw gap(2) [OF ck] \<open>1 \<le> k\<close> g(1) by (cases "c + k = b - 1") auto
  qed
  have "fst x + snd x < fst y" if "x \<in> set as" "y \<in> set ((b - 1, n + 1) # blues m0 rs)" for x y
  proof -
    have "fst x + snd x < b - 1" using lt [of "fst x" "snd x"] that(1) by simp
    moreover have "b - 1 \<le> fst y" using that(2) gap(1) by (fastforce simp: spaced_append spaced_Cons)
    ultimately show ?thesis by simp
  qed
  moreover have "spaced ?h as" "spaced ?h ((b, n) # blues m0 rs)" using gap(1) by (auto simp: spaced_append)
  ultimately show "spaced ?h (as @ (b - 1, n + 1) # blues m0 rs)"
    using g b by (auto simp: spaced_append spaced_Cons)
qed

text \<open>An absorbed free block is the next block of the heap.\<close>

lemma blues_adjacent:
  assumes "spaced h ((b, n) # rs)" and "blues m0 rs = (b + n + 1, k) # ys"
  obtains rs' where "rs = (b + n + 1, k) # rs'" and "ys = blues m0 rs'"
proof -
  have "(b + n + 1, k) \<in> set rs" using assms(2) by (metis blues_def filter_is_subset list.set_intros(1) subsetD)
  then obtain us vs where rs: "rs = us @ (b + n + 1, k) # vs" by (auto dest: split_list)
  have "us = []"
  proof (cases us)
    case (Cons u us')
    obtain c j where u: "u = (c, j)" by force
    have "b + n < fst u" "fst u + snd u < b + n + 1" using assms(1) unfolding rs Cons u by (auto simp: spaced_append spaced_Cons)
    then show ?thesis by simp
  qed simp
  moreover have "hcolor m0 (b + n + 1) = Caml_blue"
  proof -
    have "(b + n + 1, k) \<in> set (blues m0 rs)" using assms(2) by simp
    then show ?thesis by (simp add: blues_def)
  qed
  ultimately show ?thesis using that [of vs] assms(2) rs by simp
qed

lemma freed_dead:
  assumes s: "sweeping m0 s ds ((b, n) # rs) as" and c: "hcolor m0 b = Caml_white"
  shows "freed_words s b n \<subseteq> fl_words (dead m0 (ds @ [(b, n)]))" and "{b - 1..<b + n} \<subseteq> freed_words s b n"
proof -
  have sp: "spaced (Fl_head s) (ds @ (b, n) # rs)" using s unfolding sweeping_def by blast
  have b: "1 < b" by (rule spaced_gap(2) [OF sp])
  show "{b - 1..<b + n} \<subseteq> freed_words s b n" by (auto simp: freed_words_def)
  show "freed_words s b n \<subseteq> fl_words (dead m0 (ds @ [(b, n)]))"
  proof (cases "last_fragment s = b - 1")
    case True
    have "(b - 1, 0) \<in> set (dead m0 ds)" by (rule sweeping_fragment(2) [OF s True])
    then have "b - 2 \<in> fl_words (dead m0 ds)" using sp b unfolding fl_words_def by (force simp: numeral_2_eq_2 dead_def dest: spaced_elem)
    moreover have "{b - 2..<b + n} \<subseteq> insert (b - 2) {b - 1..<b + n}" by auto
    ultimately show ?thesis using c by (auto simp: freed_words_def)
  qed (use c in \<open>auto simp: freed_words_def\<close>)
qed

lemma sweeping_merge:
  assumes s: "sweeping m0 s ds ((b, n) # ab @ rs) as" and c: "hcolor m0 b = Caml_white"
    and M: "merged s s' as b n (ab @ blues m0 rs) adj as' (blues m0 rs)" and ab: "\<forall>x \<in> set ab. hcolor m0 (fst x) = Caml_blue"
  shows "sweeping m0 s' (ds @ (b, n) # ab) rs as'"
proof -
  let ?h = "Fl_head s" and ?m = "fl_mem s" and ?new = "(b, n) # ab"
  have sp: "spaced ?h (ds @ ?new @ rs)" and w: "fl_words as \<subseteq> fl_words (dead m0 ds)"
    and rs: "\<forall>a \<in> fl_words (?new @ rs). ?m a = m0 a"
    and out: "\<forall>a. a \<notin> fl_words (ds @ ?new @ rs) \<longrightarrow> a \<noteq> ?h \<longrightarrow> ?m a = m0 a"
    using s unfolding sweeping_def by simp_all
  have nb: "Caml_white \<noteq> Caml_blue" by code_simp
  have ok: "fl_ok s' (as' @ blues m0 rs)" and h: "Fl_head s' = ?h" using M by (simp_all add: merged_def)
  have dab: "dead m0 ab = ab" "blues m0 ab = ab" using ab by (auto simp: dead_def blues_def filter_id_conv)
  have b: "1 < b" using spaced_gap(2) [of ?h ds b n] sp by simp
  have dis: "fl_words (ds @ ?new) \<inter> fl_words rs = {}" "fl_words ds \<inter> fl_words (?new @ rs) = {}"
    using spaced_disjoint [of ?h "ds @ ?new" rs] spaced_disjoint [of ?h ds "?new @ rs"] sp by auto
  have hw: "?h \<notin> fl_words (ds @ ?new @ rs)" by (rule spaced_head_words [OF sp])
  have dd: "fl_words (dead m0 (ds @ [(b, n)])) \<union> fl_words ab = fl_words (dead m0 (ds @ ?new))"
    using c dab by auto
  have w2: "fl_words as \<subseteq> fl_words (dead m0 (ds @ [(b, n)]))" using w by auto
  have bl: "fl_words (blues m0 rs) \<subseteq> fl_words rs" unfolding blues_def by (rule fl_words_filter)
  have sub: "fl_words (dead m0 (ds @ ?new)) \<subseteq> fl_words (ds @ ?new)" by (rule dead_words)
  note F = freed_dead [OF s c]
  consider (A) "last_fragment s' = last_fragment s" "fl_words as' = fl_words as \<union> fl_words ab \<union> freed_words s b n"
    | (B) "last_fragment s' = b" "n = 0" "as' = as" "ab = []" "fl_mem s' = ?m"
  proof -
    consider "last_fragment s' = last_fragment s" "fl_words (as' @ blues m0 rs) = fl_words (as @ ab @ blues m0 rs) \<union> freed_words s b n"
      | "last_fragment s' = b" "n = 0" "as' = as" "ab = []" "fl_mem s' = ?m" using M unfolding merged_def by auto
    then show thesis
    proof cases
      case 1
      have "fl_words as' \<inter> fl_words (blues m0 rs) = {}" using ok spaced_disjoint [of "Fl_head s'"] by (auto simp: fl_ok_def)
      moreover have "(fl_words as \<union> fl_words ab \<union> freed_words s b n) \<inter> fl_words (blues m0 rs) = {}"
        using w2 F(1) dd sub bl dis(1) by blast
      ultimately have "fl_words as' = fl_words as \<union> fl_words ab \<union> freed_words s b n" using 1(2) by auto
      then show thesis using 1 that by blast
    qed (use that in blast)
  qed
  note AB = this
  have mono: "fl_words as \<subseteq> fl_words as'" using AB by cases blast+
  have upper: "fl_words as' \<subseteq> fl_words (dead m0 (ds @ ?new))"
    using AB by cases (use w2 F(1) dd in blast)+
  have fr: "fl_mem s' a = ?m a" if "a \<notin> fl_words as'" "a \<noteq> ?h" for a
    using AB
  proof cases
    case A
    then show ?thesis using that M unfolding merged_def by blast
  qed simp
  have b1: "b - 1 \<notin> fl_words as" using w dead_words dis(2) b by fastforce
  have "swept m0 (fl_mem s') (fl_words as') x" if x: "x \<in> set ds" for x
    by (rule sweeping_swept [of m0 s ds ?new rs as]) (use s x upper fr mono hw in auto)
  moreover have "swept m0 (fl_mem s') (fl_words as') (b, n)"
    using AB by cases (use c nb F(2) b1 rs b in \<open>auto simp: swept_def\<close>)
  moreover have "swept m0 (fl_mem s') (fl_words as') x" if x: "x \<in> set ab" for x
    using AB
  proof cases
    case A
    have "{fst x - 1..<fst x + snd x} \<subseteq> fl_words ab" using x unfolding fl_words_def by force
    then show ?thesis using A ab x by (cases x) (auto simp: swept_def)
  qed (use x in simp)
  ultimately have sw: "\<forall>x \<in> set (ds @ ?new). swept m0 (fl_mem s') (fl_words as') x" by auto
  have lf: "fragment_ok m0 (last_fragment s') (ds @ ?new) (fl_words as')"
    using AB
  proof cases
    case A
    have "last_fragment s \<notin> fst ` set ?new"
    proof
      assume "last_fragment s \<in> fst ` set ?new"
      then obtain k where "(last_fragment s, k) \<in> set ?new" by force
      then show False using fragment_neq [OF s, of "last_fragment s" k] by auto
    qed
    then show ?thesis unfolding A(1) by (intro fragment_ok_extend) (use s in \<open>auto simp: sweeping_def\<close>)
  qed (use c b1 in \<open>auto simp: fragment_ok_def\<close>)
  show ?thesis
    unfolding sweeping_def h
  proof (intro conjI)
    show "\<forall>a \<in> fl_words rs. fl_mem s' a = m0 a"
    proof
      fix a assume a: "a \<in> fl_words rs"
      then have "a \<notin> fl_words as'" using upper sub dis(1) by blast
      moreover have "a \<noteq> ?h" using hw a by auto
      moreover have "?m a = m0 a" using rs a by simp
      ultimately show "fl_mem s' a = m0 a" using fr by simp
    qed
    show "\<forall>a. a \<notin> fl_words ((ds @ ?new) @ rs) \<longrightarrow> a \<noteq> ?h \<longrightarrow> fl_mem s' a = m0 a"
    proof (intro allI impI)
      fix a assume a: "a \<notin> fl_words ((ds @ ?new) @ rs)" "a \<noteq> ?h"
      then have "a \<notin> fl_words (ds @ ?new)" by simp
      then have "a \<notin> fl_words as'" using upper sub by blast
      then show "fl_mem s' a = m0 a" using fr out a by simp
    qed
  qed (use s ok sw lf upper M sp in \<open>simp_all add: sweeping_def merged_def\<close>)
qed

lemma sweeping_white:
  assumes s: "sweeping m0 s ds ((b, n) # rs) as" and c: "hcolor m0 b = Caml_white"
  obtains adj s' as' new rs' where "caml_fl_merge_block b s = (adj, s')" and "rs = new @ rs'"
    and "new = [] \<or> (\<exists>k. new = [(b + n + 1, k)])" and "adj = fst (last ((b, n) # new)) + snd (last ((b, n) # new))"
    and "sweeping m0 s' (ds @ (b, n) # new) rs' as'" and "Fl_head s' = Fl_head s"
proof -
  let ?h = "Fl_head s" and ?m = "fl_mem s"
  have nb: "Caml_white \<noteq> Caml_blue" by code_simp
  have sp: "spaced ?h (ds @ (b, n) # rs)" and ok: "fl_ok s (as @ blues m0 rs)"
    and w: "fl_words as \<subseteq> fl_words (dead m0 ds)" and rs: "\<forall>a \<in> fl_words ((b, n) # rs). ?m a = m0 a"
    and mg: "caml_fl_merge s = fl_end ?h as" and sz: "\<forall>(b, n) \<in> set (ds @ (b, n) # rs). Wosize_bp m0 b = n"
    and out: "\<forall>a. a \<notin> fl_words (ds @ (b, n) # rs) \<longrightarrow> a \<noteq> ?h \<longrightarrow> ?m a = m0 a"
    using s c nb unfolding sweeping_def by simp_all
  note gap = sweeping_gap(1) [OF s]
  have b: "1 < b" by (rule spaced_gap(2) [OF sp])
  have mb: "?m (b - 1) = m0 (b - 1)" using rs b by auto
  have n: "Wosize_bp ?m b = n" using sz mb by (simp add: Wosize_bp_def)
  obtain adj s' as' ys' where e: "caml_fl_merge_block b s = (adj, s')" and M: "merged s s' as b n (blues m0 rs) adj as' ys'"
    using merge_block_merged [OF ok mg, of b] gap sweeping_fragment(1) [OF s] n by metis
  have h: "Fl_head s' = ?h" using M by (simp add: merged_def)
  obtain ab rs' where ab: "rs = ab @ rs'" "blues m0 rs = ab @ ys'" "ys' = blues m0 rs'" "dead m0 ab = ab"
     "adj = fst (last ((b, n) # ab)) + snd (last ((b, n) # ab))" "\<forall>x \<in> set ab. hcolor m0 (fst x) = Caml_blue"
     "ab = [] \<or> (\<exists>k. ab = [(b + n + 1, k)])"
  proof -
    consider "ys' = blues m0 rs" "adj = b + n" | k where "blues m0 rs = (b + n + 1, k) # ys'" "adj = b + n + 1 + k"
      using M unfolding merged_def by auto
    then show thesis
    proof cases
      case 1
      then show thesis using that [of "[]" rs] by simp
    next
      case 2
      moreover have "spaced ?h ((b, n) # rs)" using sp by (simp add: spaced_append)
      ultimately obtain rs' where r: "rs = (b + n + 1, k) # rs'" "ys' = blues m0 rs'" using blues_adjacent by metis
      have "(b + n + 1, k) \<in> set (blues m0 rs)" using 2 by simp
      then have "hcolor m0 (b + n + 1) = Caml_blue" by (simp add: blues_def)
      then show thesis using that [of "[(b + n + 1, k)]" rs'] r 2 by simp
    qed
  qed
  have "sweeping m0 s' (ds @ (b, n) # ab) rs' as'"
    by (rule sweeping_merge [where s = s and as = as and adj = adj]) (use s c M ab in simp_all)
  then show ?thesis using that [OF e, of ab rs' as'] ab(1,5,7) h by simp
qed

section \<open>Sweeping the chunks\<close>

fun consec :: "ptr \<Rightarrow> (ptr \<times> nat) list \<Rightarrow> ptr \<Rightarrow> bool" where
  "consec p [] q = (p = q)"
| "consec p ((b, n) # xs) q = (b = p + 1 \<and> consec (b + n) xs q)"

text \<open>The chunks that follow a chunk, with their blocks.\<close>

fun chunk_chain :: "memory \<Rightarrow> ptr \<Rightarrow> ptr \<Rightarrow> (ptr \<times> (ptr \<times> nat) list) list \<Rightarrow> bool" where
  "chunk_chain m c lim [] = (Chunk_next m c = NULL)"
| "chunk_chain m c lim ((d, bs) # cs) =
     (Chunk_next m c = d \<and> lim < d \<and> consec d bs (d + Chunk_size m d) \<and> chunk_chain m d (d + Chunk_size m d) cs)"

abbreviation chunk_blocks :: "(ptr \<times> (ptr \<times> nat) list) list \<Rightarrow> (ptr \<times> nat) list" where
  "chunk_blocks cs \<equiv> concat (map snd cs)"

text \<open>The headers of the chunks lie outside their blocks.\<close>

definition chunk_heads :: "ptr \<Rightarrow> (ptr \<times> nat) list \<Rightarrow> ptr list \<Rightarrow> bool" where
  "chunk_heads h bs cs \<longleftrightarrow> (\<forall>c \<in> set cs. c - 1 \<notin> fl_words bs \<and> c - 2 \<notin> fl_words bs \<and> c - 1 \<noteq> h \<and> c - 2 \<noteq> h)"

definition sweep_inv :: "memory \<Rightarrow> gc \<Rightarrow> (ptr \<times> nat) list \<Rightarrow> (ptr \<times> nat) list \<Rightarrow> (ptr \<times> (ptr \<times> nat) list) list \<Rightarrow> (ptr \<times> nat) list \<Rightarrow> bool" where
  "sweep_inv m0 s ds rs cs as \<longleftrightarrow>
     sweeping m0 (heap s) ds (rs @ chunk_blocks cs) as \<and>
     consec (caml_gc_sweep_hp (heap s)) rs (mark_limit s) \<and> chunk_chain m0 (mark_chunk s) (mark_limit s) cs \<and>
     chunk_heads (Fl_head (heap s)) (ds @ rs @ chunk_blocks cs) (mark_chunk s # map fst cs)"

lemma sweeping_fields [simp]:
  "sweeping m0 (s\<lparr>caml_gc_sweep_hp := p\<rparr>) ds rs as = sweeping m0 s ds rs as"
  by (simp add: sweeping_def fl_ok_def)

lemma consec_append: "consec p (xs @ ys) q \<Longrightarrow> xs \<noteq> [] \<Longrightarrow> consec (fst (last xs) + snd (last xs)) ys q"
proof (induction xs arbitrary: p)
  case (Cons x xs)
  then show ?case by (cases x; cases xs) auto
qed simp

lemma chunk_chain_after: "chunk_chain m c lim cs \<Longrightarrow> (b, n) \<in> set (chunk_blocks cs) \<Longrightarrow> lim + 1 < b"
proof (induction cs arbitrary: c lim)
  case (Cons x cs)
  obtain d bs where x: "x = (d, bs)" by force
  have c: "lim < d" "consec d bs (d + Chunk_size m d)" "chunk_chain m d (d + Chunk_size m d) cs"
    using Cons.prems(1) by (simp_all add: x)
  have first: "p + 1 \<le> b'" if "consec p ys q" "(b', n') \<in> set ys" for p q ys b' n'
    using that by (induction ys arbitrary: p) force+
  show ?case
  proof (cases "(b, n) \<in> set bs")
    case True
    then show ?thesis using first [OF c(2)] c(1) by force
  next
    case False
    then have "d + Chunk_size m d + 1 < b" using Cons.IH [OF c(3)] Cons.prems(2) by (simp add: x)
    then show ?thesis using c(1) by simp
  qed
qed simp

lemma sweep_block_step:
  assumes inv: "sweep_inv m0 s ds rs cs as" and lt: "caml_gc_sweep_hp (heap s) < mark_limit s"
  obtains w s' new rs' as' where "sweep_block env s = (w, s')" and "rs = new @ rs'" and "new \<noteq> []"
    and "sweep_inv m0 s' (ds @ new) rs' cs as'" and "caml_gc_phase s' = caml_gc_phase s"
    and "1 \<le> w" and "w \<le> int (fl_total new)"
proof -
  note goal = that
  let ?fl = "heap s" and ?hp = "caml_gc_sweep_hp (heap s)"
  have sw: "sweeping m0 ?fl ds (rs @ chunk_blocks cs) as" and co: "consec ?hp rs (mark_limit s)"
    and ch: "chunk_chain m0 (mark_chunk s) (mark_limit s) cs"
    and hd: "chunk_heads (Fl_head ?fl) (ds @ rs @ chunk_blocks cs) (mark_chunk s # map fst cs)"
    using inv by (simp_all add: sweep_inv_def)
  obtain b n r where rs: "rs = (b, n) # r" and b: "b = ?hp + 1" using co lt by (cases rs) auto
  have m: "fl_mem ?fl ?hp = m0 (b - 1)" and n: "unat (Wosize_hd (m0 (b - 1))) = n"
    using sw by (auto simp: sweeping_def rs b Wosize_bp_def)
  have nb: "Caml_white \<noteq> Caml_blue" by code_simp
  let ?s1 = "set_sweep_hp (?hp + (n + 1)) s"
  let ?s2 = "if Tag_hd (m0 (b - 1)) = Custom_tag \<and> has_finalizer env (val_of_ptr b)
    then ?s1\<lparr>finalized := finalized ?s1 @ [val_of_ptr b]\<rparr> else ?s1"
  have s2: "heap ?s2 = ?fl\<lparr>caml_gc_sweep_hp := b + n\<rparr>" "mark_limit ?s2 = mark_limit s" "mark_chunk ?s2 = mark_chunk s"
    "caml_gc_phase ?s2 = caml_gc_phase s" by (simp_all add: set_sweep_hp_def b)
  have sw1: "sweeping m0 (?fl\<lparr>caml_gc_sweep_hp := b + n\<rparr>) ds ((b, n) # r @ chunk_blocks cs) as" using sw by (simp add: rs)
  have fin: thesis if s': "sweep_block env s = (int n + 1, s')" "rs = (b, n) # new @ rs'"
      "sweeping m0 (heap s') (ds @ (b, n) # new) (rs' @ chunk_blocks cs) as'"
      "caml_gc_sweep_hp (heap s') = fst (last ((b, n) # new)) + snd (last ((b, n) # new))" "mark_limit s' = mark_limit s"
      "mark_chunk s' = mark_chunk s" "caml_gc_phase s' = caml_gc_phase s" "Fl_head (heap s') = Fl_head ?fl" for s' as' new rs'
  proof (rule goal)
    show "sweep_block env s = (int n + 1, s')" "rs = ((b, n) # new) @ rs'" "(b, n) # new \<noteq> []" using s' by simp_all
    have "consec (caml_gc_sweep_hp (heap s')) rs' (mark_limit s)"
    proof -
      have "consec ?hp (((b, n) # new) @ rs') (mark_limit s)" using co s'(2) by auto
      from consec_append [OF this] show ?thesis using s'(4) by simp
    qed
    then show "sweep_inv m0 s' (ds @ (b, n) # new) rs' cs as'" using s' ch hd by (simp add: sweep_inv_def)
  qed (use s' in simp_all)
  consider (white) "hcolor m0 b = Caml_white" | (blue) "hcolor m0 b = Caml_blue" | (black) "hcolor m0 b \<notin> {Caml_white, Caml_blue}" by blast
  then show thesis
  proof cases
    case white
    obtain adj fl1 as' new rs' where e: "caml_fl_merge_block b (?fl\<lparr>caml_gc_sweep_hp := b + n\<rparr>) = (adj, fl1)"
      and nr: "r @ chunk_blocks cs = new @ rs'" "new = [] \<or> (\<exists>k. new = [(b + n + 1, k)])"
      and adj: "adj = fst (last ((b, n) # new)) + snd (last ((b, n) # new))"
      and sw2: "sweeping m0 fl1 (ds @ (b, n) # new) rs' as'" and h: "Fl_head fl1 = Fl_head ?fl"
      by (rule sweeping_white [OF sw1 white]) simp
    have "\<exists>r'. r = new @ r' \<and> rs' = r' @ chunk_blocks cs"
    proof (cases "new = []")
      case False
      then obtain k where k: "new = [(b + n + 1, k)]" using nr(2) by blast
      have "r \<noteq> []"
      proof
        assume "r = []"
        then have "(b + n + 1, k) \<in> set (chunk_blocks cs)" "b + n = mark_limit s" using nr(1) k co by (simp_all add: rs)
        then show False using chunk_chain_after [OF ch] by force
      qed
      then show ?thesis using nr(1) k by (cases r) auto
    qed (use nr in simp)
    then obtain r' where r': "r = new @ r'" "rs' = r' @ chunk_blocks cs" by blast
    have blk: "sweep_block env s = (int n + 1, set_sweep_hp adj (?s2\<lparr>heap := fl1\<rparr>))"
      unfolding sweep_block_def Let_def m n b [symmetric] by (simp only: white if_True s2(1) e prod.case simp_thms)
    show thesis
      by (rule fin [OF blk, where new = new and rs' = r' and as' = as'])
        (use sw2 r' h adj s2 in \<open>simp_all add: rs set_sweep_hp_def\<close>)
  next
    case blue
    have blk: "sweep_block env s = (int n + 1, ?s1\<lparr>heap := (heap ?s1)\<lparr>caml_fl_merge := b\<rparr>\<rparr>)"
      unfolding sweep_block_def Let_def m n b [symmetric] by (simp only: blue nb [symmetric] if_True if_False simp_thms)
    show thesis
      by (rule fin [OF blk, where new = "[]" and rs' = r and as' = "as @ [(b, n)]"])
        (use sweeping_blue [OF sw1 blue] in \<open>simp_all add: rs set_sweep_hp_def b\<close>)
  next
    case black
    then have "hcolor m0 b \<noteq> Caml_white" "hcolor m0 b \<noteq> Caml_blue" by simp_all
    then have blk: "sweep_block env s = (int n + 1, store ?hp (Whitehd_hd (m0 (b - 1))) ?s1)"
      unfolding sweep_block_def Let_def m n b [symmetric] by (simp only: if_False simp_thms)
    show thesis
      by (rule fin [OF blk, where new = "[]" and rs' = r and as' = "as"])
        (use sweeping_black [OF sw1 black] m in \<open>simp_all add: rs set_sweep_hp_def store_def b\<close>)
  qed
qed

lemma sweep_next_chunk:
  assumes inv: "sweep_inv m0 s ds rs cs as" and "\<not> caml_gc_sweep_hp (heap s) < mark_limit s"
  shows "rs = []" and "Chunk_next (gmem s) (mark_chunk s) = (if cs = [] then NULL else fst (hd cs))"
    and "cs = (c, bs) # cs' \<Longrightarrow> c \<noteq> NULL \<and> sweep_inv m0 (set_sweep_hp c (s\<lparr>mark_chunk := c, mark_limit := c + Chunk_size (gmem s) c\<rparr>)) ds bs cs' as"
proof -
  have sw: "sweeping m0 (heap s) ds (rs @ chunk_blocks cs) as" and co: "consec (caml_gc_sweep_hp (heap s)) rs (mark_limit s)"
    and ch: "chunk_chain m0 (mark_chunk s) (mark_limit s) cs"
    and hd: "chunk_heads (Fl_head (heap s)) (ds @ rs @ chunk_blocks cs) (mark_chunk s # map fst cs)"
    using inv by (simp_all add: sweep_inv_def)
  have up: "q \<ge> p + fl_total xs" if "consec p xs q" for p q xs using that by (induction xs arbitrary: p) force+
  show rs: "rs = []" using up [OF co] assms(2) by (cases rs) auto
  have m: "gmem s (c - 1) = m0 (c - 1)" "gmem s (c - 2) = m0 (c - 2)" if "c \<in> set (mark_chunk s # map fst cs)" for c
    using sw hd that by (auto simp: sweeping_def chunk_heads_def)
  have n: "Chunk_next (gmem s) (mark_chunk s) = Chunk_next m0 (mark_chunk s)" using m by (simp add: Chunk_next_def)
  show "Chunk_next (gmem s) (mark_chunk s) = (if cs = [] then NULL else fst (hd cs))"
    unfolding n using ch by (cases cs) auto
  show "c \<noteq> NULL \<and> sweep_inv m0 (set_sweep_hp c (s\<lparr>mark_chunk := c, mark_limit := c + Chunk_size (gmem s) c\<rparr>)) ds bs cs' as"
    if cs: "cs = (c, bs) # cs'"
  proof -
    have "Chunk_size (gmem s) c = Chunk_size m0 c" using m by (simp add: Chunk_size_def cs)
    then show ?thesis using sw ch hd by (auto simp: sweep_inv_def cs rs set_sweep_hp_def chunk_heads_def)
  qed
qed

text \<open>
  A slice always returns. It leaves the heap swept up to some block, and it ends
  the phase, with every block swept, unless its work was used up.
\<close>

definition slice_outcome :: "memory \<Rightarrow> (ptr \<times> nat) list \<Rightarrow> int \<Rightarrow> nat \<Rightarrow> gc \<Rightarrow> bool" where
  "slice_outcome m0 bs work todo s' \<longleftrightarrow>
     caml_gc_phase s' = Phase_idle \<and> (\<exists>as. sweeping m0 (heap s') bs [] as) \<or>
     caml_gc_phase s' = Phase_sweep \<and> work \<le> int todo \<and>
       (\<exists>ds rs cs as. sweep_inv m0 s' ds rs cs as \<and> ds @ rs @ chunk_blocks cs = bs)"

lemma slice_outcome_mono: "slice_outcome m0 bs (work - w) todo s' \<Longrightarrow> w \<le> int k \<Longrightarrow> slice_outcome m0 bs work (k + todo) s'"
  by (auto simp: slice_outcome_def)

lemma sweep_slice_spec:
  assumes "sweep_inv m0 s ds rs cs as" and "caml_gc_phase s = Phase_sweep"
  shows "\<exists>s'. sweep_slice env work s = Some s' \<and>
    slice_outcome m0 (ds @ rs @ chunk_blocks cs) work (fl_total (rs @ chunk_blocks cs)) s'"
  using assms
proof (induction "length (rs @ chunk_blocks cs) + length cs" arbitrary: work s ds rs cs as rule: less_induct)
  case less
  note inv = less.prems(1)
  show ?case
  proof (cases "work > 0")
    case False
    then have "sweep_slice env work s = Some s" by (subst sweep_slice.simps) simp
    then show ?thesis using less.prems False unfolding slice_outcome_def by auto
  next
    case True
    show ?thesis
    proof (cases "caml_gc_sweep_hp (heap s) < mark_limit s")
      case lt: True
      obtain w s1 new rs1 as1 where b: "sweep_block env s = (w, s1)" "rs = new @ rs1" "new \<noteq> []"
        "sweep_inv m0 s1 (ds @ new) rs1 cs as1" "caml_gc_phase s1 = caml_gc_phase s" "1 \<le> w" "w \<le> int (fl_total new)"
        by (rule sweep_block_step [OF inv lt, of env])
      have "sweep_slice env work s = sweep_slice env (work - w) s1"
        using True lt b(1) by (subst sweep_slice.simps) simp
      moreover have "length (rs1 @ chunk_blocks cs) + length cs < length (rs @ chunk_blocks cs) + length cs" using b(2,3) by simp
      from less.hyps [OF this b(4), of "work - w"] b(5) less.prems(2)
      obtain s' where r: "sweep_slice env (work - w) s1 = Some s'"
        "slice_outcome m0 (ds @ rs @ chunk_blocks cs) (work - w) (fl_total (rs1 @ chunk_blocks cs)) s'" using b(2) by auto
      ultimately show ?thesis using slice_outcome_mono [OF r(2) b(7)] b(2) by (simp add: ac_simps)
    next
      case False
      note nc = sweep_next_chunk [OF inv False]
      show ?thesis
      proof (cases cs)
        case Nil
        have "sweep_slice env work s =
            Some (s\<lparr>mark_chunk := NULL, caml_stat_major_collections := caml_stat_major_collections s + 1, caml_gc_phase := Phase_idle\<rparr>)"
          using True False nc(2) Nil by (subst sweep_slice.simps) simp
        then show ?thesis using inv nc(1) Nil by (auto simp: slice_outcome_def sweep_inv_def)
      next
        case (Cons x cs1)
        obtain c bs where x: "x = (c, bs)" by force
        note n3 = nc(3) [OF Cons [unfolded x]]
        let ?s1 = "set_sweep_hp c (s\<lparr>mark_chunk := c, mark_limit := c + Chunk_size (gmem s) c\<rparr>)"
        have "sweep_slice env work s = sweep_slice env work ?s1"
          using True False nc(2) n3 by (subst sweep_slice.simps) (simp add: Cons x Let_def)
        moreover have "length (bs @ chunk_blocks cs1) + length cs1 < length (rs @ chunk_blocks cs) + length cs"
          by (simp add: Cons x)
        note less.hyps [OF this conjunct2 [OF n3], of work]
        ultimately show ?thesis using less.prems(2) nc(1) by (simp add: Cons x set_sweep_hp_def)
      qed
    qed
  qed
qed

text \<open>The blocks of the heap are disjoint, so one slice with maximal work ends the phase.\<close>

lemma spaced_total: "spaced h xs \<Longrightarrow> (\<And>b n. (b, n) \<in> set xs \<Longrightarrow> lo < b) \<Longrightarrow> lo \<le> 2 ^ 61 \<Longrightarrow> lo + fl_total xs \<le> 2 ^ 61"
proof (induction xs arbitrary: lo)
  case (Cons x xs)
  obtain b n where x: "x = (b, n)" by force
  have s: "spaced h xs" "\<forall>y \<in> set xs. b + n < fst y" "b + n < 2 ^ 61" using Cons.prems(1) by (auto simp: x spaced_Cons)
  have "b + n + fl_total xs \<le> 2 ^ 61" by (rule Cons.IH [OF s(1)]) (use s in force)+
  moreover have "lo < b" using Cons.prems(2) [of b n] x by simp
  ultimately show ?case by (simp add: x)
qed simp

lemma sweep_all_spec:
  assumes inv: "sweep_inv m0 s ds rs cs as" and ph: "caml_gc_phase s = Phase_sweep"
  shows "\<exists>s' as'. sweep_all env s = Some s' \<and> caml_gc_phase s' = Phase_idle \<and> sweeping m0 (heap s') (ds @ rs @ chunk_blocks cs) [] as'"
proof -
  have "spaced (Fl_head (heap s)) (ds @ rs @ chunk_blocks cs)" using inv by (simp add: sweep_inv_def sweeping_def)
  then have "spaced (Fl_head (heap s)) (rs @ chunk_blocks cs)" by (simp add: spaced_append)
  then have "fl_total (rs @ chunk_blocks cs) \<le> 2 ^ 61"
    using spaced_total [of _ _ 0] spaced_gt1 by fastforce
  then have "int (fl_total (rs @ chunk_blocks cs)) \<le> int (2 ^ 61)" by (simp only: of_nat_le_iff)
  then have "\<not> LONG_MAX \<le> int (fl_total (rs @ chunk_blocks cs))" by (simp add: LONG_MAX_def)
  then obtain s' as' where s': "sweep_slice env LONG_MAX s = Some s'" "caml_gc_phase s' = Phase_idle"
    "sweeping m0 (heap s') (ds @ rs @ chunk_blocks cs) [] as'"
    using sweep_slice_spec [OF inv ph, of env LONG_MAX] by (auto simp: slice_outcome_def)
  have "sweep_all env s = Some s'"
    using s' ph by (subst sweep_all.simps) (simp add: sweep_all.simps [of env s'])
  then show ?thesis using s' by blast
qed

end
