(* ===== verification/Major_Mark.thy ===== *)
theory Major_Mark
  imports Major_Sweep
begin

text \<open>
  Marking one object at a time. The invariant compares memory with the memory at
  the start of the cycle: headers only change colour, a field of a scanned block
  is unchanged until the block is black and is then at most replaced by what its
  forward blocks lead to, no black block points to a white one in the original
  graph, and while the heap is pure every gray block is on the mark stack or
  still ahead of the heap scan.
\<close>

section \<open>The graph of the heap\<close>

definition pointer :: "gc_env \<Rightarrow> mlvalue \<Rightarrow> bool" where
  "pointer env v \<longleftrightarrow> Is_block v \<and> Is_in_heap env v"

definition target :: "memory \<Rightarrow> mlvalue \<Rightarrow> ptr" where
  "target m v = (if Tag_hd (Hd_val m v) = Infix_tag then Op_val (v - Infix_offset_val m v) else Op_val v)"

definition colour :: "memory \<Rightarrow> ptr \<Rightarrow> u64" where
  "colour m b = Color_hd (m (b - 1))"

definition scanned :: "memory \<Rightarrow> ptr \<Rightarrow> bool" where
  "scanned m b \<longleftrightarrow> Tag_hd (m (b - 1)) < No_scan_tag"

inductive reachable :: "gc_env \<Rightarrow> memory \<Rightarrow> ptr \<Rightarrow> bool" for env m where
  reachable_root: "r \<in> set (gc_roots env) \<Longrightarrow> pointer env r \<Longrightarrow> reachable env m (target m r)"
| reachable_field: "reachable env m b \<Longrightarrow> scanned m b \<Longrightarrow> i < Wosize_bp m b \<Longrightarrow> pointer env (m (b + i))
    \<Longrightarrow> reachable env m (target m (m (b + i)))"

text \<open>A value reached from another by bypassing forward blocks.\<close>

inductive forwards :: "memory \<Rightarrow> mlvalue \<Rightarrow> mlvalue \<Rightarrow> bool" for m where
  here: "forwards m v v"
| bypass: "Tag_hd (Hd_val m v) = Forward_tag \<Longrightarrow> forwards m (Field m v 0) w \<Longrightarrow> forwards m v w"

text \<open>
  The blocks \<open>L\<close> the collector may meet: white at the start, closed under the
  pointers of scanned blocks, with the weak arrays' words \<open>Wk\<close> apart from them.
\<close>

definition graph_ok :: "gc_env \<Rightarrow> memory \<Rightarrow> ptr set \<Rightarrow> ptr set \<Rightarrow> bool" where
  "graph_ok env m L Wk \<longleftrightarrow> finite L \<and>
     (\<forall>b \<in> L. 1 < b \<and> colour m b = Caml_white \<and> Tag_hd (m (b - 1)) \<noteq> Infix_tag \<and>
        (Tag_hd (m (b - 1)) = Forward_tag \<longrightarrow> 1 \<le> Wosize_bp m b) \<and> b - 1 \<notin> Wk) \<and>
     (\<forall>b \<in> L. \<forall>c \<in> L. \<forall>i < Wosize_bp m b. b + i \<noteq> c - 1 \<and> (b \<noteq> c \<longrightarrow> (\<forall>j < Wosize_bp m c. b + i \<noteq> c + j))) \<and>
     (\<forall>b \<in> L. scanned m b \<longrightarrow> (\<forall>i < Wosize_bp m b. b + i \<notin> Wk \<and>
        (pointer env (m (b + i)) \<longrightarrow> target m (m (b + i)) \<in> L)))"

definition recoloured :: "memory \<Rightarrow> memory \<Rightarrow> ptr \<Rightarrow> bool" where
  "recoloured m0 m b \<longleftrightarrow> m (b - 1) \<in> {m0 (b - 1), Grayhd_hd (m0 (b - 1)), Blackhd_hd (m0 (b - 1))}"

definition headers :: "ptr set \<Rightarrow> ptr set" where
  "headers L = (\<lambda>b. b - 1) ` L"

definition scan_words :: "memory \<Rightarrow> ptr set \<Rightarrow> ptr set" where
  "scan_words m L = {b + i | b i. b \<in> L \<and> scanned m b \<and> i < Wosize_bp m b}"

text \<open>What marking may do to memory.\<close>

definition mem_ok :: "memory \<Rightarrow> ptr set \<Rightarrow> ptr set \<Rightarrow> memory \<Rightarrow> bool" where
  "mem_ok m0 L Wk m \<longleftrightarrow>
     (\<forall>b \<in> L. recoloured m0 m b) \<and>
     (\<forall>a. a \<notin> headers L \<longrightarrow> Is_long (m0 a) \<longrightarrow> m a = m0 a) \<and>
     (\<forall>a. a \<notin> headers L \<longrightarrow> a \<notin> scan_words m0 L \<longrightarrow> a \<notin> Wk \<longrightarrow> m a = m0 a) \<and>
     (\<forall>b \<in> L. scanned m0 b \<longrightarrow> colour m b \<noteq> Caml_black \<longrightarrow> (\<forall>i < Wosize_bp m0 b. m (b + i) = m0 (b + i))) \<and>
     (\<forall>b \<in> L. scanned m0 b \<longrightarrow> (\<forall>i < Wosize_bp m0 b. forwards m0 (m0 (b + i)) (m (b + i))))"

text \<open>
  No scanned field of a black block points to a white one; \<open>ex\<close> exempts the
  fields still to be visited of the block being scanned.
\<close>

definition tricolour :: "gc_env \<Rightarrow> memory \<Rightarrow> ptr set \<Rightarrow> (ptr \<Rightarrow> nat \<Rightarrow> bool) \<Rightarrow> memory \<Rightarrow> bool" where
  "tricolour env m0 L ex m \<longleftrightarrow>
     (\<forall>b \<in> L. colour m b = Caml_black \<longrightarrow> scanned m0 b \<longrightarrow> (\<forall>i < Wosize_bp m0 b. \<not> ex b i \<longrightarrow>
        pointer env (m0 (b + i)) \<longrightarrow> colour m (target m0 (m0 (b + i))) \<noteq> Caml_white))"

definition stack_ok :: "ptr set \<Rightarrow> memory \<Rightarrow> mlvalue list \<Rightarrow> bool" where
  "stack_ok L m st \<longleftrightarrow> distinct (map Op_val st) \<and> (\<forall>v \<in> set st. Op_val v \<in> L \<and> colour m (Op_val v) = Caml_gray)"

definition marking :: "gc_env \<Rightarrow> memory \<Rightarrow> ptr set \<Rightarrow> ptr set \<Rightarrow> ptr set \<Rightarrow> ptr set \<Rightarrow> (ptr \<Rightarrow> nat \<Rightarrow> bool) \<Rightarrow> gc \<Rightarrow> bool" where
  "marking env m0 L Wk R rest ex s \<longleftrightarrow>
     mem_ok m0 L Wk (gmem s) \<and> tricolour env m0 L ex (gmem s) \<and> stack_ok L (gmem s) (gray_vals s) \<and>
     (heap_is_pure s \<longrightarrow> (\<forall>b \<in> L. colour (gmem s) b = Caml_gray \<longrightarrow> b \<in> Op_val ` set (gray_vals s) \<or> b \<in> rest)) \<and>
     (\<forall>b \<in> R. colour (gmem s) b \<noteq> Caml_white)"

section \<open>Colours and headers\<close>

lemma colours_distinct [simp]:
  "Caml_white \<noteq> Caml_gray" "Caml_white \<noteq> Caml_black" "Caml_gray \<noteq> Caml_black" "Caml_white \<noteq> Caml_blue"
  "Caml_gray \<noteq> Caml_blue" "Caml_black \<noteq> Caml_blue"
  "Caml_gray \<noteq> Caml_white" "Caml_black \<noteq> Caml_white" "Caml_black \<noteq> Caml_gray" "Caml_blue \<noteq> Caml_white"
  "Caml_blue \<noteq> Caml_gray" "Caml_blue \<noteq> Caml_black"
  by code_simp+

lemma Blackhd_Grayhd [simp]: "Blackhd_hd (Grayhd_hd h) = Blackhd_hd h"
  by (auto simp: Blackhd_hd_def Grayhd_hd_def bit_simps intro!: bit_eqI)

lemma recoloured_size: "recoloured m0 m b \<Longrightarrow> Wosize_hd (m (b - 1)) = Wosize_hd (m0 (b - 1))"
  by (auto simp: recoloured_def recolour_size)

lemma recoloured_tag: "recoloured m0 m b \<Longrightarrow> Tag_hd (m (b - 1)) = Tag_hd (m0 (b - 1))"
  by (auto simp: recoloured_def recolour_tag)

lemma recoloured_white:
  "recoloured m0 m b \<Longrightarrow> colour m b = Caml_white \<Longrightarrow> m (b - 1) = m0 (b - 1)"
  by (auto simp: colour_def recoloured_def recolour_colour)

lemma recoloured_gray:
  "recoloured m0 m b \<Longrightarrow> colour m0 b = Caml_white \<Longrightarrow> colour m b = Caml_gray \<Longrightarrow> m (b - 1) = Grayhd_hd (m0 (b - 1))"
  by (auto simp: colour_def recoloured_def recolour_colour)

lemma recoloured_colour:
  "recoloured m0 m b \<Longrightarrow> colour m0 b = Caml_white \<Longrightarrow> colour m b \<in> {Caml_white, Caml_gray, Caml_black}"
  by (auto simp: colour_def recoloured_def recolour_colour)

lemma Infix_header_long:
  assumes "Tag_hd h = Infix_tag"
  shows "Is_long h"
proof -
  have "bit (Tag_hd h) 0" unfolding assms by simp
  then have "bit h 0" by (simp add: Tag_hd_take_bit bit_simps)
  then show ?thesis by (simp add: Is_long_odd bit_0)
qed

text \<open>Headers seen through a pointer keep their tag, so pointers keep their targets.\<close>

lemma header_read:
  assumes g: "graph_ok env m0 L Wk" and mo: "mem_ok m0 L Wk m" and t: "target m0 v \<in> L"
  shows "Tag_hd (Hd_val m v) = Tag_hd (Hd_val m0 v)" and "target m v = target m0 v"
proof -
  have *: "Tag_hd (Hd_val m v) = Tag_hd (Hd_val m0 v) \<and> target m v = target m0 v"
  proof (cases "Tag_hd (Hd_val m0 v) = Infix_tag")
    case False
    then have "Op_val v \<in> L" using t by (simp add: target_def)
    then have "recoloured m0 m (Op_val v)" using mo by (simp add: mem_ok_def)
    then have "Tag_hd (Hd_val m v) = Tag_hd (Hd_val m0 v)" unfolding Hd_val_def by (rule recoloured_tag)
    then show ?thesis using False by (simp add: target_def)
  next
    case True
    have "Op_val v - 1 \<notin> headers L"
    proof
      assume "Op_val v - 1 \<in> headers L"
      then obtain b where "b \<in> L" "Op_val v - 1 = b - 1" by (auto simp: headers_def)
      then show False using g True by (auto simp: graph_ok_def Hd_val_def)
    qed
    then have "Hd_val m v = Hd_val m0 v" using mo Infix_header_long [OF True] by (simp add: mem_ok_def Hd_val_def)
    then show ?thesis by (simp add: target_def Infix_offset_val_def)
  qed
  then show "Tag_hd (Hd_val m v) = Tag_hd (Hd_val m0 v)" "target m v = target m0 v" by blast+
qed

section \<open>Single stores\<close>

lemma graph_okD:
  assumes "graph_ok env m0 L Wk" and "b \<in> L"
  shows "1 < b" and "colour m0 b = Caml_white" and "Tag_hd (m0 (b - 1)) \<noteq> Infix_tag" and "b - 1 \<notin> Wk" and "b - 1 \<in> headers L"
    and "\<And>c i. c \<in> L \<Longrightarrow> i < Wosize_bp m0 c \<Longrightarrow> c + i \<noteq> b - 1"
    and "\<And>i. scanned m0 b \<Longrightarrow> i < Wosize_bp m0 b \<Longrightarrow> b + i \<in> scan_words m0 L \<and> b + i \<notin> Wk \<and> b + i \<notin> headers L"
    and "\<And>i. scanned m0 b \<Longrightarrow> i < Wosize_bp m0 b \<Longrightarrow> pointer env (m0 (b + i)) \<Longrightarrow> target m0 (m0 (b + i)) \<in> L"
    and "\<And>c. c \<in> L \<Longrightarrow> c - 1 = b - 1 \<longleftrightarrow> c = b"
    and "\<And>c i j. c \<in> L \<Longrightarrow> i < Wosize_bp m0 b \<Longrightarrow> j < Wosize_bp m0 c \<Longrightarrow> b + i = c + j \<longleftrightarrow> c = b \<and> j = i"
proof -
  have g: "\<forall>b \<in> L. 1 < b \<and> colour m0 b = Caml_white \<and> Tag_hd (m0 (b - 1)) \<noteq> Infix_tag \<and>
        (Tag_hd (m0 (b - 1)) = Forward_tag \<longrightarrow> 1 \<le> Wosize_bp m0 b) \<and> b - 1 \<notin> Wk"
    and d: "\<forall>b \<in> L. \<forall>c \<in> L. \<forall>i < Wosize_bp m0 b. b + i \<noteq> c - 1 \<and> (b \<noteq> c \<longrightarrow> (\<forall>j < Wosize_bp m0 c. b + i \<noteq> c + j))"
    and p: "\<forall>b \<in> L. scanned m0 b \<longrightarrow> (\<forall>i < Wosize_bp m0 b. b + i \<notin> Wk \<and>
        (pointer env (m0 (b + i)) \<longrightarrow> target m0 (m0 (b + i)) \<in> L))"
    using assms(1) unfolding graph_ok_def by blast+
  show "1 < b" "colour m0 b = Caml_white" "Tag_hd (m0 (b - 1)) \<noteq> Infix_tag" "b - 1 \<notin> Wk" using g assms(2) by blast+
  show "b - 1 \<in> headers L" using assms(2) unfolding headers_def by blast
  show "\<And>c i. c \<in> L \<Longrightarrow> i < Wosize_bp m0 c \<Longrightarrow> c + i \<noteq> b - 1" using d assms(2) by blast
  show "b + i \<in> scan_words m0 L \<and> b + i \<notin> Wk \<and> b + i \<notin> headers L" if "scanned m0 b" "i < Wosize_bp m0 b" for i
  proof -
    have "b + i \<in> scan_words m0 L" using that assms(2) unfolding scan_words_def by blast
    moreover have "b + i \<notin> headers L" using d assms(2) that(2) unfolding headers_def by blast
    ultimately show ?thesis using p assms(2) that by blast
  qed
  show "\<And>i. scanned m0 b \<Longrightarrow> i < Wosize_bp m0 b \<Longrightarrow> pointer env (m0 (b + i)) \<Longrightarrow> target m0 (m0 (b + i)) \<in> L"
    using p assms(2) by blast
  show "c - 1 = b - 1 \<longleftrightarrow> c = b" if "c \<in> L" for c
  proof -
    have "1 < b" "1 < c" using g assms(2) that by blast+
    then show ?thesis by auto
  qed
  show "b + i = c + j \<longleftrightarrow> c = b \<and> j = i" if "c \<in> L" "i < Wosize_bp m0 b" "j < Wosize_bp m0 c" for c i j
  proof (cases "b = c")
    case False
    then have "b + i \<noteq> c + j" using d assms(2) that by blast
    then show ?thesis using False by auto
  qed auto
qed

lemma colour_upd:
  assumes "graph_ok env m0 L Wk" and "b \<in> L" and "c \<in> L"
  shows "colour (m(b - 1 := h)) c = (if c = b then Color_hd h else colour m c)"
  using graph_okD(9) [OF assms] by (auto simp: colour_def)

lemma colour_other:
  assumes "graph_ok env m0 L Wk" and "a \<notin> headers L" and "c \<in> L"
  shows "colour (m(a := w)) c = colour m c"
  using graph_okD(5) [OF assms(1,3)] assms(2) by (auto simp: colour_def)

lemma mem_ok_recolour:
  assumes g: "graph_ok env m0 L Wk" and mo: "mem_ok m0 L Wk m" and b: "b \<in> L"
    and h: "h \<in> {Grayhd_hd (m0 (b - 1)), Blackhd_hd (m0 (b - 1))}" and c: "Color_hd h \<noteq> Caml_black \<Longrightarrow> colour m b \<noteq> Caml_black"
  shows "mem_ok m0 L Wk (m(b - 1 := h))"
proof -
  let ?m = "m(b - 1 := h)"
  note D = graph_okD [OF g b]
  have f: "?m (c + i) = m (c + i)" if "c \<in> L" "i < Wosize_bp m0 c" for c i using D(6) [OF that] by simp
  show ?thesis
    unfolding mem_ok_def
  proof (intro conjI ballI allI impI)
    fix x assume x: "x \<in> L"
    show "recoloured m0 ?m x" using mo x h D(9) [OF x] by (auto simp: mem_ok_def recoloured_def)
    fix i assume i: "i < Wosize_bp m0 x" and s: "scanned m0 x"
    show "forwards m0 (m0 (x + i)) (?m (x + i))" using mo x i s f [OF x i] unfolding mem_ok_def by simp
    assume "colour ?m x \<noteq> Caml_black"
    then have "colour m x \<noteq> Caml_black" using c colour_upd [OF g b x, of m h] by (auto split: if_splits)
    then show "?m (x + i) = m0 (x + i)" using mo x i s f [OF x i] unfolding mem_ok_def by simp
  qed (use mo D(5) in \<open>auto simp: mem_ok_def\<close>)
qed

lemma mem_ok_store:
  assumes g: "graph_ok env m0 L Wk" and mo: "mem_ok m0 L Wk m" and a: "a \<notin> headers L" and blk: "Is_block (m a)"
    and w: "a \<in> Wk \<or> (\<exists>b i. a = b + i \<and> b \<in> L \<and> scanned m0 b \<and> i < Wosize_bp m0 b \<and> colour m b = Caml_black \<and> forwards m0 (m0 a) w)"
  shows "mem_ok m0 L Wk (m(a := w))"
proof -
  let ?m = "m(a := w)"
  have hd: "?m (x - 1) = m (x - 1)" if "x \<in> L" for x using graph_okD(5) [OF g that] a by auto
  show ?thesis
    unfolding mem_ok_def
  proof (intro conjI ballI allI impI)
    fix x assume x: "x \<in> L"
    show "recoloured m0 ?m x" using mo x hd [OF x] by (simp add: mem_ok_def recoloured_def)
    fix i assume i: "i < Wosize_bp m0 x" and s: "scanned m0 x"
    note D = graph_okD [OF g x]
    show "forwards m0 (m0 (x + i)) (?m (x + i))" using mo x i s w D(7) [OF s i] unfolding mem_ok_def by auto
    assume "colour ?m x \<noteq> Caml_black"
    then have nb: "colour m x \<noteq> Caml_black" using hd [OF x] by (simp add: colour_def)
    have "x + i \<noteq> a" using w D(7) [OF s i] D(10) i nb by metis
    then show "?m (x + i) = m0 (x + i)" using mo x i s nb unfolding mem_ok_def by simp
  next
    fix x assume x: "x \<notin> headers L"
    show "?m x = m0 x" if "Is_long (m0 x)" using that x mo blk by (auto simp: mem_ok_def Is_block_iff)
    show "?m x = m0 x" if "x \<notin> scan_words m0 L" "x \<notin> Wk"
    proof -
      have "x \<noteq> a" using that w graph_okD(7) [OF g] by metis
      then show ?thesis using that x mo by (simp add: mem_ok_def)
    qed
  qed
qed

section \<open>Darkening\<close>

lemma push_gray_cases:
  obtains "gray_vals (push_gray env v s) = gray_vals s @ [v]" and "heap_is_pure (push_gray env v s) = heap_is_pure s"
  | k where "gray_vals (push_gray env v s) = take k (gray_vals s @ [v])" and "\<not> heap_is_pure (push_gray env v s)"
proof -
  have "gray_vals (push_gray env v s) = gray_vals s @ [v] \<and> heap_is_pure (push_gray env v s) = heap_is_pure s \<or>
    (\<exists>k. gray_vals (push_gray env v s) = take k (gray_vals s @ [v])) \<and> \<not> heap_is_pure (push_gray env v s)"
  proof -
    have r: "gray_vals (realloc_gray_vals env t) = gray_vals t \<and> heap_is_pure (realloc_gray_vals env t) = heap_is_pure t \<or>
      (\<exists>k. gray_vals (realloc_gray_vals env t) = take k (gray_vals t)) \<and> \<not> heap_is_pure (realloc_gray_vals env t)" for t
      by (auto simp: realloc_gray_vals_def intro: exI [of _ 0])
    show ?thesis using r [of "s\<lparr>gray_vals := gray_vals s @ [v]\<rparr>"]
      by (auto simp: push_gray_def Let_def simp del: take_append)
  qed
  then show thesis using that by blast
qed

lemma push_gray_other [simp]:
  "heap (push_gray env v s) = heap s" "markhp (push_gray env v s) = markhp s" "mark_chunk (push_gray env v s) = mark_chunk s"
  "mark_limit (push_gray env v s) = mark_limit s" "weak_prev (push_gray env v s) = weak_prev s"
  "weak_list_head_addr (push_gray env v s) = weak_list_head_addr s" "caml_gc_phase (push_gray env v s) = caml_gc_phase s"
  "caml_gc_subphase (push_gray env v s) = caml_gc_subphase s" "caml_heap_start (push_gray env v s) = caml_heap_start s"
  "final_table (push_gray env v s) = final_table s"
  by (simp_all add: push_gray_def realloc_gray_vals_def Let_def)

lemma store_other [simp]:
  "gmem (store a w s) = (gmem s)(a := w)" "gray_vals (store a w s) = gray_vals s" "heap_is_pure (store a w s) = heap_is_pure s"
  "markhp (store a w s) = markhp s" "mark_chunk (store a w s) = mark_chunk s"
  "mark_limit (store a w s) = mark_limit s" "weak_prev (store a w s) = weak_prev s"
  "weak_list_head_addr (store a w s) = weak_list_head_addr s" "caml_gc_phase (store a w s) = caml_gc_phase s"
  "caml_gc_subphase (store a w s) = caml_gc_subphase s" "caml_heap_start (store a w s) = caml_heap_start s"
  "final_table (store a w s) = final_table s" "heap (store a w s) = (heap s)\<lparr>fl_mem := (gmem s)(a := w)\<rparr>"
  by (simp_all add: store_def)

lemma tricolour_darker:
  assumes "tricolour env m0 L ex m" and g: "graph_ok env m0 L Wk"
    and "\<And>b. b \<in> L \<Longrightarrow> colour m b \<noteq> Caml_white \<Longrightarrow> colour m' b \<noteq> Caml_white"
    and "\<And>b. b \<in> L \<Longrightarrow> colour m' b = Caml_black \<Longrightarrow> colour m b = Caml_black \<or> \<not> scanned m0 b \<or> (\<forall>i. ex b i)"
  shows "tricolour env m0 L ex m'"
  unfolding tricolour_def
proof (intro ballI allI impI)
  fix b i assume b: "b \<in> L" "colour m' b = Caml_black" "scanned m0 b" "i < Wosize_bp m0 b" "\<not> ex b i" "pointer env (m0 (b + i))"
  then have "colour m b = Caml_black" using assms(4) by blast
  then have "colour m (target m0 (m0 (b + i))) \<noteq> Caml_white" using assms(1) b unfolding tricolour_def by blast
  then show "colour m' (target m0 (m0 (b + i))) \<noteq> Caml_white"
    using assms(3) graph_okD(8) [OF g b(1,3,4,6)] by blast
qed

lemma stack_ok_take: "stack_ok L m st \<Longrightarrow> stack_ok L m (take k st)"
  by (auto simp: stack_ok_def take_map [symmetric] dest: in_set_takeD)

lemma marking_gray:
  assumes g: "graph_ok env m0 L Wk" and mk: "marking env m0 L Wk R rest ex s" and c: "c \<in> L" "colour (gmem s) c = Caml_white"
    and v: "Op_val v = c" and R: "R \<subseteq> L"
  defines "s' \<equiv> push_gray env v (store (c - 1) (Grayhd_hd (gmem s (c - 1))) s)"
  shows "marking env m0 L Wk (insert c R) rest ex s'"
    and "b \<in> L \<Longrightarrow> colour (gmem s') b = (if b = c then Caml_gray else colour (gmem s) b)"
proof -
  let ?m = "gmem s" and ?m' = "gmem s'"
  have mo: "mem_ok m0 L Wk ?m" and tc: "tricolour env m0 L ex ?m" and st: "stack_ok L ?m (gray_vals s)"
    using mk unfolding marking_def by blast+
  have w: "?m (c - 1) = m0 (c - 1)" using recoloured_white mo c unfolding mem_ok_def by blast
  have m': "?m' = ?m(c - 1 := Grayhd_hd (m0 (c - 1)))" using w by (simp add: s'_def)
  have col: "colour ?m' b = (if b = c then Caml_gray else colour ?m b)" if "b \<in> L" for b
    using colour_upd [OF g c(1) that] by (simp add: m' recolour_colour)
  then show "colour ?m' b = (if b = c then Caml_gray else colour ?m b)" if "b \<in> L" using that .
  have "mem_ok m0 L Wk ?m'" unfolding m' by (rule mem_ok_recolour [OF g mo c(1)]) (use c in simp_all)
  moreover have "tricolour env m0 L ex ?m'"
    by (rule tricolour_darker [OF tc g]) (auto simp: col split: if_splits)
  moreover have fresh: "c \<notin> Op_val ` set (gray_vals s)" using st c by (auto simp: stack_ok_def)
  have st': "stack_ok L ?m' (gray_vals s @ [v])"
    using st fresh v c by (auto simp: stack_ok_def col)
  have acc: "b \<in> Op_val ` set (gray_vals s @ [v]) \<or> b \<in> rest" if "heap_is_pure s" "b \<in> L" "colour ?m' b = Caml_gray" for b
    using mk that v by (cases "b = c") (auto simp: marking_def col)
  have "stack_ok L ?m' (gray_vals s') \<and> (heap_is_pure s' \<longrightarrow>
      (\<forall>b \<in> L. colour ?m' b = Caml_gray \<longrightarrow> b \<in> Op_val ` set (gray_vals s') \<or> b \<in> rest))"
    unfolding s'_def
  proof (rule push_gray_cases [of env v "store (c - 1) (Grayhd_hd (?m (c - 1))) s"], goal_cases)
    case 1
    then show ?case using st' acc unfolding s'_def by (auto simp del: fun_upd_apply)
  next
    case (2 k)
    then show ?case using stack_ok_take [OF st', of k] unfolding s'_def by (simp del: fun_upd_apply take_append)
  qed
  moreover have "colour ?m' b \<noteq> Caml_white" if b: "b \<in> insert c R" for b
  proof -
    have "b \<in> L" "b \<noteq> c \<Longrightarrow> colour ?m b \<noteq> Caml_white" using b R c mk by (auto simp: marking_def)
    then show ?thesis using col by simp
  qed
  ultimately show "marking env m0 L Wk (insert c R) rest ex s'" unfolding marking_def by blast
qed

lemma marking_leaf:
  assumes g: "graph_ok env m0 L Wk" and mk: "marking env m0 L Wk R rest ex s" and c: "c \<in> L" "colour (gmem s) c = Caml_white"
    and leaf: "\<not> scanned m0 c" and R: "R \<subseteq> L"
  defines "s' \<equiv> store (c - 1) (Blackhd_hd (gmem s (c - 1))) s"
  shows "marking env m0 L Wk (insert c R) rest ex s'"
    and "b \<in> L \<Longrightarrow> colour (gmem s') b = (if b = c then Caml_black else colour (gmem s) b)"
proof -
  let ?m = "gmem s" and ?m' = "gmem s'"
  have mo: "mem_ok m0 L Wk ?m" and tc: "tricolour env m0 L ex ?m" and st: "stack_ok L ?m (gray_vals s)"
    using mk unfolding marking_def by blast+
  have w: "?m (c - 1) = m0 (c - 1)" using recoloured_white mo c unfolding mem_ok_def by blast
  have m': "?m' = ?m(c - 1 := Blackhd_hd (m0 (c - 1)))" using w by (simp add: s'_def)
  have col: "colour ?m' b = (if b = c then Caml_black else colour ?m b)" if "b \<in> L" for b
    using colour_upd [OF g c(1) that] by (simp add: m' recolour_colour)
  then show "colour ?m' b = (if b = c then Caml_black else colour ?m b)" if "b \<in> L" using that .
  have mo': "mem_ok m0 L Wk ?m'" unfolding m' by (rule mem_ok_recolour [OF g mo c(1)]) (simp_all add: recolour_colour)
  have tc': "tricolour env m0 L ex ?m'"
    by (rule tricolour_darker [OF tc g]) (use leaf in \<open>auto simp: col split: if_splits\<close>)
  have gv: "gray_vals s' = gray_vals s" "heap_is_pure s' = heap_is_pure s" by (simp_all add: s'_def)
  have st': "stack_ok L ?m' (gray_vals s')" using st c by (auto simp: stack_ok_def col gv)
  have "colour ?m' b \<noteq> Caml_white" if b: "b \<in> insert c R" for b
  proof -
    have "b \<in> L" "b \<noteq> c \<Longrightarrow> colour ?m b \<noteq> Caml_white" using b R c mk by (auto simp: marking_def)
    then show ?thesis using col by simp
  qed
  moreover have "\<forall>b \<in> L. colour ?m' b = Caml_gray \<longrightarrow> b \<in> Op_val ` set (gray_vals s') \<or> b \<in> rest" if "heap_is_pure s'"
    using mk that by (auto simp: marking_def col gv split: if_splits)
  ultimately show "marking env m0 L Wk (insert c R) rest ex s'" unfolding marking_def using mo' tc' st' by blast
qed

lemma marking_store:
  assumes g: "graph_ok env m0 L Wk" and mk: "marking env m0 L Wk R rest ex s" and R: "R \<subseteq> L"
    and a: "a \<notin> headers L" and mo: "mem_ok m0 L Wk ((gmem s)(a := w))"
  shows "marking env m0 L Wk R rest ex (store a w s)" and "b \<in> L \<Longrightarrow> colour (gmem (store a w s)) b = colour (gmem s) b"
proof -
  have col: "colour ((gmem s)(a := w)) b = colour (gmem s) b" if "b \<in> L" for b using colour_other [OF g a that] .
  then show "colour (gmem (store a w s)) b = colour (gmem s) b" if "b \<in> L" using that by simp
  have "tricolour env m0 L ex ((gmem s)(a := w))"
    by (rule tricolour_darker [OF _ g]) (use mk in \<open>auto simp: marking_def col\<close>)
  moreover have "stack_ok L ((gmem s)(a := w)) (gray_vals s)" using mk by (auto simp: marking_def stack_ok_def col)
  ultimately show "marking env m0 L Wk R rest ex (store a w s)"
    using mk mo R unfolding marking_def by (auto simp: col subset_iff)
qed

definition darker :: "ptr set \<Rightarrow> ptr set \<Rightarrow> memory \<Rightarrow> memory \<Rightarrow> bool" where
  "darker L Wk m m' \<longleftrightarrow> (\<forall>b \<in> L. colour m b = Caml_black \<longrightarrow> colour m' b = Caml_black) \<and> (\<forall>a \<in> Wk. m' a = m a)"

lemma darker_refl [simp]: "darker L Wk m m"
  by (simp add: darker_def)

lemma darker_trans: "darker L Wk m m' \<Longrightarrow> darker L Wk m' m'' \<Longrightarrow> darker L Wk m m''"
  by (simp add: darker_def)

lemma marking_weaken: "marking env m0 L Wk R rest ex s \<Longrightarrow> R' \<subseteq> R \<Longrightarrow> marking env m0 L Wk R' rest ex s"
  by (auto simp: marking_def)

lemma caml_darken_marking:
  assumes g: "graph_ok env m0 L Wk" and mk: "marking env m0 L Wk R rest ex s" and R: "R \<subseteq> L"
    and t: "pointer env v \<Longrightarrow> target m0 v \<in> L"
  shows "marking env m0 L Wk (R \<union> {b. pointer env v \<and> b = target m0 v}) rest ex (caml_darken env v s)"
    and "darker L Wk (gmem s) (gmem (caml_darken env v s))"
proof -
  let ?m = "gmem s" and ?t = "target m0 v"
  have mo: "mem_ok m0 L Wk ?m" using mk by (simp add: marking_def)
  have *: "marking env m0 L Wk (R \<union> {b. pointer env v \<and> b = ?t}) rest ex (caml_darken env v s) \<and>
      darker L Wk ?m (gmem (caml_darken env v s))"
  proof (cases "pointer env v")
    case False
    then show ?thesis using mk by (auto simp: caml_darken_def pointer_def)
  next
    case True
    note tL = t [OF True] and tW = graph_okD(4) [OF g t [OF True]]
    note hr = header_read [OF g mo tL]
    define u where "u = (if Tag_hd (Hd_val ?m v) = Infix_tag then v - Infix_offset_val ?m v else v)"
    have u: "Op_val u = ?t" using hr(2) by (auto simp: u_def target_def split: if_splits)
    have hd: "Hd_val ?m u = ?m (?t - 1)" by (simp add: Hd_val_def u)
    have rc: "recoloured m0 ?m ?t" using mo tL by (simp add: mem_ok_def)
    have sc: "Tag_hd (?m (?t - 1)) < No_scan_tag \<longleftrightarrow> scanned m0 ?t" using recoloured_tag [OF rc] by (simp add: scanned_def)
    have wh: "Is_white_hd (?m (?t - 1)) \<longleftrightarrow> colour ?m ?t = Caml_white" by (simp add: Is_white_hd_def colour_def)
    have e: "caml_darken env v s = (if colour ?m ?t = Caml_white
        then if scanned m0 ?t then push_gray env u (store (?t - 1) (Grayhd_hd (?m (?t - 1))) s)
             else store (?t - 1) (Blackhd_hd (?m (?t - 1))) s
        else s)"
      using True unfolding caml_darken_def Let_def u_def [symmetric] hd u sc wh by (simp add: pointer_def)
    consider "colour ?m ?t \<noteq> Caml_white" | (gray) "colour ?m ?t = Caml_white" "scanned m0 ?t"
      | (leaf) "colour ?m ?t = Caml_white" "\<not> scanned m0 ?t" by blast
    then show ?thesis
    proof cases
      case 1
      then show ?thesis unfolding e using mk True by (auto simp: marking_def)
    next
      case gray
      note G = marking_gray [OF g mk tL gray(1) u R]
      show ?thesis unfolding e using gray True G(1) G(2) tW by (auto simp: darker_def)
    next
      case leaf
      note G = marking_leaf [OF g mk tL leaf R]
      show ?thesis unfolding e using leaf True G(1) G(2) tW by (auto simp: darker_def)
    qed
  qed
  then show "marking env m0 L Wk (R \<union> {b. pointer env v \<and> b = ?t}) rest ex (caml_darken env v s)"
    "darker L Wk ?m (gmem (caml_darken env v s))" by blast+
qed

lemma caml_darken_other [simp]:
  "markhp (caml_darken env v s) = markhp s" "mark_chunk (caml_darken env v s) = mark_chunk s"
  "mark_limit (caml_darken env v s) = mark_limit s" "weak_prev (caml_darken env v s) = weak_prev s"
  "weak_list_head_addr (caml_darken env v s) = weak_list_head_addr s" "caml_gc_phase (caml_darken env v s) = caml_gc_phase s"
  "caml_gc_subphase (caml_darken env v s) = caml_gc_subphase s" "caml_heap_start (caml_darken env v s) = caml_heap_start s"
  "final_table (caml_darken env v s) = final_table s"
  "(heap (caml_darken env v s))\<lparr>fl_mem := m\<rparr> = (heap s)\<lparr>fl_mem := m\<rparr>"
  by (simp_all add: caml_darken_def Let_def)

section \<open>Scanning a block\<close>

lemma tricolour_next:
  assumes "tricolour env m0 L (\<lambda>c j. c = b \<and> i \<le> j) m"
    and "pointer env (m0 (b + i)) \<Longrightarrow> colour m (target m0 (m0 (b + i))) \<noteq> Caml_white"
  shows "tricolour env m0 L (\<lambda>c j. c = b \<and> Suc i \<le> j) m"
  using assms unfolding tricolour_def by (metis Suc_leI le_neq_implies_less)

lemma marking_next:
  assumes "marking env m0 L Wk R rest (\<lambda>c j. c = b \<and> i \<le> j) s"
    and "pointer env (m0 (b + i)) \<Longrightarrow> colour (gmem s) (target m0 (m0 (b + i))) \<noteq> Caml_white"
  shows "marking env m0 L Wk R rest (\<lambda>c j. c = b \<and> Suc i \<le> j) s"
  using assms tricolour_next unfolding marking_def by blast

text \<open>The value stored when a forward block is bypassed.\<close>

lemma forward_field:
  assumes g: "graph_ok env m0 L Wk" and mo: "mem_ok m0 L Wk m" and t: "target m0 v \<in> L" and f: "Tag_hd (Hd_val m0 v) = Forward_tag"
  shows "forwards m0 v (Field m v 0)"
proof -
  have o: "Op_val v = target m0 v" using f by (simp add: target_def)
  have tag: "Tag_hd (m0 (Op_val v - 1)) = Forward_tag" using f by (simp add: Hd_val_def)
  then have "1 \<le> Wosize_bp m0 (Op_val v)" using g t unfolding graph_ok_def o by blast
  moreover have "scanned m0 (Op_val v)" unfolding scanned_def tag by simp
  ultimately have "forwards m0 (m0 (Op_val v + 0)) (m (Op_val v + 0))" using mo t unfolding mem_ok_def o by fastforce
  then show ?thesis using f by (auto simp: Field_def intro: forwards.bypass)
qed

lemma mark_field_marking:
  assumes g: "graph_ok env m0 L Wk" and mk: "marking env m0 L Wk R rest (\<lambda>c j. c = b \<and> i \<le> j) s" and R: "R \<subseteq> L"
    and b: "b \<in> L" "scanned m0 b" "colour (gmem s) b = Caml_black" "i < Wosize_bp m0 b" "gmem s (b + i) = m0 (b + i)" "Op_val v = b"
  shows "marking env m0 L Wk R rest (\<lambda>c j. c = b \<and> Suc i \<le> j) (mark_field env v i s)"
    and "darker L Wk (gmem s) (gmem (mark_field env v i s))"
    and "\<And>j. j < Wosize_bp m0 b \<Longrightarrow> j \<noteq> i \<Longrightarrow> gmem (mark_field env v i s) (b + j) = gmem s (b + j)"
proof -
  let ?m = "gmem s" and ?c = "m0 (b + i)" and ?s' = "mark_field env v i s"
  let ?ex = "\<lambda>c j. c = b \<and> i \<le> j"
  have mo: "mem_ok m0 L Wk ?m" using mk by (simp add: marking_def)
  have child: "Field ?m v i = ?c" using b by (simp add: Field_def)
  have *: "marking env m0 L Wk R rest (\<lambda>c j. c = b \<and> Suc i \<le> j) ?s' \<and> darker L Wk ?m (gmem ?s') \<and>
    (\<forall>j. j < Wosize_bp m0 b \<longrightarrow> j \<noteq> i \<longrightarrow> gmem ?s' (b + j) = ?m (b + j))"
  proof (cases "pointer env ?c")
    case False
    then have "(Is_block ?c \<and> Is_in_heap env ?c) = False" by (auto simp: pointer_def)
    then have "?s' = s" unfolding mark_field_def Let_def child by (simp only: if_False)
    then show ?thesis using marking_next [OF mk] False by simp
  next
    case True
    let ?t = "target m0 ?c"
    have tL: "?t \<in> L" by (rule graph_okD(8) [OF g b(1,2,4) True])
    note hr = header_read [OF g mo tL]
    define s1 where "s1 = (if Tag_hd (Hd_val ?m ?c) = Forward_tag \<and> \<not> (Is_block (Forward_val ?m ?c) \<and> keep_forward env ?m (Forward_val ?m ?c))
      then store (b + i) (Forward_val ?m ?c) s else s)"
    define u where "u = (if Tag_hd (Hd_val ?m ?c) = Infix_tag then ?c - Infix_offset_val ?m ?c else ?c)"
    have u: "Op_val u = ?t" using hr(2) by (auto simp: u_def target_def split: if_splits)
    have bi: "b + i \<notin> headers L" "b + i \<notin> Wk" using graph_okD(7) [OF g b(1,2,4)] by blast+
    have th: "b + i \<noteq> ?t - 1" using graph_okD(6) [OF g tL b(1,4)] .
    have m1: "marking env m0 L Wk R rest ?ex s1 \<and> (\<forall>x \<in> L. colour (gmem s1) x = colour ?m x)"
    proof (cases "s1 = s")
      case False
      then have f: "Tag_hd (Hd_val ?m ?c) = Forward_tag" "s1 = store (b + i) (Forward_val ?m ?c) s" by (auto simp: s1_def split: if_splits)
      have "forwards m0 ?c (Forward_val ?m ?c)" using forward_field [OF g mo tL] f(1) hr(1) by simp
      moreover have "Is_block (?m (b + i))" using True b(5) by (simp add: pointer_def)
      ultimately have "mem_ok m0 L Wk (?m(b + i := Forward_val ?m ?c))"
        by (intro mem_ok_store [OF g mo bi(1)]) (use b in auto)
      from marking_store [OF g mk R bi(1) this] show ?thesis unfolding f(2) by blast
    qed (use mk in simp)
    have wk1: "gmem s1 a = ?m a" if "a \<in> Wk" for a using bi(2) that by (auto simp: s1_def)
    have hd1: "gmem s1 (?t - 1) = ?m (?t - 1)" using th by (auto simp: s1_def)
    have e: "?s' = (if colour ?m ?t = Caml_white then push_gray env u (store (?t - 1) (Grayhd_hd (gmem s1 (?t - 1))) s1) else s1)"
    proof -
      have nf: "Forward_tag \<noteq> Infix_tag" by simp
      have hdu: "(if Tag_hd (Hd_val ?m ?c) \<noteq> Forward_tag \<and> Tag_hd (Hd_val ?m ?c) = Infix_tag then Hd_val ?m u else Hd_val ?m ?c) = ?m (?t - 1)"
      proof (cases "Tag_hd (Hd_val ?m ?c) = Infix_tag")
        case True
        then show ?thesis by (simp add: Hd_val_def u)
      next
        case False
        then have "Op_val ?c = ?t" using u by (simp add: u_def)
        then show ?thesis using False by (simp add: Hd_val_def)
      qed
      have uu: "(if Tag_hd (Hd_val ?m ?c) \<noteq> Forward_tag \<and> Tag_hd (Hd_val ?m ?c) = Infix_tag then ?c - Infix_offset_val ?m ?c else ?c) = u"
        by (simp add: u_def)
      have ss: "(if Tag_hd (Hd_val ?m ?c) = Forward_tag then if Is_block (Forward_val ?m ?c) \<and> keep_forward env ?m (Forward_val ?m ?c) then s
         else store (Op_val v + i) (Forward_val ?m ?c) s else s) = s1" using b(6) by (simp add: s1_def)
      have wh: "Is_white_hd (?m (?t - 1)) \<longleftrightarrow> colour ?m ?t = Caml_white" by (simp add: Is_white_hd_def colour_def)
      have p: "(Is_block ?c \<and> Is_in_heap env ?c) = True" using True by (simp add: pointer_def)
      show ?thesis unfolding mark_field_def Let_def child p if_True uu hdu ss wh u hd1 ..
    qed
    have fr: "gmem ?s' (b + j) = ?m (b + j)" if j: "j < Wosize_bp m0 b" "j \<noteq> i" for j
    proof -
      have "b + j \<noteq> ?t - 1" using graph_okD(6) [OF g tL b(1) j(1)] .
      then show ?thesis using j(2) unfolding e by (auto simp: s1_def)
    qed
    have "marking env m0 L Wk R rest ?ex ?s' \<and> darker L Wk ?m (gmem ?s') \<and> colour (gmem ?s') ?t \<noteq> Caml_white"
    proof (cases "colour ?m ?t = Caml_white")
      case False
      then show ?thesis unfolding e using m1 tL wk1 by (auto simp: darker_def)
    next
      case True
      then have "colour (gmem s1) ?t = Caml_white" using m1 tL by simp
      note G = marking_gray [OF g conjunct1 [OF m1] tL this u R]
      show ?thesis unfolding e using True G(2) m1 marking_weaken [OF G(1)] tL wk1 graph_okD(4) [OF g tL] by (auto simp: darker_def)
    qed
    then show ?thesis using marking_next fr by blast
  qed
  then show "marking env m0 L Wk R rest (\<lambda>c j. c = b \<and> Suc i \<le> j) ?s'" "darker L Wk ?m (gmem ?s')"
    "\<And>j. j < Wosize_bp m0 b \<Longrightarrow> j \<noteq> i \<Longrightarrow> gmem ?s' (b + j) = ?m (b + j)" by blast+
qed

abbreviation settled :: "ptr \<Rightarrow> nat \<Rightarrow> bool" where
  "settled \<equiv> \<lambda>b i. False"

lemma marking_ex:
  assumes "marking env m0 L Wk R rest ex s"
    and "\<And>b i. b \<in> L \<Longrightarrow> scanned m0 b \<Longrightarrow> i < Wosize_bp m0 b \<Longrightarrow> ex b i \<Longrightarrow> ex' b i"
  shows "marking env m0 L Wk R rest ex' s"
proof -
  have "tricolour env m0 L ex (gmem s)" using assms(1) by (simp add: marking_def)
  then have "tricolour env m0 L ex' (gmem s)" using assms(2) unfolding tricolour_def by blast
  then show ?thesis using assms(1) by (simp add: marking_def)
qed

lemma mark_fields_marking:
  assumes g: "graph_ok env m0 L Wk" and R: "R \<subseteq> L" and b: "b \<in> L" "scanned m0 b" "Op_val v = b"
    and mk: "marking env m0 L Wk R rest (\<lambda>c j. c = b \<and> k \<le> j) s" and "colour (gmem s) b = Caml_black" and "k \<le> Wosize_bp m0 b"
    and "\<And>j. k \<le> j \<Longrightarrow> j < Wosize_bp m0 b \<Longrightarrow> gmem s (b + j) = m0 (b + j)"
  defines "s' \<equiv> fold (mark_field env v) [k..<Wosize_bp m0 b] s"
  shows "marking env m0 L Wk R rest settled s' \<and> darker L Wk (gmem s) (gmem s')"
  using mk assms(7-9) unfolding s'_def
proof (induction "Wosize_bp m0 b - k" arbitrary: k s)
  case 0
  then show ?case using marking_ex [OF 0(2), of settled] by auto
next
  case (Suc d)
  let ?s1 = "mark_field env v k s"
  have k: "k < Wosize_bp m0 b" using Suc.hyps(2) by simp
  note F = mark_field_marking [OF g Suc.prems(1) R b(1,2) Suc.prems(2) k Suc.prems(4) [OF order_refl k] b(3)]
  have "colour (gmem ?s1) b = Caml_black" using F(2) Suc.prems(2) b(1) by (simp add: darker_def)
  moreover have "gmem ?s1 (b + j) = m0 (b + j)" if "Suc k \<le> j" "j < Wosize_bp m0 b" for j
    using F(3) [of j] Suc.prems(4) [of j] that by simp
  ultimately have "marking env m0 L Wk R rest settled (fold (mark_field env v) [Suc k..<Wosize_bp m0 b] ?s1) \<and>
      darker L Wk (gmem ?s1) (gmem (fold (mark_field env v) [Suc k..<Wosize_bp m0 b] ?s1))"
    using Suc.hyps k F(1) by (intro Suc.hyps(1)) auto
  then show ?case using F(2) k by (auto simp: upt_conv_Cons intro: darker_trans)
qed

lemma marking_pop:
  assumes g: "graph_ok env m0 L Wk" and mk: "marking env m0 L Wk R rest settled s" and R: "R \<subseteq> L" and st: "gray_vals s = st @ [v]"
  defines "s' \<equiv> store (Op_val v - 1) (Blackhd_hd (gmem s (Op_val v - 1))) (s\<lparr>gray_vals := st\<rparr>)"
  shows "marking env m0 L Wk R rest (\<lambda>c j. c = Op_val v \<and> 0 \<le> j) s'" and "Op_val v \<in> L" and "colour (gmem s) (Op_val v) = Caml_gray"
    and "b \<in> L \<Longrightarrow> colour (gmem s') b = (if b = Op_val v then Caml_black else colour (gmem s) b)"
    and "recoloured m0 (gmem s) (Op_val v)"
proof -
  let ?m = "gmem s" and ?m' = "gmem s'" and ?v = "Op_val v"
  have mo: "mem_ok m0 L Wk ?m" and tc: "tricolour env m0 L settled ?m" and so: "stack_ok L ?m (st @ [v])"
    using mk unfolding marking_def st by blast+
  show v: "?v \<in> L" and gr: "colour ?m ?v = Caml_gray" using so by (auto simp: stack_ok_def)
  show rc: "recoloured m0 ?m ?v" using mo v by (simp add: mem_ok_def)
  have "?m (?v - 1) = Grayhd_hd (m0 (?v - 1))" by (rule recoloured_gray [OF rc graph_okD(2) [OF g v] gr])
  then have m': "?m' = ?m(?v - 1 := Blackhd_hd (m0 (?v - 1)))" by (simp add: s'_def)
  have col: "colour ?m' b = (if b = ?v then Caml_black else colour ?m b)" if "b \<in> L" for b
    using colour_upd [OF g v that] by (simp add: m' recolour_colour)
  then show "colour ?m' b = (if b = ?v then Caml_black else colour ?m b)" if "b \<in> L" using that .
  have gv: "gray_vals s' = st" "heap_is_pure s' = heap_is_pure s" by (simp_all add: s'_def)
  have "mem_ok m0 L Wk ?m'" unfolding m' by (rule mem_ok_recolour [OF g mo v]) (simp_all add: recolour_colour)
  moreover have "tricolour env m0 L (\<lambda>c j. c = ?v \<and> 0 \<le> j) ?m'"
  proof (rule tricolour_darker [OF _ g])
    show "tricolour env m0 L (\<lambda>c j. c = ?v \<and> 0 \<le> j) ?m" using tc by (auto simp: tricolour_def)
  qed (auto simp: col split: if_splits)
  moreover have "stack_ok L ?m' st"
  proof -
    have "?v \<notin> Op_val ` set st" using so by (simp add: stack_ok_def)
    then have "Op_val u \<noteq> ?v" if "u \<in> set st" for u using that by (metis imageI)
    then show ?thesis using so by (auto simp: stack_ok_def col)
  qed
  moreover have "b \<in> Op_val ` set st \<or> b \<in> rest" if h: "heap_is_pure s" "b \<in> L" "colour ?m' b = Caml_gray" for b
  proof -
    have "b \<noteq> ?v" "colour ?m b = Caml_gray" using h(3) col [OF h(2)] by (auto split: if_splits)
    then show ?thesis using mk h(1,2) unfolding marking_def st by auto
  qed
  moreover have "colour ?m' b \<noteq> Caml_white" if b: "b \<in> R" for b
  proof -
    have "b \<in> L" "colour ?m b \<noteq> Caml_white" using b R mk by (auto simp: marking_def)
    then show ?thesis using col by simp
  qed
  ultimately show "marking env m0 L Wk R rest (\<lambda>c j. c = ?v \<and> 0 \<le> j) s'" unfolding marking_def gv by blast
qed

lemma mark_gray_marking:
  assumes g: "graph_ok env m0 L Wk" and mk: "marking env m0 L Wk R rest settled s" and R: "R \<subseteq> L" and ne: "gray_vals s \<noteq> []"
  obtains w s' b where "mark_gray env s = (w, s')" and "1 \<le> w" and "marking env m0 L Wk R rest settled s'"
    and "darker L Wk (gmem s) (gmem s')" and "b \<in> L" and "colour (gmem s) b \<noteq> Caml_black" and "colour (gmem s') b = Caml_black"
proof -
  obtain st v where st: "gray_vals s = st @ [v]" using ne by (metis append_butlast_last_id)
  let ?b = "Op_val v" and ?m = "gmem s"
  define s1 where "s1 = store (?b - 1) (Blackhd_hd (?m (?b - 1))) (s\<lparr>gray_vals := st\<rparr>)"
  note P = marking_pop [OF g mk R st, folded s1_def]
  have hd: "Hd_val ?m v = ?m (?b - 1)" by (simp add: Hd_val_def)
  have sz: "unat (Wosize_hd (?m (?b - 1))) = Wosize_bp m0 ?b" unfolding recoloured_size [OF P(5)] by (simp add: Wosize_bp_def)
  have sc: "Tag_hd (?m (?b - 1)) < No_scan_tag \<longleftrightarrow> scanned m0 ?b" using recoloured_tag [OF P(5)] by (simp add: scanned_def)
  let ?s' = "if scanned m0 ?b then fold (mark_field env v) [0..<Wosize_bp m0 ?b] s1 else s1"
  have e: "mark_gray env s = (int (Wosize_bp m0 ?b) + 1, ?s')"
    unfolding mark_gray_def Let_def st last_snoc butlast_snoc hd sz sc s1_def ..
  have d1: "darker L Wk ?m (gmem s1)" and blk: "colour (gmem s1) ?b = Caml_black"
    using P(2,4) graph_okD(4) [OF g P(2)] by (auto simp: darker_def s1_def)
  have fin: "marking env m0 L Wk R rest settled ?s' \<and> darker L Wk (gmem s1) (gmem ?s')"
  proof (cases "scanned m0 ?b")
    case True
    have "gmem s1 (?b + j) = m0 (?b + j)" if j: "j < Wosize_bp m0 ?b" for j
    proof -
      have "mem_ok m0 L Wk ?m" using mk by (simp add: marking_def)
      then have "?m (?b + j) = m0 (?b + j)" using True j P(2,3) unfolding mem_ok_def by simp
      moreover have "?b + j \<noteq> ?b - 1" using graph_okD(6) [OF g P(2) P(2) j] .
      ultimately show ?thesis by (simp add: s1_def)
    qed
    then have "marking env m0 L Wk R rest settled (fold (mark_field env v) [0..<Wosize_bp m0 ?b] s1) \<and>
        darker L Wk (gmem s1) (gmem (fold (mark_field env v) [0..<Wosize_bp m0 ?b] s1))"
      by (intro mark_fields_marking [OF g R P(2) True refl P(1) blk]) auto
    then show ?thesis using True by simp
  next
    case False
    then show ?thesis using marking_ex [OF P(1), of settled] by auto
  qed
  show thesis
  proof (rule that [OF e])
    show "darker L Wk ?m (gmem ?s')" using darker_trans [OF d1] fin by blast
    show "colour (gmem ?s') ?b = Caml_black" using blk P(2) fin unfolding darker_def by blast
  qed (use fin P(2,3) in simp_all)
qed

end
