(* ===== verification/Major_Heap.thy ===== *)
theory Major_Heap
  imports Major_Mark
begin

text \<open>
  The heap a cycle starts from and what marking leaves of it: the chunks and
  their blocks, the free list, the live blocks and the list of weak arrays. The
  scan of the heap for gray blocks, used when the mark stack overflowed, visits
  every block once and keeps the invariant of marking.
\<close>

section \<open>What marking leaves alone\<close>

definition same_but_marks :: "gc \<Rightarrow> gc \<Rightarrow> bool" where
  "same_but_marks s s' \<longleftrightarrow> (\<forall>m. (heap s')\<lparr>fl_mem := m\<rparr> = (heap s)\<lparr>fl_mem := m\<rparr>) \<and> markhp s' = markhp s \<and> mark_chunk s' = mark_chunk s \<and>
     mark_limit s' = mark_limit s \<and> weak_prev s' = weak_prev s \<and> weak_list_head_addr s' = weak_list_head_addr s \<and>
     caml_gc_phase s' = caml_gc_phase s \<and> caml_gc_subphase s' = caml_gc_subphase s \<and> caml_heap_start s' = caml_heap_start s \<and>
     final_table s' = final_table s"

lemma same_but_marks_refl [simp]: "same_but_marks s s"
  by (simp add: same_but_marks_def)

lemma same_but_marks_trans: "same_but_marks s s' \<Longrightarrow> same_but_marks s' s'' \<Longrightarrow> same_but_marks s s''"
  by (simp add: same_but_marks_def)

lemma same_store [simp]: "same_but_marks s (store a w s)"
  by (simp add: same_but_marks_def store_def)

lemma same_push_gray_store: "same_but_marks s s1 \<Longrightarrow> same_but_marks s (push_gray env v s1)"
  by (simp add: same_but_marks_def)

lemma same_store_store: "same_but_marks s s1 \<Longrightarrow> same_but_marks s (store a w s1)"
  by (simp add: same_but_marks_def store_def)

lemma same_pop: "same_but_marks s s1 \<Longrightarrow> same_but_marks s (s1\<lparr>gray_vals := st\<rparr>)"
  by (simp add: same_but_marks_def)

lemmas same_intros = same_push_gray_store same_store_store same_pop same_but_marks_refl

lemma same_fold: "(\<And>x s. same_but_marks s (f x s)) \<Longrightarrow> same_but_marks s1 s \<Longrightarrow> same_but_marks s1 (fold f xs s)"
proof (induction xs arbitrary: s)
  case (Cons x xs)
  have "same_but_marks s1 (f x s)" using same_but_marks_trans [OF Cons.prems(2) Cons.prems(1)] .
  then show ?case using Cons.IH [OF Cons.prems(1)] by simp
qed simp

lemma same_darken [simp]: "same_but_marks s (caml_darken env v s)"
  by (auto simp: caml_darken_def Let_def intro!: same_intros)

lemma same_mark_field [simp]: "same_but_marks s (mark_field env v i s)"
  by (auto simp: mark_field_def Let_def intro!: same_intros)

lemma same_mark_gray: "mark_gray env s = (w, s') \<Longrightarrow> same_but_marks s s'"
  by (auto simp: mark_gray_def Let_def intro!: same_fold same_intros split: if_splits)

lemma same_weak_clean: "same_but_marks s s1 \<Longrightarrow> same_but_marks s (weak_clean env c i s1)"
  by (auto simp: weak_clean_def Let_def intro!: same_intros)

lemma same_weak_field [simp]: "same_but_marks s (weak_field env c i s)"
  by (auto simp: weak_field_def Let_def intro!: same_weak_clean same_intros)

section \<open>A well-formed heap\<close>

fun wlist :: "memory \<Rightarrow> ptr \<Rightarrow> ptr list \<Rightarrow> bool" where
  "wlist m p [] = (m p = 0)"
| "wlist m p (c # ws) = (m p = val_of_ptr c \<and> wlist m c ws)"

definition weak_words :: "memory \<Rightarrow> ptr \<Rightarrow> ptr list \<Rightarrow> ptr set" where
  "weak_words m cell W = insert cell {c + i | c i. c \<in> set W \<and> i < Wosize_bp m c}"

text \<open>The chunks of the heap, sorted by address and cut into blocks.\<close>

definition chunks_ok :: "memory \<Rightarrow> ptr \<Rightarrow> ptr \<Rightarrow> ptr \<Rightarrow> (ptr \<times> (ptr \<times> nat) list) list \<Rightarrow> bool" where
  "chunks_ok m h cell start cs \<longleftrightarrow>
     (\<exists>bs cs1. cs = (start, bs) # cs1 \<and> 0 < start \<and> consec start bs (start + Chunk_size m start) \<and>
        chunk_chain m start (start + Chunk_size m start) cs1) \<and>
     chunk_heads h (chunk_blocks cs) (map fst cs) \<and> (\<forall>c \<in> fst ` set cs. c - 1 \<noteq> cell \<and> c - 2 \<noteq> cell)"

text \<open>
  The state before a cycle: every block is white or free, the blocks \<open>L\<close> contain
  what the roots and their own fields lead to, and \<open>W\<close> are the weak arrays.
\<close>

definition blocks_ok :: "memory \<Rightarrow> ptr \<Rightarrow> ptr \<Rightarrow> (ptr \<times> nat) list \<Rightarrow> bool" where
  "blocks_ok m h cell bs \<longleftrightarrow> spaced h bs \<and> (\<forall>(b, n) \<in> set bs. Wosize_bp m b = n \<and> colour m b \<in> {Caml_white, Caml_blue}) \<and>
     cell \<notin> fl_words bs \<and> cell \<noteq> h \<and> cell \<noteq> h - 1"

definition live_ok :: "gc_env \<Rightarrow> memory \<Rightarrow> (ptr \<times> nat) list \<Rightarrow> ptr set \<Rightarrow> bool" where
  "live_ok env m bs L \<longleftrightarrow> L \<subseteq> fst ` set bs \<and> (\<forall>b \<in> L. colour m b = Caml_white \<and> Tag_hd (m (b - 1)) \<noteq> Infix_tag \<and>
     (Tag_hd (m (b - 1)) = Forward_tag \<longrightarrow> 1 \<le> Wosize_bp m b) \<and>
     (scanned m b \<longrightarrow> (\<forall>i < Wosize_bp m b. pointer env (m (b + i)) \<longrightarrow> target m (m (b + i)) \<in> L))) \<and>
     (\<forall>r \<in> set (gc_roots env). pointer env r \<longrightarrow> target m r \<in> L)"

definition weak_ok :: "memory \<Rightarrow> ptr \<Rightarrow> (ptr \<times> nat) list \<Rightarrow> ptr list \<Rightarrow> bool" where
  "weak_ok m cell bs W \<longleftrightarrow> set W \<subseteq> fst ` set bs \<and> distinct W \<and> wlist m cell W \<and>
     (\<forall>c \<in> set W. colour m c = Caml_white \<and> \<not> scanned m c \<and> 1 \<le> Wosize_bp m c)"

definition heap_ok :: "gc_env \<Rightarrow> gc \<Rightarrow> (ptr \<times> (ptr \<times> nat) list) list \<Rightarrow> ptr set \<Rightarrow> ptr list \<Rightarrow> bool" where
  "heap_ok env s cs L W \<longleftrightarrow>
     (let m = gmem s; h = Fl_head (heap s); cell = weak_list_head_addr s; bs = chunk_blocks cs
      in blocks_ok m h cell bs \<and> chunks_ok m h cell (caml_heap_start s) cs \<and> live_ok env m bs L \<and> weak_ok m cell bs W \<and>
         fl_ok (heap s) (blues m bs))"

lemma spaced_meet:
  assumes "spaced h bs" and "(b, n) \<in> set bs" and "(c, k) \<in> set bs" and "a \<in> {b - 1..<b + n}" and "a \<in> {c - 1..<c + k}"
  shows "b = c \<and> n = k"
proof -
  have "sorted_wrt (\<lambda>(b, n) (b', n'). b + n < b') bs" using assms(1) by (simp add: spaced_def)
  then have "(b, n) = (c, k) \<or> b + n < c \<or> c + k < b" using assms(2,3)
  proof (induction bs)
    case (Cons x xs)
    then show ?case by (cases x) force
  qed simp
  then show ?thesis using assms(4,5) by auto
qed

lemma blocks_okD:
  assumes "blocks_ok m h cell bs" and "(b, n) \<in> set bs"
  shows "Wosize_bp m b = n" and "colour m b \<in> {Caml_white, Caml_blue}" and "1 < b" and "b + n < 2 ^ 61"
  using assms by (auto simp: blocks_ok_def spaced_def)

lemma blocks_ok_size: "blocks_ok m h cell bs \<Longrightarrow> b \<in> fst ` set bs \<Longrightarrow> (b, Wosize_bp m b) \<in> set bs"
  using blocks_okD(1) by fastforce

lemma heap_ok_parts:
  assumes "heap_ok env s cs L W"
  shows "blocks_ok (gmem s) (Fl_head (heap s)) (weak_list_head_addr s) (chunk_blocks cs)"
    and "chunks_ok (gmem s) (Fl_head (heap s)) (weak_list_head_addr s) (caml_heap_start s) cs"
    and "live_ok env (gmem s) (chunk_blocks cs) L" and "weak_ok (gmem s) (weak_list_head_addr s) (chunk_blocks cs) W"
    and "fl_ok (heap s) (blues (gmem s) (chunk_blocks cs))"
  using assms by (simp_all only: heap_ok_def Let_def)

lemma heap_okD:
  assumes "heap_ok env s cs L W"
  shows "spaced (Fl_head (heap s)) (chunk_blocks cs)"
    and "\<And>b n. (b, n) \<in> set (chunk_blocks cs) \<Longrightarrow> Wosize_bp (gmem s) b = n \<and> colour (gmem s) b \<in> {Caml_white, Caml_blue} \<and> 1 < b \<and> b + n < 2 ^ 61"
    and "weak_list_head_addr s \<notin> fl_words (chunk_blocks cs)"
    and "\<And>b. b \<in> L \<Longrightarrow> (b, Wosize_bp (gmem s) b) \<in> set (chunk_blocks cs)"
    and "\<And>c. c \<in> set W \<Longrightarrow> (c, Wosize_bp (gmem s) c) \<in> set (chunk_blocks cs)"
proof -
  note ok = heap_ok_parts [OF assms]
  show "spaced (Fl_head (heap s)) (chunk_blocks cs)" "weak_list_head_addr s \<notin> fl_words (chunk_blocks cs)"
    using ok(1) unfolding blocks_ok_def by blast+
  show "Wosize_bp (gmem s) b = n \<and> colour (gmem s) b \<in> {Caml_white, Caml_blue} \<and> 1 < b \<and> b + n < 2 ^ 61"
    if "(b, n) \<in> set (chunk_blocks cs)" for b n using blocks_okD [OF ok(1) that] by blast
  show "(b, Wosize_bp (gmem s) b) \<in> set (chunk_blocks cs)" if "b \<in> L" for b
    by (rule blocks_ok_size [OF ok(1)]) (use ok(3) that in \<open>unfold live_ok_def, blast\<close>)
  show "(c, Wosize_bp (gmem s) c) \<in> set (chunk_blocks cs)" if "c \<in> set W" for c
    by (rule blocks_ok_size [OF ok(1)]) (use ok(4) that in \<open>unfold weak_ok_def, blast\<close>)
qed

lemma fl_wordsI: "(b, n) \<in> set bs \<Longrightarrow> b - 1 \<le> a \<Longrightarrow> a < b + n \<Longrightarrow> a \<in> fl_words bs"
  by (force simp: fl_words_def)

lemma heap_ok_meet:
  assumes "heap_ok env s cs L W" and "(b, n) \<in> set (chunk_blocks cs)" and "(c, k) \<in> set (chunk_blocks cs)"
    and "b - 1 \<le> a" "a < b + n" "c - 1 \<le> a" "a < c + k"
  shows "b = c"
  using spaced_meet [OF heap_okD(1) [OF assms(1)] assms(2,3), of a] assms(4-) by simp

lemma heap_ok_words:
  assumes ok: "heap_ok env s cs L W" and "a \<in> headers L \<union> scan_words (gmem s) L \<union> weak_words (gmem s) (weak_list_head_addr s) W"
    and "a \<noteq> weak_list_head_addr s"
  obtains b where "b \<in> L \<union> set W" and "(b, Wosize_bp (gmem s) b) \<in> set (chunk_blocks cs)" and "b - 1 \<le> a" and "a < b + Wosize_bp (gmem s) b"
proof -
  have "\<exists>b \<in> L \<union> set W. b - 1 \<le> a \<and> a < b + Wosize_bp (gmem s) b"
  proof -
    consider b where "b \<in> L" "a = b - 1" | b i where "b \<in> L" "a = b + i" "i < Wosize_bp (gmem s) b"
      | c i where "c \<in> set W" "a = c + i" "i < Wosize_bp (gmem s) c"
      using assms(2,3) unfolding headers_def scan_words_def weak_words_def by blast
    then show ?thesis
    proof cases
      case 1
      then have "1 < b" using heap_okD(2,4) [OF ok] by blast
      then show ?thesis using 1 by (intro bexI [of _ b]) auto
    next
      case 2
      then show ?thesis by (intro bexI [of _ b]) auto
    next
      case 3
      then show ?thesis by (intro bexI [of _ c]) auto
    qed
  qed
  then show thesis using that heap_okD(4,5) [OF ok] by blast
qed

lemma heap_ok_graph:
  assumes ok: "heap_ok env s cs L W"
  shows "graph_ok env (gmem s) L (weak_words (gmem s) (weak_list_head_addr s) W)"
proof -
  let ?m = "gmem s" and ?cell = "weak_list_head_addr s"
  have l: "live_ok env ?m (chunk_blocks cs) L" and w: "weak_ok ?m ?cell (chunk_blocks cs) W"
    using heap_ok_parts [OF ok] by blast+
  have cell: "?cell \<noteq> a" if "(b, n) \<in> set (chunk_blocks cs)" "b - 1 \<le> a" "a < b + n" for a b n
    using heap_okD(3) [OF ok] fl_wordsI [OF that] by metis
  have weak: "a \<notin> weak_words ?m ?cell W" if b: "b \<in> L" "b - 1 \<le> a" "a < b + Wosize_bp ?m b" and "a = b - 1 \<or> scanned ?m b" for a b
  proof
    note bB = heap_okD(4) [OF ok b(1)]
    assume "a \<in> weak_words ?m ?cell W"
    then obtain c i where c: "c \<in> set W" "a = c + i" "i < Wosize_bp ?m c"
      using cell [OF bB b(2,3)] unfolding weak_words_def by blast
    then have "b = c" using heap_ok_meet [OF ok bB heap_okD(5) [OF ok c(1)] b(2,3)] by simp
    then show False using that(4) w c heap_okD(2) [OF ok bB] by (auto simp: weak_ok_def)
  qed
  show ?thesis
    unfolding graph_ok_def
  proof (intro conjI ballI allI impI)
    show "finite L" using l unfolding live_ok_def by (meson finite_imageI finite_subset finite_set)
    fix b assume b: "b \<in> L"
    note bB = heap_okD(4) [OF ok b]
    show b1: "1 < b" using heap_okD(2) [OF ok bB] by blast
    show "colour ?m b = Caml_white" "Tag_hd (?m (b - 1)) \<noteq> Infix_tag" "Tag_hd (?m (b - 1)) = Forward_tag \<Longrightarrow> 1 \<le> Wosize_bp ?m b"
      using l b by (simp_all add: live_ok_def)
    show "b - 1 \<notin> weak_words ?m ?cell W" using weak [OF b] b1 by simp
    fix i assume i: "i < Wosize_bp ?m b"
    show "b + i \<notin> weak_words ?m ?cell W" if "scanned ?m b" using weak [OF b] i that by simp
    show "target ?m (?m (b + i)) \<in> L" if "scanned ?m b" "pointer env (?m (b + i))" using l b i that by (simp add: live_ok_def)
    fix c assume c: "c \<in> L"
    note cB = heap_okD(4) [OF ok c]
    note meet = heap_ok_meet [OF ok bB cB, of "b + i"]
    show "b + i \<noteq> c - 1"
    proof
      assume e: "b + i = c - 1"
      then have "b = c" using meet i heap_okD(2) [OF ok cB] by auto
      then show False using e b1 by simp
    qed
    show "b + i \<noteq> c + j" if "b \<noteq> c" "j < Wosize_bp ?m c" for j
    proof
      assume "b + i = c + j"
      then have "b = c" using i that(2) by (intro meet) linarith+
      then show False using that(1) by simp
    qed
  qed
qed

text \<open>What marking leaves of the heap: sizes, free blocks and the chain of chunks.\<close>

abbreviation marked_mem :: "gc \<Rightarrow> ptr set \<Rightarrow> ptr list \<Rightarrow> memory \<Rightarrow> bool" where
  "marked_mem s0 L W m \<equiv> mem_ok (gmem s0) L (weak_words (gmem s0) (weak_list_head_addr s0) W) m"

lemma marked_mem_other:
  assumes "heap_ok env s0 cs L W" and "marked_mem s0 L W m" and "a \<noteq> weak_list_head_addr s0"
    and "\<And>b. b \<in> L \<union> set W \<Longrightarrow> (b, Wosize_bp (gmem s0) b) \<in> set (chunk_blocks cs) \<Longrightarrow> b - 1 \<le> a \<Longrightarrow> a < b + Wosize_bp (gmem s0) b \<Longrightarrow> False"
  shows "m a = gmem s0 a"
proof -
  have "a \<notin> headers L \<union> scan_words (gmem s0) L \<union> weak_words (gmem s0) (weak_list_head_addr s0) W"
    using heap_ok_words [OF assms(1)] assms(3,4) by blast
  then show ?thesis using assms(2) unfolding mem_ok_def by blast
qed

lemma marked_mem_outside:
  assumes "heap_ok env s0 cs L W" and "marked_mem s0 L W m" and "a \<noteq> weak_list_head_addr s0" and "a \<notin> fl_words (chunk_blocks cs)"
  shows "m a = gmem s0 a"
  by (rule marked_mem_other [OF assms(1-3)]) (use assms(4) fl_wordsI in blast)

lemma marked_mem_header:
  assumes ok: "heap_ok env s0 cs L W" and mo: "marked_mem s0 L W m" and b: "(b, n) \<in> set (chunk_blocks cs)" "b \<notin> L"
  shows "m (b - 1) = gmem s0 (b - 1)"
proof -
  let ?m = "gmem s0" and ?cell = "weak_list_head_addr s0"
  have b1: "1 < b" using heap_okD(2) [OF ok b(1)] by blast
  have "b - 1 \<in> fl_words (chunk_blocks cs)" using b1 by (intro fl_wordsI [OF b(1)]) auto
  then have c: "b - 1 \<noteq> ?cell" using heap_okD(3) [OF ok] by metis
  have n: "b - 1 \<notin> headers L \<union> scan_words ?m L"
  proof
    assume "b - 1 \<in> headers L \<union> scan_words ?m L"
    then obtain c i where ci: "c \<in> L" "b - 1 = c - 1 \<or> b - 1 = c + i \<and> i < Wosize_bp ?m c"
      unfolding headers_def scan_words_def by blast
    note cB = heap_okD(4) [OF ok ci(1)]
    have "b = c" using ci(2) b1 heap_okD(2) [OF ok cB] by (intro heap_ok_meet [OF ok b(1) cB, of "b - 1"]) auto
    then show False using b(2) ci(1) by simp
  qed
  have "b - 1 \<notin> weak_words ?m ?cell W"
  proof
    assume "b - 1 \<in> weak_words ?m ?cell W"
    then obtain c i where ci: "c \<in> set W" "b - 1 = c + i" "i < Wosize_bp ?m c" using c unfolding weak_words_def by blast
    note cB = heap_okD(5) [OF ok ci(1)]
    have "b = c" using ci b1 by (intro heap_ok_meet [OF ok b(1) cB, of "b - 1"]) auto
    then show False using ci(2) b1 by simp
  qed
  then show ?thesis using n mo unfolding mem_ok_def by blast
qed

lemma marked_mem_size:
  assumes ok: "heap_ok env s0 cs L W" and mo: "marked_mem s0 L W m" and b: "(b, n) \<in> set (chunk_blocks cs)"
  shows "Wosize_bp m b = n" and "colour m b = Caml_gray \<Longrightarrow> b \<in> L" and "colour m b = Caml_blue \<longleftrightarrow> colour (gmem s0) b = Caml_blue"
    and "colour m b = Caml_black \<Longrightarrow> b \<in> L"
proof -
  let ?m = "gmem s0"
  have n: "Wosize_bp ?m b = n" and c: "colour ?m b \<in> {Caml_white, Caml_blue}" using heap_okD(2) [OF ok b] by blast+
  have L: "recoloured ?m m b" "colour ?m b = Caml_white" if "b \<in> L"
    using mo graph_okD(2) [OF heap_ok_graph [OF ok] that] that by (simp_all add: mem_ok_def)
  have "Wosize_bp m b = n \<and> (colour m b = Caml_gray \<longrightarrow> b \<in> L) \<and> (colour m b = Caml_blue \<longleftrightarrow> colour (gmem s0) b = Caml_blue) \<and>
      (colour m b = Caml_black \<longrightarrow> b \<in> L)"
  proof (cases "b \<in> L")
    case True
    then show ?thesis
      using recoloured_size [OF L(1)] recoloured_colour [OF L] L(2) n by (auto simp: Wosize_bp_def)
  next
    case False
    then have hd: "m (b - 1) = ?m (b - 1)" by (rule marked_mem_header [OF ok mo b])
    then have "colour m b = colour ?m b" by (simp add: colour_def)
    then show ?thesis using hd n c False by (auto simp: Wosize_bp_def)
  qed
  then show "Wosize_bp m b = n" and "colour m b = Caml_gray \<Longrightarrow> b \<in> L" and "colour m b = Caml_blue \<longleftrightarrow> colour (gmem s0) b = Caml_blue"
    and "colour m b = Caml_black \<Longrightarrow> b \<in> L" by blast+
qed

lemma marked_mem_free:
  assumes ok: "heap_ok env s0 cs L W" and mo: "marked_mem s0 L W m" and b: "(b, n) \<in> set (chunk_blocks cs)" "colour (gmem s0) b = Caml_blue"
    and a: "b - 1 \<le> a" "a < b + n"
  shows "m a = gmem s0 a"
proof (rule marked_mem_other [OF ok mo])
  show "a \<noteq> weak_list_head_addr s0" using heap_okD(3) [OF ok] fl_wordsI [OF b(1) a] by metis
  fix c assume c: "c \<in> L \<union> set W" "(c, Wosize_bp (gmem s0) c) \<in> set (chunk_blocks cs)" "c - 1 \<le> a" "a < c + Wosize_bp (gmem s0) c"
  have "b = c" using heap_ok_meet [OF ok b(1) c(2)] a c(3,4) by blast
  moreover have "colour (gmem s0) c = Caml_white" using c(1) heap_ok_parts(3,4) [OF ok] unfolding live_ok_def weak_ok_def by blast
  ultimately show False using b(2) by simp
qed

lemma marked_mem_chunk:
  assumes ok: "heap_ok env s0 cs L W" and mo: "marked_mem s0 L W m" and c: "c \<in> fst ` set cs"
  shows "Chunk_next m c = Chunk_next (gmem s0) c" and "Chunk_size m c = Chunk_size (gmem s0) c"
proof -
  have "chunk_heads (Fl_head (heap s0)) (chunk_blocks cs) (map fst cs)" and
    "c - 1 \<noteq> weak_list_head_addr s0" "c - 2 \<noteq> weak_list_head_addr s0"
    using heap_ok_parts(2) [OF ok] c unfolding chunks_ok_def by blast+
  then have "c - 1 \<notin> fl_words (chunk_blocks cs)" "c - 2 \<notin> fl_words (chunk_blocks cs)" "c - 1 \<noteq> weak_list_head_addr s0" "c - 2 \<noteq> weak_list_head_addr s0"
    using c by (simp_all only: chunk_heads_def set_map) blast+
  then have "m (c - 1) = gmem s0 (c - 1)" "m (c - 2) = gmem s0 (c - 2)"
    using marked_mem_outside [OF ok mo] by blast+
  then show "Chunk_next m c = Chunk_next (gmem s0) c" "Chunk_size m c = Chunk_size (gmem s0) c"
    by (simp_all only: Chunk_next_def Chunk_size_def)
qed

section \<open>Scanning the heap for gray blocks\<close>

definition scan_at :: "memory \<Rightarrow> (ptr \<times> (ptr \<times> nat) list) list \<Rightarrow> gc \<Rightarrow> (ptr \<times> nat) list \<Rightarrow> (ptr \<times> (ptr \<times> nat) list) list \<Rightarrow> bool" where
  "scan_at m0 cs s rs cs1 \<longleftrightarrow> 0 < markhp s \<and> consec (markhp s) rs (mark_limit s) \<and> chunk_chain m0 (mark_chunk s) (mark_limit s) cs1 \<and>
     set (rs @ chunk_blocks cs1) \<subseteq> set (chunk_blocks cs) \<and> mark_chunk s \<in> fst ` set cs \<and> fst ` set cs1 \<subseteq> fst ` set cs"

definition scan_pos :: "memory \<Rightarrow> (ptr \<times> (ptr \<times> nat) list) list \<Rightarrow> gc \<Rightarrow> ptr set \<Rightarrow> nat \<Rightarrow> bool" where
  "scan_pos m0 cs s rest k \<longleftrightarrow> markhp s = NULL \<and> rest = {} \<and> k = 0 \<or>
     (\<exists>rs cs1. scan_at m0 cs s rs cs1 \<and> rest = fst ` set (rs @ chunk_blocks cs1) \<and> k = Suc (length (rs @ chunk_blocks cs1) + length cs1))"

lemma scan_pos_cong:
  "markhp s' = markhp s \<Longrightarrow> mark_chunk s' = mark_chunk s \<Longrightarrow> mark_limit s' = mark_limit s \<Longrightarrow> scan_pos m0 cs s' rest k = scan_pos m0 cs s rest k"
  by (simp add: scan_pos_def scan_at_def)

lemma marking_rest:
  assumes "marking env m0 L Wk R rest settled s" and "gmem s' = gmem s" and "heap_is_pure s' \<Longrightarrow> heap_is_pure s"
    and "stack_ok L (gmem s) (gray_vals s')"
    and "\<And>b. b \<in> L \<Longrightarrow> colour (gmem s) b = Caml_gray \<Longrightarrow> b \<in> Op_val ` set (gray_vals s) \<union> rest \<Longrightarrow> b \<in> Op_val ` set (gray_vals s') \<union> rest'"
  shows "marking env m0 L Wk R rest' settled s'"
  using assms(1,3-5) unfolding marking_def assms(2) by blast

lemma mark_heap_other [simp]:
  "heap (mark_heap s) = heap s" "heap_is_pure (mark_heap s) = heap_is_pure s" "weak_prev (mark_heap s) = weak_prev s"
  "weak_list_head_addr (mark_heap s) = weak_list_head_addr s" "caml_gc_phase (mark_heap s) = caml_gc_phase s"
  "caml_gc_subphase (mark_heap s) = caml_gc_subphase s" "caml_heap_start (mark_heap s) = caml_heap_start s"
  "final_table (mark_heap s) = final_table s"
  by (simp_all add: mark_heap_def Let_def)

lemma mark_heap_chunk:
  assumes ok: "heap_ok env s0 cs L W" and mo: "marked_mem s0 L W (gmem s)" and at: "scan_at (gmem s0) cs s [] cs1"
  shows "cs1 = [] \<Longrightarrow> mark_heap s = s\<lparr>mark_chunk := NULL, markhp := NULL\<rparr>"
    and "cs1 = (c, bs) # cs2 \<Longrightarrow> scan_at (gmem s0) cs (mark_heap s) bs cs2 \<and> gray_vals (mark_heap s) = gray_vals s"
proof -
  have at': "markhp s = mark_limit s" "chunk_chain (gmem s0) (mark_chunk s) (mark_limit s) cs1" "mark_chunk s \<in> fst ` set cs"
    "set (chunk_blocks cs1) \<subseteq> set (chunk_blocks cs)" "fst ` set cs1 \<subseteq> fst ` set cs"
    using at by (simp_all add: scan_at_def)
  note nx = marked_mem_chunk(1) [OF ok mo at'(3)]
  show "mark_heap s = s\<lparr>mark_chunk := NULL, markhp := NULL\<rparr>" if "cs1 = []"
    using at'(1,2) that by (simp add: mark_heap_def nx Let_def)
  assume cs1: "cs1 = (c, bs) # cs2"
  then have c: "c \<in> fst ` set cs" "Chunk_next (gmem s0) (mark_chunk s) = c" "0 < c"
    "consec c bs (c + Chunk_size (gmem s0) c)" "chunk_chain (gmem s0) c (c + Chunk_size (gmem s0) c) cs2"
    using at' by auto
  have "mark_heap s = s\<lparr>mark_chunk := c, markhp := c, mark_limit := c + Chunk_size (gmem s0) c\<rparr>"
    using at'(1) c by (simp add: mark_heap_def nx marked_mem_chunk(2) [OF ok mo c(1)] Let_def)
  then show "scan_at (gmem s0) cs (mark_heap s) bs cs2 \<and> gray_vals (mark_heap s) = gray_vals s"
    using c at'(4,5) cs1 by (simp add: scan_at_def)
qed

lemma mark_heap_block:
  assumes ok: "heap_ok env s0 cs L W" and mo: "marked_mem s0 L W (gmem s)" and at: "scan_at (gmem s0) cs s ((b, n) # rs) cs1"
  shows "scan_at (gmem s0) cs (mark_heap s) rs cs1"
    and "gray_vals (mark_heap s) = (if colour (gmem s) b = Caml_gray then gray_vals s @ [val_of_ptr b] else gray_vals s)"
    and "(b, n) \<in> set (chunk_blocks cs)"
proof -
  have b: "b = markhp s + 1" and co: "consec (b + n) rs (mark_limit s)" using at by (auto simp: scan_at_def)
  show bB: "(b, n) \<in> set (chunk_blocks cs)" using at by (auto simp: scan_at_def)
  have up: "p \<le> q" if "consec p xs q" for p xs q using that by (induction xs arbitrary: p) force+
  have ne: "markhp s \<noteq> mark_limit s" using up [OF co] b by simp
  have sz: "Wosize_bp (gmem s) b = n" by (rule marked_mem_size(1) [OF ok mo bB])
  have hp: "mark_heap s = (if colour (gmem s) b = Caml_gray then s\<lparr>gray_vals := gray_vals s @ [val_of_ptr b]\<rparr> else s)\<lparr>markhp := b + n\<rparr>"
    using ne sz by (simp add: mark_heap_def Let_def b Is_gray_hd_def colour_def)
  show "gray_vals (mark_heap s) = (if colour (gmem s) b = Caml_gray then gray_vals s @ [val_of_ptr b] else gray_vals s)"
    by (simp add: hp)
  show "scan_at (gmem s0) cs (mark_heap s) rs cs1" using at co b by (simp add: hp scan_at_def)
qed

lemma mark_heap_marking:
  assumes ok: "heap_ok env s0 cs L W" and mk: "marking env (gmem s0) L (weak_words (gmem s0) (weak_list_head_addr s0) W) R rest settled s"
    and pos: "scan_pos (gmem s0) cs s rest k" and st: "gray_vals s = []" and hp: "markhp s \<noteq> NULL"
  obtains rest' k' where "marking env (gmem s0) L (weak_words (gmem s0) (weak_list_head_addr s0) W) R rest' settled (mark_heap s)"
    and "scan_pos (gmem s0) cs (mark_heap s) rest' k'" and "k' < k"
proof -
  obtain rs cs1 where at: "scan_at (gmem s0) cs s rs cs1" and rest: "rest = fst ` set (rs @ chunk_blocks cs1)"
    and k: "k = Suc (length (rs @ chunk_blocks cs1) + length cs1)" using pos hp unfolding scan_pos_def by blast
  have mo: "marked_mem s0 L W (gmem s)" using mk by (simp add: marking_def)
  have stk: "stack_ok L (gmem s) []" by (simp add: stack_ok_def)
  show thesis
  proof (cases rs)
    case Nil
    note ch = mark_heap_chunk [OF ok mo at [unfolded Nil]]
    show thesis
    proof (cases cs1)
      case no: Nil
      have e: "mark_heap s = s\<lparr>mark_chunk := NULL, markhp := NULL\<rparr>" by (rule ch(1) [OF no])
      show thesis
        by (rule that [of "{}" 0]) (use marking_rest [OF mk, of "mark_heap s" "{}"] st stk rest k in \<open>simp_all add: e scan_pos_def Nil no\<close>)
    next
      case (Cons x cs2)
      obtain c bs where x: "x = (c, bs)" by force
      note at' = ch(2) [OF Cons [unfolded x]]
      have r: "rest = fst ` set (bs @ chunk_blocks cs2)" using rest by (simp add: Nil Cons x)
      show thesis
      proof (rule that [of rest "Suc (length (bs @ chunk_blocks cs2) + length cs2)"])
        show "marking env (gmem s0) L (weak_words (gmem s0) (weak_list_head_addr s0) W) R rest settled (mark_heap s)"
          by (rule marking_rest [OF mk]) (use st stk at' in simp_all)
        show "scan_pos (gmem s0) cs (mark_heap s) rest (Suc (length (bs @ chunk_blocks cs2) + length cs2))"
          using at' r unfolding scan_pos_def by blast
      qed (simp add: k Nil Cons x)
    qed
  next
    case (Cons x rs1)
    obtain b n where x: "x = (b, n)" by force
    note bl = mark_heap_block [OF ok mo at [unfolded Cons x]]
    let ?rest = "fst ` set (rs1 @ chunk_blocks cs1)"
    have b: "Op_val (val_of_ptr b) = b" using heap_okD(2) [OF ok bl(3)] by (intro Op_val_of_ptr) simp
    have r: "rest = insert b ?rest" using rest by (simp add: Cons x)
    show thesis
    proof (rule that [of ?rest "Suc (length (rs1 @ chunk_blocks cs1) + length cs1)"])
      show "marking env (gmem s0) L (weak_words (gmem s0) (weak_list_head_addr s0) W) R ?rest settled (mark_heap s)"
        by (rule marking_rest [OF mk]) (use st marked_mem_size(2) [OF ok mo bl(3)] r in \<open>auto simp: bl(2) stack_ok_def b\<close>)
      show "scan_pos (gmem s0) cs (mark_heap s) ?rest (Suc (length (rs1 @ chunk_blocks cs1) + length cs1))"
        using bl(1) unfolding scan_pos_def by blast
    qed (simp add: k Cons x)
  qed
qed

lemma mark_restart_marking:
  assumes ok: "heap_ok env s0 cs L W" and mk: "marking env (gmem s0) L (weak_words (gmem s0) (weak_list_head_addr s0) W) R rest settled s"
    and st: "gray_vals s = []" and start: "caml_heap_start s = caml_heap_start s0"
  obtains rest' k' where "marking env (gmem s0) L (weak_words (gmem s0) (weak_list_head_addr s0) W) R rest' settled (mark_restart s)"
    and "scan_pos (gmem s0) cs (mark_restart s) rest' k'"
proof -
  let ?c = "caml_heap_start s0" and ?bs = "chunk_blocks cs"
  obtain bs cs1 where cs: "cs = (?c, bs) # cs1" "0 < ?c" "consec ?c bs (?c + Chunk_size (gmem s0) ?c)"
    "chunk_chain (gmem s0) ?c (?c + Chunk_size (gmem s0) ?c) cs1"
    using heap_ok_parts(2) [OF ok] unfolding chunks_ok_def by blast
  have mo: "marked_mem s0 L W (gmem s)" using mk by (simp add: marking_def)
  have e: "mark_restart s = s\<lparr>heap_is_pure := True, mark_chunk := ?c, markhp := ?c, mark_limit := ?c + Chunk_size (gmem s0) ?c\<rparr>"
    using marked_mem_chunk(2) [OF ok mo, of ?c] by (simp add: mark_restart_def start cs(1))
  have all: "b \<in> fst ` set ?bs" if "b \<in> L" for b using heap_okD(4) [OF ok that] by (metis fst_conv imageI)
  have bs: "bs @ chunk_blocks cs1 = ?bs" by (simp add: cs(1))
  show thesis
  proof (rule that [of "fst ` set ?bs" "Suc (length ?bs + length cs1)"])
    have "scan_at (gmem s0) cs (mark_restart s) bs cs1" using cs(2-4) by (auto simp: e scan_at_def cs(1))
    then show "scan_pos (gmem s0) cs (mark_restart s) (fst ` set ?bs) (Suc (length ?bs + length cs1))"
      using bs unfolding scan_pos_def by metis
    show "marking env (gmem s0) L (weak_words (gmem s0) (weak_list_head_addr s0) W) R (fst ` set ?bs) settled (mark_restart s)"
      using mk all unfolding marking_def e by simp
  qed
qed

end
