(* ===== verification/Major_Phase.thy ===== *)
theory Major_Phase
  imports Major_Heap
begin

text \<open>
  The marking phase from its first step to its last: weak arrays, values with a
  finaliser, the order of the subphases and the proof that the phase ends. Every
  step keeps the invariant and decreases a lexicographic measure: the blocks not
  yet black, the subphase, the weak arrays to visit, whether the mark stack has
  overflowed, and the blocks the heap scan has still to read.
\<close>

section \<open>Weak arrays\<close>

abbreviation wk :: "gc \<Rightarrow> ptr list \<Rightarrow> ptr set" where
  "wk s0 W \<equiv> weak_words (gmem s0) (weak_list_head_addr s0) W"

lemma weak_not_header: "graph_ok env m0 L Wk \<Longrightarrow> a \<in> Wk \<Longrightarrow> a \<notin> headers L"
  unfolding headers_def using graph_okD(4) by blast

lemma weak_store_marking:
  assumes g: "graph_ok env m0 L Wk" and mk: "marking env m0 L Wk R rest ex s" and R: "R \<subseteq> L" and a: "a \<in> Wk" "Is_block (gmem s a)"
  shows "marking env m0 L Wk R rest ex (store a w s)" and "b \<in> L \<Longrightarrow> colour (gmem (store a w s)) b = colour (gmem s) b"
proof -
  note h = weak_not_header [OF g a(1)]
  have mo: "mem_ok m0 L Wk (gmem s)" using mk by (simp add: marking_def)
  have "mem_ok m0 L Wk ((gmem s)(a := w))" using mem_ok_store [OF g mo h a(2)] a(1) by blast
  then show "marking env m0 L Wk R rest ex (store a w s)" "b \<in> L \<Longrightarrow> colour (gmem (store a w s)) b = colour (gmem s) b"
    using marking_store [OF g mk R h] by blast+
qed

lemma weak_clean_marking:
  assumes g: "graph_ok env m0 L Wk" and mk: "marking env m0 L Wk R rest ex s" and R: "R \<subseteq> L" and a: "c + i \<in> Wk"
  defines "s' \<equiv> weak_clean env c i s"
  shows "marking env m0 L Wk R rest ex s' \<and> (\<forall>b \<in> L. colour (gmem s') b = colour (gmem s) b) \<and> (\<forall>a. a \<noteq> c + i \<longrightarrow> gmem s' a = gmem s a)"
  unfolding s'_def weak_clean_def Let_def using mk weak_store_marking [OF g mk R a] by auto

lemma weak_field_marking:
  assumes g: "graph_ok env m0 L Wk" and mk: "marking env m0 L Wk R rest ex s" and R: "R \<subseteq> L" and a: "c + i \<in> Wk"
  defines "s' \<equiv> weak_field env c i s"
  shows "marking env m0 L Wk R rest ex s' \<and> (\<forall>b \<in> L. colour (gmem s') b = colour (gmem s) b) \<and> (\<forall>a. a \<noteq> c + i \<longrightarrow> gmem s' a = gmem s a)"
proof -
  let ?f = "Forward_val (gmem s) (gmem s (c + i))"
  consider "s' = weak_clean env c i s" | "s' = weak_clean env c i (store (c + i) ?f s)" "Is_block (gmem s (c + i))"
    unfolding s'_def weak_field_def Let_def by metis
  then show ?thesis
  proof cases
    case 1
    then show ?thesis using weak_clean_marking [OF g mk R a] by simp
  next
    case 2
    note st = weak_store_marking [OF g mk R a 2(2), where w = ?f]
    then show ?thesis using weak_clean_marking [OF g st(1) R a] st(2) by (simp add: 2(1))
  qed
qed

lemma weak_fields_marking:
  assumes g: "graph_ok env m0 L Wk" and R: "R \<subseteq> L" and "marking env m0 L Wk R rest ex s" and "\<forall>i \<in> set is. c + i \<in> Wk"
  defines "s' \<equiv> fold (weak_field env c) is s"
  shows "marking env m0 L Wk R rest ex s' \<and> (\<forall>b \<in> L. colour (gmem s') b = colour (gmem s) b) \<and>
    (\<forall>a. a \<notin> (+) c ` set is \<longrightarrow> gmem s' a = gmem s a)"
  using assms(3,4) unfolding s'_def
proof (induction "is" arbitrary: s)
  case (Cons i "is")
  have "c + i \<in> Wk" "\<forall>i \<in> set is. c + i \<in> Wk" using Cons.prems(2) by simp_all
  note F = weak_field_marking [OF g Cons.prems(1) R this(1)]
  show ?case using Cons.IH [OF conjunct1 [OF F]] F \<open>\<forall>i \<in> set is. c + i \<in> Wk\<close> by simp
qed simp

lemma wlist_cong: "wlist m p ws \<Longrightarrow> (\<And>a. a \<in> set (p # ws) \<Longrightarrow> m' a = m a) \<Longrightarrow> wlist m' p ws"
  by (induction ws arbitrary: p) auto

lemma wlist_append: "wlist m p (us @ vs) \<Longrightarrow> wlist m (last (p # us)) vs"
  by (induction us arbitrary: p) auto

lemma wlist_unlink:
  assumes "wlist m p (us @ c # vs)" and "distinct (p # us @ c # vs)"
  shows "wlist (m(last (p # us) := m c)) p (us @ vs)"
  using assms
proof (induction us arbitrary: p)
  case Nil
  show ?case
  proof (cases vs)
    case (Cons d vs')
    then show ?thesis using Nil by (auto intro: wlist_cong [where m = m])
  qed (use Nil in simp)
next
  case (Cons u us)
  have "last (u # us) \<noteq> p" using Cons.prems(2) last_in_set [of "u # us"] by (auto simp del: last_in_set split: if_splits)
  then show ?case using Cons by auto
qed

section \<open>Darkening lists of values\<close>

lemma fold_darken_marking:
  assumes g: "graph_ok env m0 L Wk" and "marking env m0 L Wk R rest ex s" and "R \<subseteq> L"
    and "\<And>v. v \<in> set vs \<Longrightarrow> pointer env v \<Longrightarrow> target m0 v \<in> L"
  defines "s' \<equiv> fold (caml_darken env) vs s"
  shows "marking env m0 L Wk (R \<union> {target m0 v | v. v \<in> set vs \<and> pointer env v}) rest ex s' \<and> darker L Wk (gmem s) (gmem s')"
  using assms(2-4) unfolding s'_def
proof (induction vs arbitrary: s R)
  case (Cons v vs)
  let ?R = "R \<union> {b. pointer env v \<and> b = target m0 v}" and ?s = "caml_darken env v s"
  have t: "pointer env v \<Longrightarrow> target m0 v \<in> L" using Cons.prems(3) by simp
  note D = caml_darken_marking [OF g Cons.prems(1,2) t]
  have "?R \<subseteq> L" using Cons.prems(2) t by auto
  then have I: "marking env m0 L Wk (?R \<union> {target m0 v | v. v \<in> set vs \<and> pointer env v}) rest ex (fold (caml_darken env) vs ?s) \<and>
      darker L Wk (gmem ?s) (gmem (fold (caml_darken env) vs ?s))"
    by (intro Cons.IH [OF D(1)]) (use Cons.prems(3) in simp_all)
  have sub: "R \<union> {target m0 u | u. u \<in> set (v # vs) \<and> pointer env u} \<subseteq> ?R \<union> {target m0 v | v. v \<in> set vs \<and> pointer env v}"
    by auto
  show ?case
    unfolding fold_simps(2) using marking_weaken [OF conjunct1 [OF I] sub] darker_trans [OF D(2) conjunct2 [OF I]] by (rule conjI)
qed simp

text \<open>The values with a finaliser are live, and what an unmarked one forwards to is live.\<close>

definition final_ok :: "gc_env \<Rightarrow> ptr set \<Rightarrow> final \<Rightarrow> bool" where
  "final_ok env L x \<longleftrightarrow> pointer env (final_val x) \<and> Op_val (final_val x) \<in> L"

lemma Tag_hd_Tag_val: "Tag_hd (Hd_val m v) = ucast (Tag_val m v)"
  by (rule bit_eqI) (auto simp: Tag_hd_take_bit Tag_val_def bit_simps)

lemma final_white_target:
  assumes g: "graph_ok env m0 L Wk" and mo: "mem_ok m0 L Wk m" and x: "final_ok env L x"
    and y: "final_white env m x = Todo y" and p: "pointer env (final_val y)"
  shows "target m0 (final_val y) \<in> L"
proof -
  let ?v = "final_val x" and ?b = "Op_val (final_val x)"
  have bL: "?b \<in> L" using x by (simp add: final_ok_def)
  have rc: "recoloured m0 m ?b" using mo bL by (simp add: mem_ok_def)
  have tb: "target m0 ?v = ?b" using graph_okD(3) [OF g bL] by (simp add: target_def Hd_val_def)
  have wh: "colour m ?b = Caml_white" using y by (auto simp: final_white_def Let_def Is_white_val_def Is_white_hd_def Hd_val_def colour_def split: if_splits)
  consider "y = x" | "y = x\<lparr>final_val := Forward_val m ?v\<rparr>" "Tag_val m ?v = 250"
    using y by (auto simp: final_white_def Let_def split: if_splits)
  then show ?thesis
  proof cases
    case 2
    have "Tag_hd (m (?b - 1)) = Forward_tag" using 2(2) Tag_hd_Tag_val [of m ?v] by (simp add: Hd_val_def)
    then have t: "Tag_hd (m0 (?b - 1)) = Forward_tag" using recoloured_tag [OF rc] by simp
    then have sc: "scanned m0 ?b" and sz: "0 < Wosize_bp m0 ?b" using g bL by (auto simp: scanned_def graph_ok_def)
    have "colour m ?b \<noteq> Caml_black" using wh by simp
    then have "m (?b + 0) = m0 (?b + 0)" using mo bL sc sz unfolding mem_ok_def by blast
    then have fv: "final_val y = m0 (?b + 0)" using 2(1) by (simp add: Field_def)
    show ?thesis using graph_okD(8) [OF g bL sc sz] p unfolding fv by blast
  qed (use tb bL in simp)
qed

lemma fold_todo: "fold (\<lambda>x. caml_darken env (final_val x)) xs s = fold (caml_darken env) (map final_val xs) s"
  by (simp add: fold_map comp_def)

lemma caml_final_update_marking:
  assumes g: "graph_ok env m0 L Wk" and mk: "marking env m0 L Wk R rest ex s" and R: "R \<subseteq> L" and x: "\<forall>x \<in> set (final_table s). final_ok env L x"
  defines "s' \<equiv> caml_final_update env s"
  shows "marking env m0 L Wk R rest ex s' \<and> darker L Wk (gmem s) (gmem s')"
    and "same_but_marks s (s'\<lparr>final_table := final_table s\<rparr>)"
proof -
  let ?vs = "map (final_white env (gmem s)) (final_table s)"
  let ?todo = "[x. Todo x \<leftarrow> ?vs]"
  let ?s1 = "s\<lparr>final_table := [x. Keep x \<leftarrow> ?vs], to_do := to_do s @ [?todo]\<rparr>"
  have s': "s' = (if \<exists>x \<in> set (final_table s). Is_white_val (gmem s) (final_val x) then fold (caml_darken env) (map final_val ?todo) ?s1 else s)"
    unfolding s'_def caml_final_update_def Let_def fold_todo ..
  have mo: "mem_ok m0 L Wk (gmem s)" using mk by (simp add: marking_def)
  have t: "target m0 v \<in> L" if v: "v \<in> set (map final_val ?todo)" "pointer env v" for v
  proof -
    obtain x y where "x \<in> set (final_table s)" "final_white env (gmem s) x = Todo y" "v = final_val y"
      using v(1) by (auto split: verdict.splits) metis
    then show ?thesis using final_white_target [OF g mo _ _] assms(4) v(2) by blast
  qed
  have "marking env m0 L Wk R rest ex ?s1" using mk by (simp add: marking_def)
  from fold_darken_marking [where vs = "map final_val ?todo", OF g this R] t
  have "marking env m0 L Wk R rest ex (fold (caml_darken env) (map final_val ?todo) ?s1) \<and>
      darker L Wk (gmem ?s1) (gmem (fold (caml_darken env) (map final_val ?todo) ?s1))"
    using marking_weaken [where R' = R] by blast
  then show "marking env m0 L Wk R rest ex s' \<and> darker L Wk (gmem s) (gmem s')" using mk unfolding s' by simp
  have "same_but_marks ?s1 (fold (caml_darken env) (map final_val ?todo) ?s1)" by (rule same_fold) simp_all
  then show "same_but_marks s (s'\<lparr>final_table := final_table s\<rparr>)" unfolding s' by (auto simp: same_but_marks_def)
qed

section \<open>The phase as a whole\<close>

definition weak_at :: "ptr \<Rightarrow> ptr list \<Rightarrow> ptr list \<Rightarrow> gc \<Rightarrow> bool" where
  "weak_at cell ws vs s \<longleftrightarrow>
     (if caml_gc_subphase s \<in> {Subphase_weak1, Subphase_weak2} then \<exists>us. ws = us @ vs \<and> weak_prev s = last (cell # us) else vs = [])"

definition statics :: "gc \<Rightarrow> gc \<Rightarrow> bool" where
  "statics s0 s \<longleftrightarrow> (\<forall>m. (heap s)\<lparr>fl_mem := m\<rparr> = (heap s0)\<lparr>fl_mem := m\<rparr>) \<and>
     caml_heap_start s = caml_heap_start s0 \<and> weak_list_head_addr s = weak_list_head_addr s0 \<and> caml_gc_phase s = Phase_mark"

definition finals_ok :: "gc_env \<Rightarrow> ptr set \<Rightarrow> gc \<Rightarrow> bool" where
  "finals_ok env L s \<longleftrightarrow> (caml_gc_subphase s \<in> {Subphase_main, Subphase_weak1} \<longrightarrow> (\<forall>x \<in> set (final_table s). final_ok env L x))"

definition phase_inv :: "gc_env \<Rightarrow> gc \<Rightarrow> (ptr \<times> (ptr \<times> nat) list) list \<Rightarrow> ptr set \<Rightarrow> ptr list \<Rightarrow> ptr set \<Rightarrow>
    ptr set \<Rightarrow> ptr list \<Rightarrow> ptr list \<Rightarrow> nat \<Rightarrow> gc \<Rightarrow> bool" where
  "phase_inv env s0 cs L W R rest ws vs k s \<longleftrightarrow>
     marking env (gmem s0) L (wk s0 W) R rest settled s \<and> scan_pos (gmem s0) cs s rest k \<and> statics s0 s \<and>
     wlist (gmem s) (weak_list_head_addr s0) ws \<and> set ws \<subseteq> set W \<and> distinct ws \<and>
     weak_at (weak_list_head_addr s0) ws vs s \<and> finals_ok env L s"

fun subphase_rank :: "gc_subphase \<Rightarrow> nat" where
  "subphase_rank Subphase_main = 3"
| "subphase_rank Subphase_weak1 = 2"
| "subphase_rank Subphase_weak2 = 1"
| "subphase_rank Subphase_final = 0"

definition nonblack :: "ptr set \<Rightarrow> gc \<Rightarrow> nat" where
  "nonblack L s = card {b \<in> L. colour (gmem s) b \<noteq> Caml_black}"

type_synonym progress = "nat \<times> nat \<times> nat \<times> nat \<times> nat"

definition progress :: "ptr set \<Rightarrow> ptr list \<Rightarrow> nat \<Rightarrow> gc \<Rightarrow> progress" where
  "progress L vs k s = (nonblack L s, subphase_rank (caml_gc_subphase s), length vs, (if heap_is_pure s then 0 else 1), k)"

definition progress_order :: "(progress \<times> progress) set" where
  "progress_order = less_than <*lex*> less_than <*lex*> less_than <*lex*> less_than <*lex*> less_than"

lemma wf_progress: "wf progress_order" "trans progress_order"
  by (auto simp: progress_order_def intro!: trans_lex_prod)

lemma nonblack_darker: "finite L \<Longrightarrow> darker L Wk (gmem s) (gmem s') \<Longrightarrow> nonblack L s' \<le> nonblack L s"
  unfolding nonblack_def by (rule card_mono) (auto simp: darker_def)

lemma nonblack_less:
  assumes "finite L" and "darker L Wk (gmem s) (gmem s')" and "b \<in> L" "colour (gmem s) b \<noteq> Caml_black" "colour (gmem s') b = Caml_black"
  shows "nonblack L s' < nonblack L s"
  unfolding nonblack_def by (rule psubset_card_mono) (use assms in \<open>auto simp: darker_def\<close>)

lemma nonblack_same: "(\<And>b. b \<in> L \<Longrightarrow> colour (gmem s') b = colour (gmem s) b) \<Longrightarrow> nonblack L s' = nonblack L s"
  unfolding nonblack_def by (rule arg_cong [of _ _ card]) auto

text \<open>The words of the list of weak arrays.\<close>

lemma weak_cells:
  assumes ok: "heap_ok env s0 cs L W" and "c \<in> set (weak_list_head_addr s0 # W)"
  shows "c \<in> wk s0 W"
proof (cases "c = weak_list_head_addr s0")
  case False
  then have "0 < Wosize_bp (gmem s0) c" "c \<in> set W" using assms heap_ok_parts(4) [OF ok] by (auto simp: weak_ok_def)
  then show ?thesis unfolding weak_words_def by force
qed (simp add: weak_words_def)

lemma wlist_darker:
  assumes ok: "heap_ok env s0 cs L W" and "wlist (gmem s) (weak_list_head_addr s0) ws" and "set ws \<subseteq> set W"
    and "darker L (wk s0 W) (gmem s) (gmem s')"
  shows "wlist (gmem s') (weak_list_head_addr s0) ws"
proof (rule wlist_cong [OF assms(2)])
  fix a assume "a \<in> set (weak_list_head_addr s0 # ws)"
  then have "a \<in> wk s0 W" using weak_cells [OF ok, of a] assms(3) by auto
  then show "gmem s' a = gmem s a" using assms(4) by (simp add: darker_def)
qed

lemma same_phase:
  assumes "same_but_marks s s'"
  shows "statics s0 s' = statics s0 s" and "scan_pos m0 cs s' rest k = scan_pos m0 cs s rest k"
    and "weak_at cell ws vs s' = weak_at cell ws vs s" and "finals_ok env L s' = finals_ok env L s"
    and "caml_gc_subphase s' = caml_gc_subphase s"
  using assms by (simp_all add: same_but_marks_def statics_def scan_pos_def scan_at_def weak_at_def finals_ok_def)

lemma step_gray:
  assumes ok: "heap_ok env s0 cs L W" and inv: "phase_inv env s0 cs L W R rest ws vs k s" and R: "R \<subseteq> L" and ne: "gray_vals s \<noteq> []"
  obtains w s' where "mark_step env s = (w, s')" and "phase_inv env s0 cs L W R rest ws vs k s'"
    and "(progress L vs k s', progress L vs k s) \<in> progress_order"
proof -
  note g = heap_ok_graph [OF ok]
  have fin: "finite L" using g by (simp add: graph_ok_def)
  have mk: "marking env (gmem s0) L (wk s0 W) R rest settled s" using inv by (simp add: phase_inv_def)
  obtain w s' b where G: "mark_gray env s = (w, s')" "marking env (gmem s0) L (wk s0 W) R rest settled s'" "darker L (wk s0 W) (gmem s) (gmem s')"
    "b \<in> L" "colour (gmem s) b \<noteq> Caml_black" "colour (gmem s') b = Caml_black"
    using mark_gray_marking [OF g mk R ne] by metis
  have sm: "same_but_marks s s'" by (rule same_mark_gray [OF G(1)])
  show thesis
  proof (rule that)
    show "mark_step env s = (w, s')" using ne G(1) by (simp add: mark_step_def)
    show "phase_inv env s0 cs L W R rest ws vs k s'"
      using inv G(2) wlist_darker [OF ok _ _ G(3)] unfolding phase_inv_def same_phase [OF sm] by blast
    show "(progress L vs k s', progress L vs k s) \<in> progress_order"
      using nonblack_less [OF fin G(3-6)] by (simp add: progress_def progress_order_def)
  qed
qed

lemma weak_at_cong [simp]:
  "weak_at cell ws vs (mark_heap s) = weak_at cell ws vs s" "weak_at cell ws vs (mark_restart s) = weak_at cell ws vs s"
  by (simp_all add: weak_at_def mark_restart_def)

lemma step_heap:
  assumes ok: "heap_ok env s0 cs L W" and inv: "phase_inv env s0 cs L W R rest ws vs k s" and st: "gray_vals s = []" and hp: "markhp s \<noteq> NULL"
  obtains s' rest' k' where "mark_step env s = (0, s')" and "phase_inv env s0 cs L W R rest' ws vs k' s'"
    and "(progress L vs k' s', progress L vs k s) \<in> progress_order"
proof -
  have mk: "marking env (gmem s0) L (wk s0 W) R rest settled s" and pos: "scan_pos (gmem s0) cs s rest k"
    using inv by (simp_all add: phase_inv_def)
  obtain rest' k' where H: "marking env (gmem s0) L (wk s0 W) R rest' settled (mark_heap s)" "scan_pos (gmem s0) cs (mark_heap s) rest' k'" "k' < k"
    using mark_heap_marking [OF ok mk pos st hp] by metis
  show thesis
  proof (rule that)
    show "mark_step env s = (0, mark_heap s)" using st hp by (simp add: mark_step_def)
    show "phase_inv env s0 cs L W R rest' ws vs k' (mark_heap s)"
      using inv H(1,2) by (simp add: phase_inv_def statics_def finals_ok_def)
    show "(progress L vs k' (mark_heap s), progress L vs k s) \<in> progress_order"
      using H(3) by (simp add: progress_def progress_order_def nonblack_def)
  qed
qed

lemma step_restart:
  assumes ok: "heap_ok env s0 cs L W" and inv: "phase_inv env s0 cs L W R rest ws vs k s" and st: "gray_vals s = []" and hp: "markhp s = NULL"
    and pure: "\<not> heap_is_pure s"
  obtains s' rest' k' where "mark_step env s = (0, s')" and "phase_inv env s0 cs L W R rest' ws vs k' s'"
    and "(progress L vs k' s', progress L vs k s) \<in> progress_order"
proof -
  have mk: "marking env (gmem s0) L (wk s0 W) R rest settled s" and start: "caml_heap_start s = caml_heap_start s0"
    using inv by (simp_all add: phase_inv_def statics_def)
  obtain rest' k' where H: "marking env (gmem s0) L (wk s0 W) R rest' settled (mark_restart s)" "scan_pos (gmem s0) cs (mark_restart s) rest' k'"
    using mark_restart_marking [OF ok mk st start] by metis
  show thesis
  proof (rule that)
    show "mark_step env s = (0, mark_restart s)" using st hp pure by (simp add: mark_step_def)
    show "phase_inv env s0 cs L W R rest' ws vs k' (mark_restart s)"
      using inv H unfolding phase_inv_def weak_at_cong by (auto simp: statics_def finals_ok_def mark_restart_def)
    show "(progress L vs k' (mark_restart s), progress L vs k s) \<in> progress_order"
      using pure by (simp add: progress_def progress_order_def nonblack_def mark_restart_def)
  qed
qed

lemma phase_change:
  assumes "phase_inv env s0 cs L W R rest ws vs k s" and "heap s' = heap s" "gray_vals s' = gray_vals s" "heap_is_pure s' = heap_is_pure s"
    "markhp s' = markhp s" "mark_chunk s' = mark_chunk s" "mark_limit s' = mark_limit s" "caml_heap_start s' = caml_heap_start s"
    "weak_list_head_addr s' = weak_list_head_addr s" "caml_gc_phase s' = caml_gc_phase s"
    and "weak_at (weak_list_head_addr s0) ws vs' s'" and "finals_ok env L s'"
  shows "phase_inv env s0 cs L W R rest ws vs' k s'"
  using assms by (simp add: phase_inv_def statics_def marking_def scan_pos_def scan_at_def)

text \<open>Visiting one weak array.\<close>

lemma weak_at_next:
  assumes inv: "phase_inv env s0 cs L W R rest ws vs k s" and sub: "caml_gc_subphase s \<in> {Subphase_weak1, Subphase_weak2}"
  obtains us where "ws = us @ vs" and "weak_prev s = last (weak_list_head_addr s0 # us)"
    and "gmem s (weak_prev s) = (case vs of [] \<Rightarrow> 0 | c # _ \<Rightarrow> val_of_ptr c)"
proof -
  obtain us where us: "ws = us @ vs" "weak_prev s = last (weak_list_head_addr s0 # us)"
    using inv sub unfolding phase_inv_def weak_at_def by auto
  have "wlist (gmem s) (weak_prev s) vs" using inv wlist_append [of "gmem s" _ us vs] unfolding phase_inv_def us by simp
  then have "gmem s (weak_prev s) = (case vs of [] \<Rightarrow> 0 | c # _ \<Rightarrow> val_of_ptr c)" by (cases vs) auto
  then show thesis using that us by blast
qed

lemma weak_array:
  assumes ok: "heap_ok env s0 cs L W" and "c \<in> set W"
  shows "Op_val (val_of_ptr c) = c" and "val_of_ptr c \<noteq> 0" and "Is_block (val_of_ptr c)"
    and "marked_mem s0 L W m \<Longrightarrow> Wosize_bp m c = Wosize_bp (gmem s0) c"
    and "\<And>i. i < Wosize_bp (gmem s0) c \<Longrightarrow> c + i \<in> wk s0 W"
proof -
  note cB = heap_okD(5) [OF assms]
  have c: "1 < c" "8 * c < 2 ^ 64" using heap_okD(2) [OF ok cB] by auto
  show o: "Op_val (val_of_ptr c) = c" by (rule Op_val_of_ptr [OF c(2)])
  then show "val_of_ptr c \<noteq> 0" using c(1) by (auto simp: Op_val_def)
  show "Is_block (val_of_ptr c)" by (simp add: Is_block_iff Is_long_odd val_of_ptr_def)
  show "Wosize_bp m c = Wosize_bp (gmem s0) c" if "marked_mem s0 L W m" using marked_mem_size(1) [OF ok that cB] .
  show "c + i \<in> wk s0 W" if "i < Wosize_bp (gmem s0) c" for i using that assms(2) unfolding weak_words_def by blast
qed

lemma last_snoc_cell: "last (p # us @ [c]) = c"
  by simp

lemma step_weak1:
  assumes ok: "heap_ok env s0 cs L W" and inv: "phase_inv env s0 cs L W R rest ws (c # vs) k s" and R: "R \<subseteq> L"
    and sub: "caml_gc_subphase s = Subphase_weak1"
  obtains w s' where "mark_sub env s = (w, s')" and "phase_inv env s0 cs L W R rest ws vs k s'"
    and "(progress L vs k s', progress L (c # vs) k s) \<in> progress_order"
proof -
  note g = heap_ok_graph [OF ok]
  have sub': "caml_gc_subphase s \<in> {Subphase_weak1, Subphase_weak2}" using sub by simp
  obtain us where us: "ws = us @ c # vs" "weak_prev s = last (weak_list_head_addr s0 # us)" "gmem s (weak_prev s) = val_of_ptr c"
    using weak_at_next [OF inv sub'] by (metis list.simps(5))
  have mk: "marking env (gmem s0) L (wk s0 W) R rest settled s" and W: "set ws \<subseteq> set W" and dist: "distinct ws"
    and wl: "wlist (gmem s) (weak_list_head_addr s0) ws" using inv by (simp_all add: phase_inv_def)
  have cW: "c \<in> set W" using W us(1) by simp
  note A = weak_array [OF ok cW]
  let ?n = "Wosize_bp (gmem s0) c" and ?s1 = "fold (weak_field env c) [1..<Wosize_bp (gmem s0) c] s"
  have sz: "Wosize_bp (gmem s) c = ?n" using A(4) mk by (simp add: marking_def)
  have F: "marking env (gmem s0) L (wk s0 W) R rest settled ?s1" "\<And>b. b \<in> L \<Longrightarrow> colour (gmem ?s1) b = colour (gmem s) b"
    "\<And>a. a \<notin> (+) c ` {1..<?n} \<Longrightarrow> gmem ?s1 a = gmem s a"
    using weak_fields_marking [OF g R mk, of "[1..<?n]" c] A(5) by auto
  have sm: "same_but_marks s ?s1" by (rule same_fold) simp_all
  have wl': "wlist (gmem ?s1) (weak_list_head_addr s0) ws"
  proof (rule wlist_cong [OF wl], rule F(3))
    fix a assume a: "a \<in> set (weak_list_head_addr s0 # ws)"
    show "a \<notin> (+) c ` {1..<?n}"
    proof
      assume "a \<in> (+) c ` {1..<?n}"
      then obtain i where i: "a = c + i" "1 \<le> i" "i < ?n" by (elim imageE) (simp del: image_add_atLeastLessThan)
      note cB = heap_okD(5) [OF ok cW]
      have "a \<in> fl_words (chunk_blocks cs)" using i by (intro fl_wordsI [OF cB]) linarith+
      then have "a \<noteq> weak_list_head_addr s0" using heap_okD(3) [OF ok] by metis
      then have aW: "a \<in> set W" using a W by auto
      have "0 < Wosize_bp (gmem s0) a" using heap_ok_parts(4) [OF ok] aW by (auto simp: weak_ok_def)
      then have "c = a" by (intro heap_ok_meet [OF ok cB heap_okD(5) [OF ok aW], of a]) (use i in auto)
      then show False using i by simp
    qed
  qed
  show thesis
  proof (rule that)
    show "mark_sub env s = (int ?n + 1, ?s1\<lparr>weak_prev := c\<rparr>)"
      using sub A(2) by (simp add: mark_sub_def us(3) A(1) mark_weak1_def sz Let_def)
    have wa: "weak_at (weak_list_head_addr s0) ws vs (?s1\<lparr>weak_prev := c\<rparr>)"
      using sub same_phase(5) [OF sm] us(1) last_snoc_cell [of _ us c] unfolding weak_at_def
      by (simp only: gc.select_convs gc.update_convs) (auto intro!: exI [of _ "us @ [c]"])
    have P: "phase_inv env s0 cs L W R rest ws (c # vs) k ?s1"
      using inv F(1) wl' unfolding phase_inv_def same_phase [OF sm] by blast
    then have "finals_ok env L (?s1\<lparr>weak_prev := c\<rparr>)" by (simp add: phase_inv_def finals_ok_def)
    then show "phase_inv env s0 cs L W R rest ws vs k (?s1\<lparr>weak_prev := c\<rparr>)"
      by (rule phase_change [OF P _ _ _ _ _ _ _ _ _ wa, rotated -1]) simp_all
    show "(progress L vs k (?s1\<lparr>weak_prev := c\<rparr>), progress L (c # vs) k s) \<in> progress_order"
      using nonblack_same [of L "?s1\<lparr>weak_prev := c\<rparr>" s] F(2) same_phase(5) [OF sm] by (simp add: progress_def progress_order_def)
  qed
qed

lemma step_weak2:
  assumes ok: "heap_ok env s0 cs L W" and inv: "phase_inv env s0 cs L W R rest ws (c # vs) k s" and R: "R \<subseteq> L"
    and sub: "caml_gc_subphase s = Subphase_weak2"
  obtains w s' ws' where "mark_sub env s = (w, s')" and "phase_inv env s0 cs L W R rest ws' vs k s'"
    and "(progress L vs k s', progress L (c # vs) k s) \<in> progress_order"
proof -
  note g = heap_ok_graph [OF ok]
  let ?cell = "weak_list_head_addr s0"
  have sub': "caml_gc_subphase s \<in> {Subphase_weak1, Subphase_weak2}" using sub by simp
  obtain us where us: "ws = us @ c # vs" "weak_prev s = last (?cell # us)" "gmem s (weak_prev s) = val_of_ptr c"
    using weak_at_next [OF inv sub'] by (metis list.simps(5))
  have mk: "marking env (gmem s0) L (wk s0 W) R rest settled s" and W: "set ws \<subseteq> set W" and dist: "distinct ws"
    and wl: "wlist (gmem s) ?cell ws" using inv by (simp_all add: phase_inv_def)
  have cW: "c \<in> set W" using W us(1) by simp
  note A = weak_array [OF ok cW]
  show thesis
  proof (cases "Color_hd (Hd_val (gmem s) (val_of_ptr c)) = Caml_white")
    case False
    show thesis
    proof (rule that)
      show "mark_sub env s = (1, s\<lparr>weak_prev := c\<rparr>)"
        using sub A(2) False by (simp add: mark_sub_def us(3) A(1) Let_def)
      have wa: "weak_at ?cell ws vs (s\<lparr>weak_prev := c\<rparr>)"
        using sub us(1) by (auto simp: weak_at_def intro!: exI [of _ "us @ [c]"])
      have "finals_ok env L (s\<lparr>weak_prev := c\<rparr>)" using inv by (simp add: phase_inv_def finals_ok_def)
      then show "phase_inv env s0 cs L W R rest ws vs k (s\<lparr>weak_prev := c\<rparr>)"
        by (rule phase_change [OF inv _ _ _ _ _ _ _ _ _ wa, rotated -1]) simp_all
      show "(progress L vs k (s\<lparr>weak_prev := c\<rparr>), progress L (c # vs) k s) \<in> progress_order"
        by (simp add: progress_def progress_order_def nonblack_def)
    qed
  next
    case True
    let ?p = "weak_prev s" and ?s' = "store (weak_prev s) (gmem s c) s"
    have "?p \<in> set (?cell # W)" using us(2) W last_in_set [of "?cell # us"] unfolding us(1) by auto
    then have p: "?p \<in> wk s0 W" by (rule weak_cells [OF ok])
    have blk: "Is_block (gmem s ?p)" using A(3) us(3) by simp
    note S = weak_store_marking [OF g mk R p blk, where w = "gmem s c"]
    have "?cell \<notin> set W"
    proof
      assume "?cell \<in> set W"
      then have "?cell \<in> fl_words (chunk_blocks cs)"
        using heap_okD(5) [OF ok, of ?cell] heap_ok_parts(4) [OF ok] by (intro fl_wordsI) (auto simp: weak_ok_def)
      then show False using heap_okD(3) [OF ok] by simp
    qed
    then have "distinct (?cell # us @ c # vs)" using dist W unfolding us(1) by auto
    then have wl': "wlist (gmem ?s') ?cell (us @ vs)" using wlist_unlink [of "gmem s" ?cell us c vs] wl us(1,2) by simp
    have sm: "same_but_marks s ?s'" by simp
    show thesis
    proof (rule that)
      show "mark_sub env s = (1, ?s')"
        using sub A(2) True by (simp add: mark_sub_def us(3) A(1) Let_def Field_def)
      have "weak_at ?cell (us @ vs) vs ?s'" using sub us(2) unfolding weak_at_def by auto
      moreover have "set (us @ vs) \<subseteq> set W" "distinct (us @ vs)" using W dist unfolding us(1) by auto
      ultimately show "phase_inv env s0 cs L W R rest (us @ vs) vs k ?s'"
        using inv S(1) wl' unfolding phase_inv_def same_phase(1,2,4) [OF sm] by blast
      show "(progress L vs k ?s', progress L (c # vs) k s) \<in> progress_order"
        using nonblack_same [of L ?s' s] S(2) by (simp add: progress_def progress_order_def)
    qed
  qed
qed

lemma step_subphase:
  assumes ok: "heap_ok env s0 cs L W" and inv: "phase_inv env s0 cs L W R rest ws [] k s" and R: "R \<subseteq> L"
    and sub: "caml_gc_subphase s \<noteq> Subphase_final"
  obtains w s' vs where "mark_sub env s = (w, s')" and "phase_inv env s0 cs L W R rest ws vs k s'"
    and "(progress L vs k s', progress L [] k s) \<in> progress_order"
proof -
  note g = heap_ok_graph [OF ok]
  let ?cell = "weak_list_head_addr s0"
  have fin: "finite L" using g by (simp add: graph_ok_def)
  have addr: "weak_list_head_addr s = ?cell" using inv by (simp add: phase_inv_def statics_def)
  have start: "weak_at ?cell ws ws s'" if "caml_gc_subphase s' \<in> {Subphase_weak1, Subphase_weak2}" "weak_prev s' = ?cell" for s'
    using that by (auto simp: weak_at_def)
  have zero: "gmem s (weak_prev s) = 0" if "caml_gc_subphase s \<in> {Subphase_weak1, Subphase_weak2}"
    by (rule weak_at_next [OF inv that]) simp
  consider (main) "caml_gc_subphase s = Subphase_main" | (weak1) "caml_gc_subphase s = Subphase_weak1" | (weak2) "caml_gc_subphase s = Subphase_weak2"
    using sub by (cases "caml_gc_subphase s") auto
  then show thesis
  proof cases
    case main
    let ?s' = "s\<lparr>caml_gc_subphase := Subphase_weak1, weak_prev := ?cell\<rparr>"
    show thesis
    proof (rule that)
      show "mark_sub env s = (0, ?s')" using main addr by (simp add: mark_sub_def)
      have wa: "weak_at ?cell ws ws ?s'" by (rule start) simp_all
      have "finals_ok env L ?s'" using inv main by (simp add: phase_inv_def finals_ok_def)
      then show "phase_inv env s0 cs L W R rest ws ws k ?s'"
        by (rule phase_change [OF inv _ _ _ _ _ _ _ _ _ wa, rotated -1]) simp_all
      show "(progress L ws k ?s', progress L [] k s) \<in> progress_order"
        using main by (simp add: progress_def progress_order_def nonblack_def)
    qed
  next
    case weak1
    then have z: "gmem s (weak_prev s) = 0" by (intro zero) simp
    have mk: "marking env (gmem s0) L (wk s0 W) R rest settled s" and wl: "wlist (gmem s) ?cell ws" "set ws \<subseteq> set W"
      and x: "\<forall>x \<in> set (final_table s). final_ok env L x" using inv weak1 by (simp_all add: phase_inv_def finals_ok_def)
    let ?s1 = "caml_final_update env s"
    let ?s' = "?s1\<lparr>caml_gc_subphase := Subphase_weak2, weak_prev := ?cell\<rparr>"
    note U = caml_final_update_marking [OF g mk R x]
    have wl': "wlist (gmem ?s1) ?cell ws" using wlist_darker [OF ok wl] U(1) by blast
    have mk': "marking env (gmem s0) L (wk s0 W) R rest settled ?s'" using U(1) by (simp add: marking_def)
    show thesis
    proof (rule that)
      show "mark_sub env s = (0, ?s')" using weak1 z addr by (simp add: mark_sub_def Let_def)
      have "weak_at ?cell ws ws ?s'" by (rule start) simp_all
      moreover have "statics s0 ?s'" "scan_pos (gmem s0) cs ?s' rest k" "finals_ok env L ?s'"
        using inv U(2) by (simp_all add: phase_inv_def statics_def scan_pos_def scan_at_def finals_ok_def same_but_marks_def)
      ultimately show "phase_inv env s0 cs L W R rest ws ws k ?s'"
        using inv mk' wl' by (simp add: phase_inv_def)
      have "nonblack L ?s' \<le> nonblack L s" using nonblack_darker [OF fin conjunct2 [OF U(1)]] by (simp add: nonblack_def)
      then show "(progress L ws k ?s', progress L [] k s) \<in> progress_order"
        using weak1 by (auto simp: progress_def progress_order_def)
    qed
  next
    case weak2
    then have z: "gmem s (weak_prev s) = 0" by (intro zero) simp
    let ?s' = "s\<lparr>caml_gc_subphase := Subphase_final\<rparr>"
    show thesis
    proof (rule that)
      show "mark_sub env s = (0, ?s')" using weak2 z by (simp add: mark_sub_def Let_def)
      have wa: "weak_at ?cell ws [] ?s'" by (simp add: weak_at_def)
      have "finals_ok env L ?s'" by (simp add: finals_ok_def)
      then show "phase_inv env s0 cs L W R rest ws [] k ?s'"
        by (rule phase_change [OF inv _ _ _ _ _ _ _ _ _ wa, rotated -1]) simp_all
      show "(progress L [] k ?s', progress L [] k s) \<in> progress_order"
        using weak2 by (simp add: progress_def progress_order_def nonblack_def)
    qed
  qed
qed

text \<open>The state when marking is over.\<close>

definition marked :: "gc_env \<Rightarrow> gc \<Rightarrow> ptr set \<Rightarrow> ptr list \<Rightarrow> ptr set \<Rightarrow> gc \<Rightarrow> bool" where
  "marked env s0 L W R s \<longleftrightarrow> caml_gc_phase s = Phase_sweep \<and> marked_mem s0 L W (gmem s) \<and> tricolour env (gmem s0) L settled (gmem s) \<and>
     (\<forall>b \<in> L. colour (gmem s) b \<noteq> Caml_gray) \<and> (\<forall>b \<in> R. colour (gmem s) b \<noteq> Caml_white) \<and>
     heap s = (caml_fl_init_merge (heap s0))\<lparr>fl_mem := gmem s, caml_gc_sweep_hp := caml_heap_start s0\<rparr> \<and>
     mark_chunk s = caml_heap_start s0 \<and> mark_limit s = caml_heap_start s0 + Chunk_size (gmem s) (caml_heap_start s0)"

lemma init_merge_mem:
  "fl'\<lparr>fl_mem := m\<rparr> = fl\<lparr>fl_mem := m\<rparr> \<Longrightarrow> fl_mem fl' = m \<Longrightarrow>
   (caml_fl_init_merge fl')\<lparr>caml_gc_sweep_hp := p\<rparr> = (caml_fl_init_merge fl)\<lparr>fl_mem := m, caml_gc_sweep_hp := p\<rparr>"
  by (cases fl; cases fl') (simp add: caml_fl_init_merge_def)

lemma step_final:
  assumes inv: "phase_inv env s0 cs L W R rest ws vs k s" and "gray_vals s = []" "markhp s = NULL" "heap_is_pure s"
    and sub: "caml_gc_subphase s = Subphase_final"
  obtains w s' where "mark_sub env s = (w, s')" and "marked env s0 L W R s'"
proof -
  let ?c = "caml_heap_start s0"
  have "rest = {}" using inv assms(3) by (auto simp: phase_inv_def scan_pos_def scan_at_def)
  then have gray: "\<forall>b \<in> L. colour (gmem s) b \<noteq> Caml_gray" using inv assms(2,4) by (auto simp: phase_inv_def marking_def)
  have st: "(heap s)\<lparr>fl_mem := gmem s\<rparr> = (heap s0)\<lparr>fl_mem := gmem s\<rparr>" "caml_heap_start s = ?c"
    using inv unfolding phase_inv_def statics_def by blast+
  have mk: "marking env (gmem s0) L (wk s0 W) R rest settled s" using inv by (simp add: phase_inv_def)
  define fl where "fl = (caml_fl_init_merge (heap s0))\<lparr>fl_mem := gmem s, caml_gc_sweep_hp := ?c\<rparr>"
  have fl: "(caml_fl_init_merge (heap s))\<lparr>caml_gc_sweep_hp := ?c\<rparr> = fl" unfolding fl_def by (rule init_merge_mem [OF st(1) refl])
  have "fl_mem fl = gmem s" by (simp add: fl_def)
  then show thesis
    using gray mk by (intro that) (simp add: mark_sub_def sub Let_def st(2) fl, simp add: marked_def marking_def fl_def)
qed

lemma mark_step_spec:
  assumes ok: "heap_ok env s0 cs L W" and inv: "phase_inv env s0 cs L W R rest ws vs k s" and R: "R \<subseteq> L"
  obtains w s' where "mark_step env s = (w, s')" and "marked env s0 L W R s'"
  | w s' rest' ws' vs' k' where "mark_step env s = (w, s')" and "phase_inv env s0 cs L W R rest' ws' vs' k' s'"
      and "(progress L vs' k' s', progress L vs k s) \<in> progress_order"
proof -
  consider (gray) "gray_vals s \<noteq> []" | (heap) "gray_vals s = []" "markhp s \<noteq> NULL" | (restart) "gray_vals s = []" "markhp s = NULL" "\<not> heap_is_pure s"
    | (sub) "gray_vals s = []" "markhp s = NULL" "heap_is_pure s" by blast
  then show thesis
  proof cases
    case gray
    then show thesis using step_gray [OF ok inv R gray] that(2) by metis
  next
    case heap
    then show thesis using step_heap [OF ok inv heap] that(2) by metis
  next
    case restart
    then show thesis using step_restart [OF ok inv restart] that(2) by metis
  next
    case sub
    then have e: "mark_step env s = mark_sub env s" by (simp add: mark_step_def)
    show thesis
    proof (cases "caml_gc_subphase s = Subphase_final")
      case True
      then show thesis using step_final [OF inv sub True] that(1) e by metis
    next
      case nf: False
      show thesis
      proof (cases vs)
        case Nil
        then show thesis using step_subphase [OF ok inv [unfolded Nil] R nf] that(2) e by metis
      next
        case (Cons c vs1)
        then have "caml_gc_subphase s \<in> {Subphase_weak1, Subphase_weak2}" using inv by (auto simp: phase_inv_def weak_at_def split: if_splits)
        then show thesis
          using step_weak1 [OF ok inv [unfolded Cons] R] step_weak2 [OF ok inv [unfolded Cons] R] that(2) e Cons by (metis insertE singletonD)
      qed
    qed
  qed
qed

lemma phase_inv_phase: "phase_inv env s0 cs L W R rest ws vs k s \<Longrightarrow> caml_gc_phase s = Phase_mark"
  by (simp add: phase_inv_def statics_def)

lemma mark_slice_spec:
  assumes ok: "heap_ok env s0 cs L W" and R: "R \<subseteq> L" and "phase_inv env s0 cs L W R rest ws vs k s"
  shows "\<exists>s'. mark_slice env work s = Some s' \<and> (marked env s0 L W R s' \<or>
    (\<exists>rest' ws' vs' k'. phase_inv env s0 cs L W R rest' ws' vs' k' s' \<and>
       (if work > 0 then (progress L vs' k' s', progress L vs k s) \<in> progress_order else s' = s)))"
  using assms(3)
proof (induction "progress L vs k s" arbitrary: work rest ws vs k s rule: wf_induct_rule [OF wf_progress(1)])
  case 1
  show ?case
  proof (cases "work > 0")
    case False
    then show ?thesis using 1(2) by (subst mark_slice.simps) auto
  next
    case True
    show ?thesis
    proof (rule mark_step_spec [OF ok 1(2) R], goal_cases)
      case (1 w s')
      then show ?case using True by (subst mark_slice.simps) (simp add: marked_def)
    next
      case step: (2 w s' rest' ws' vs' k')
      then have "mark_slice env work s = mark_slice env (work - w) s'"
        using True phase_inv_phase by (subst mark_slice.simps) simp
      moreover obtain s2 where s2: "mark_slice env (work - w) s' = Some s2" "marked env s0 L W R s2 \<or>
          (\<exists>rest'' ws'' vs'' k''. phase_inv env s0 cs L W R rest'' ws'' vs'' k'' s2 \<and>
             (if work - w > 0 then (progress L vs'' k'' s2, progress L vs' k' s') \<in> progress_order else s2 = s'))"
        using 1(1) [OF step(3,2), of "work - w"] by blast
      moreover have "\<exists>rest' ws' vs' k'. phase_inv env s0 cs L W R rest' ws' vs' k' s2 \<and> (progress L vs' k' s2, progress L vs k s) \<in> progress_order"
        if "\<not> marked env s0 L W R s2"
        using s2(2) that step(2,3) transD [OF wf_progress(2)] by (cases "work - w > 0") (simp_all, blast+)
      ultimately show ?case using True by auto
    qed
  qed
qed

lemma mark_all_spec:
  assumes ok: "heap_ok env s0 cs L W" and R: "R \<subseteq> L" and "phase_inv env s0 cs L W R rest ws vs k s"
  shows "\<exists>s'. mark_all env s = Some s' \<and> marked env s0 L W R s'"
  using assms(3)
proof (induction "progress L vs k s" arbitrary: rest ws vs k s rule: wf_induct_rule [OF wf_progress(1)])
  case 1
  have pos: "(0::int) < LONG_MAX" by (simp add: LONG_MAX_def)
  obtain s' where s': "mark_slice env LONG_MAX s = Some s'" "marked env s0 L W R s' \<or>
      (\<exists>rest' ws' vs' k'. phase_inv env s0 cs L W R rest' ws' vs' k' s' \<and> (progress L vs' k' s', progress L vs k s) \<in> progress_order)"
    using mark_slice_spec [OF ok R 1(2), of LONG_MAX] unfolding if_P [OF pos] by blast
  then have e: "mark_all env s = mark_all env s'" using phase_inv_phase [OF 1(2)] by (subst mark_all.simps) simp
  show ?case
  proof (cases "marked env s0 L W R s'")
    case True
    then have "mark_all env s' = Some s'" by (subst mark_all.simps) (simp add: marked_def)
    then show ?thesis using e True by simp
  next
    case False
    then show ?thesis using s'(2) 1(1) e by metis
  qed
qed

section \<open>Starting a cycle\<close>

definition root_targets :: "gc_env \<Rightarrow> memory \<Rightarrow> ptr set" where
  "root_targets env m = {target m r | r. r \<in> set (gc_roots env) \<and> pointer env r}"

lemma root_targets_live: "heap_ok env s cs L W \<Longrightarrow> root_targets env (gmem s) \<subseteq> L"
  using heap_ok_parts(3) unfolding root_targets_def live_ok_def by blast

lemma marking_start:
  assumes ok: "heap_ok env s cs L W" and st: "gray_vals s = []"
  shows "marking env (gmem s) L (wk s W) {} {} settled s"
proof -
  have w: "colour (gmem s) b = Caml_white" if "b \<in> L" for b using graph_okD(2) [OF heap_ok_graph [OF ok] that] .
  then have "mem_ok (gmem s) L (wk s W) (gmem s)" by (auto simp: mem_ok_def recoloured_def intro: forwards.here)
  then show ?thesis using w st by (auto simp: marking_def tricolour_def stack_ok_def)
qed

lemma start_cycle_inv:
  assumes ok: "heap_ok env s cs L W" and st: "gray_vals s = []" and fin: "\<forall>x \<in> set (final_table s). final_ok env L x"
  shows "phase_inv env s cs L W (root_targets env (gmem s)) {} W [] 0 (start_cycle env s)"
proof -
  let ?s1 = "fold (caml_darken env) (gc_roots env) s"
  have t: "target (gmem s) v \<in> L" if "v \<in> set (gc_roots env)" "pointer env v" for v
    using heap_ok_parts(3) [OF ok] that unfolding live_ok_def by blast
  have F: "marking env (gmem s) L (wk s W) (root_targets env (gmem s)) {} settled ?s1" "darker L (wk s W) (gmem s) (gmem ?s1)"
    using fold_darken_marking [where vs = "gc_roots env", OF heap_ok_graph [OF ok] marking_start [OF ok st] empty_subsetI] t
    unfolding root_targets_def by auto
  have sm: "same_but_marks s ?s1" by (rule same_fold) simp_all
  have w: "set W \<subseteq> set W" "wlist (gmem s) (weak_list_head_addr s) W" "distinct W" using heap_ok_parts(4) [OF ok] by (auto simp: weak_ok_def)
  have "wlist (gmem ?s1) (weak_list_head_addr s) W" by (rule wlist_darker [OF ok w(2,1) F(2)])
  then show ?thesis
    using F(1) sm w(3) fin
    by (simp add: phase_inv_def start_cycle_def statics_def scan_pos_def weak_at_def finals_ok_def same_but_marks_def marking_def)
qed

end
