(* ===== verification/Major_Cycle.thy ===== *)
theory Major_Cycle
  imports Major_Phase
begin

text \<open>
  A major collection from the idle state to the idle state. When marking ends no
  block is gray, so what the roots reach is black; sweeping then starts from the
  free list marking left alone and keeps exactly the black blocks.
\<close>

section \<open>From marking to sweeping\<close>

lemma blues_member: "b \<in> fst ` set (blues m bs) \<Longrightarrow> \<exists>n. (b, n) \<in> set bs \<and> colour m b = Caml_blue \<and> (b, n) \<in> set (blues m bs)"
  by (auto simp: blues_def colour_def)

lemma marked_blues:
  assumes ok: "heap_ok env s0 cs L W" and mo: "marked_mem s0 L W m"
  shows "blues m (chunk_blocks cs) = blues (gmem s0) (chunk_blocks cs)"
  unfolding blues_def
proof (rule filter_cong [OF refl], clarify)
  fix b n assume "(b, n) \<in> set (chunk_blocks cs)"
  from marked_mem_size(3) [OF ok mo this] show "hcolor m b = Caml_blue \<longleftrightarrow> hcolor (gmem s0) b = Caml_blue"
    by (simp add: colour_def)
qed

lemma marked_fl_ok:
  assumes ok: "heap_ok env s0 cs L W" and mo: "marked_mem s0 L W m"
  shows "fl_ok ((caml_fl_init_merge (heap s0))\<lparr>fl_mem := m, caml_gc_sweep_hp := p\<rparr>) (blues m (chunk_blocks cs))"
proof -
  let ?h = "Fl_head (heap s0)" and ?xs = "blues (gmem s0) (chunk_blocks cs)"
  have fl: "fl_ok (heap s0) ?xs" by (rule heap_ok_parts(5) [OF ok])
  have sp: "spaced ?h (chunk_blocks cs)" by (rule heap_okD(1) [OF ok])
  have h: "m ?h = gmem s0 ?h" "m (?h - 1) = gmem s0 (?h - 1)"
  proof -
    have c: "weak_list_head_addr s0 \<noteq> ?h" "weak_list_head_addr s0 \<noteq> ?h - 1"
      using heap_ok_parts(1) [OF ok] by (simp_all add: blocks_ok_def)
    have "?h \<notin> fl_words (chunk_blocks cs)" "?h - 1 \<notin> fl_words (chunk_blocks cs)"
      using sp unfolding fl_words_def spaced_def by fastforce+
    then show "m ?h = gmem s0 ?h" "m (?h - 1) = gmem s0 (?h - 1)" using marked_mem_outside [OF ok mo] c by metis+
  qed
  have blk: "m (b - 1) = gmem s0 (b - 1) \<and> m b = gmem s0 b" if x: "b \<in> fst ` set ?xs" for b
  proof -
    obtain n where n: "(b, n) \<in> set ?xs" and b: "(b, n) \<in> set (chunk_blocks cs)" "colour (gmem s0) b = Caml_blue"
      using blues_member [OF x] by blast
    have "nonempty ?xs" using fl unfolding fl_ok_def by blast
    then have "1 \<le> n" using n unfolding nonempty_def by blast
    then show ?thesis using marked_mem_free [OF ok mo b, of "b - 1"] marked_mem_free [OF ok mo b, of b] by linarith
  qed
  have "fl_list m ?h ?xs = fl_list (gmem s0) ?h ?xs"
    by (rule fl_list_cong) (use blk h in \<open>auto simp: Next_bp_def\<close>)
  moreover have "Wosize_bp m ?h = Wosize_bp (gmem s0) ?h" using h(2) by (simp add: Wosize_bp_def)
  ultimately show ?thesis
    using fl unfolding marked_blues [OF ok mo] by (simp add: fl_ok_def caml_fl_init_merge_def)
qed

lemma chunk_chain_cong:
  "chunk_chain m c lim cs \<Longrightarrow> (\<And>d. d \<in> insert c (fst ` set cs) \<Longrightarrow> Chunk_next m' d = Chunk_next m d \<and> Chunk_size m' d = Chunk_size m d)
    \<Longrightarrow> chunk_chain m' c lim cs"
proof (induction cs arbitrary: c lim)
  case (Cons x cs)
  then show ?case by (cases x) auto
qed simp

lemma marked_sweep_inv:
  assumes ok: "heap_ok env s0 cs L W" and mk: "marked env s0 L W R s"
  obtains bs cs1 where "sweep_inv (gmem s) s [] bs cs1 []" and "cs = (caml_heap_start s0, bs) # cs1"
proof -
  let ?c = "caml_heap_start s0" and ?m = "gmem s"
  have mo: "marked_mem s0 L W ?m" and hs: "heap s = (caml_fl_init_merge (heap s0))\<lparr>fl_mem := ?m, caml_gc_sweep_hp := ?c\<rparr>"
    and lim: "mark_chunk s = ?c" "mark_limit s = ?c + Chunk_size ?m ?c"
    using mk unfolding marked_def by blast+
  obtain bs cs1 where cs: "cs = (?c, bs) # cs1" "consec ?c bs (?c + Chunk_size (gmem s0) ?c)"
    "chunk_chain (gmem s0) ?c (?c + Chunk_size (gmem s0) ?c) cs1" and hds: "chunk_heads (Fl_head (heap s0)) (chunk_blocks cs) (map fst cs)"
    using heap_ok_parts(2) [OF ok] unfolding chunks_ok_def by blast
  have bs: "chunk_blocks cs = bs @ chunk_blocks cs1" by (simp add: cs(1))
  note chk = marked_mem_chunk [OF ok mo]
  have size: "Chunk_size ?m ?c = Chunk_size (gmem s0) ?c" using chk(2) [of ?c] by (simp add: cs(1))
  have chain: "chunk_chain ?m ?c (?c + Chunk_size (gmem s0) ?c) cs1"
    by (rule chunk_chain_cong [OF cs(3)]) (use chk in \<open>auto simp: cs(1)\<close>)
  have sz: "\<forall>(b, n) \<in> set (chunk_blocks cs). Wosize_bp ?m b = n" using marked_mem_size(1) [OF ok mo] by blast
  have flds: "Fl_head (heap s) = Fl_head (heap s0)" "caml_fl_merge (heap s) = Fl_head (heap s0)" "last_fragment (heap s) = NULL"
    "caml_gc_sweep_hp (heap s) = ?c"
    by (subst hs, simp add: caml_fl_init_merge_def)+
  have flok: "fl_ok (heap s) (blues ?m (chunk_blocks cs))" using marked_fl_ok [OF ok mo, of ?c] hs by metis
  have sp: "spaced (Fl_head (heap s)) (chunk_blocks cs)" using heap_okD(1) [OF ok] flds(1) by simp
  have "sweeping ?m (heap s) [] (chunk_blocks cs) []"
    unfolding sweeping_def using flok sp sz flds by (simp add: fragment_ok_def)
  then have "sweep_inv ?m s [] bs cs1 []"
    unfolding sweep_inv_def lim flds size bs [symmetric] using cs(2) chain hds by (simp add: cs(1))
  then show thesis using that cs(1) by blast
qed

text \<open>Once no block is gray, everything reachable from the roots is black.\<close>

lemma reachable_black:
  assumes ok: "heap_ok env s0 cs L W" and mk: "marked env s0 L W (root_targets env (gmem s0)) s" and "reachable env (gmem s0) b"
  shows "b \<in> L \<and> colour (gmem s) b = Caml_black"
proof -
  note g = heap_ok_graph [OF ok]
  have mo: "marked_mem s0 L W (gmem s)" and tc: "tricolour env (gmem s0) L settled (gmem s)"
    and gray: "\<forall>b \<in> L. colour (gmem s) b \<noteq> Caml_gray" and roots: "\<forall>b \<in> root_targets env (gmem s0). colour (gmem s) b \<noteq> Caml_white"
    using mk unfolding marked_def by blast+
  have black: "colour (gmem s) b = Caml_black" if "b \<in> L" "colour (gmem s) b \<noteq> Caml_white" for b
  proof -
    have "recoloured (gmem s0) (gmem s) b" using mo that(1) by (simp add: mem_ok_def)
    then show ?thesis using recoloured_colour [OF _ graph_okD(2) [OF g that(1)]] gray that by blast
  qed
  show ?thesis using assms(3)
  proof (induction rule: reachable.induct)
    case (reachable_root r)
    then have "target (gmem s0) r \<in> root_targets env (gmem s0)" unfolding root_targets_def by blast
    then show ?case using root_targets_live [OF ok] roots black by blast
  next
    case (reachable_field b i)
    then have b: "b \<in> L" "colour (gmem s) b = Caml_black" by blast+
    have t: "target (gmem s0) (gmem s0 (b + i)) \<in> L" by (rule graph_okD(8) [OF g b(1) reachable_field(2-4)])
    have "colour (gmem s) (target (gmem s0) (gmem s0 (b + i))) \<noteq> Caml_white"
      using tc b reachable_field(2-4) unfolding tricolour_def by blast
    then show ?case using black t by blast
  qed
qed

section \<open>The cycle\<close>

text \<open>
  A block is kept when its header is what it was, none of its words is in the
  free list, its fields have at most been short-cut through forward blocks, and
  the data of a block without pointers is intact.
\<close>

definition kept :: "memory \<Rightarrow> memory \<Rightarrow> ptr list \<Rightarrow> ptr set \<Rightarrow> ptr \<Rightarrow> bool" where
  "kept m0 m W free b \<longleftrightarrow> m (b - 1) = m0 (b - 1) \<and> {b - 1..<b + Wosize_bp m0 b} \<inter> free = {} \<and>
     (\<forall>i < Wosize_bp m0 b. (scanned m0 b \<longrightarrow> forwards m0 (m0 (b + i)) (m (b + i))) \<and>
        (\<not> scanned m0 b \<longrightarrow> b \<notin> set W \<longrightarrow> m (b + i) = m0 (b + i)))"

definition cycle_ready :: "gc_env \<Rightarrow> gc \<Rightarrow> (ptr \<times> (ptr \<times> nat) list) list \<Rightarrow> ptr set \<Rightarrow> ptr list \<Rightarrow> bool" where
  "cycle_ready env s cs L W \<longleftrightarrow> heap_ok env s cs L W \<and> caml_gc_phase s = Phase_idle \<and> gray_vals s = [] \<and>
     (\<forall>x \<in> set (final_table s). final_ok env L x)"

lemma Whitehd_Blackhd: "Color_hd h = Caml_white \<Longrightarrow> Whitehd_hd (Blackhd_hd h) = h"
  by (rule header_eqI) (simp_all add: recolour_size recolour_tag recolour_colour)

lemma white_headers: "Color_hd h = Caml_white \<Longrightarrow> h' \<in> {h, Grayhd_hd h, Blackhd_hd h} \<Longrightarrow> Color_hd h' = Caml_black \<Longrightarrow> h' = Blackhd_hd h"
  by (auto simp: recolour_colour)

lemma sweeping_live_apart:
  assumes sw: "sweeping m fl bs [] as" and b: "(b, n) \<in> set bs" "colour m b = Caml_black"
  shows "{b - 1..<b + n} \<inter> fl_words as = {}"
proof -
  have sp: "spaced (Fl_head fl) bs" and sub: "fl_words as \<subseteq> fl_words (dead m bs)" using sw by (simp_all add: sweeping_def)
  have False if a: "a \<in> {b - 1..<b + n}" "a \<in> fl_words (dead m bs)" for a
  proof -
    obtain c k where c: "(c, k) \<in> set (dead m bs)" "a \<in> {c - 1..<c + k}" using a(2) by (auto simp: fl_words_def)
    then have "(c, k) \<in> set bs" "hcolor m c \<noteq> Caml_black" by (auto simp: dead_def)
    then show False using spaced_meet [OF sp b(1) _ a(1) c(2)] b(2) by (auto simp: colour_def)
  qed
  then show ?thesis using sub by blast
qed

lemma kept_black:
  assumes ok: "heap_ok env s0 cs L W" and mo: "marked_mem s0 L W m" and sw: "sweeping m fl (chunk_blocks cs) [] as"
    and b: "b \<in> L" "colour m b = Caml_black"
  shows "kept (gmem s0) (fl_mem fl) W (fl_words as) b"
proof -
  let ?m = "gmem s0" and ?n = "Wosize_bp (gmem s0) b"
  note g = heap_ok_graph [OF ok] and bB = heap_okD(4) [OF ok b(1)]
  have wh: "Color_hd (?m (b - 1)) = Caml_white" using graph_okD(2) [OF g b(1)] by (simp add: colour_def)
  have "m (b - 1) \<in> {?m (b - 1), Grayhd_hd (?m (b - 1)), Blackhd_hd (?m (b - 1))}"
    using mo b(1) unfolding mem_ok_def recoloured_def by blast
  then have hd: "m (b - 1) = Blackhd_hd (?m (b - 1))" using white_headers [OF wh] b(2) by (simp add: colour_def)
  have "swept m (fl_mem fl) (fl_words as) (b, ?n)" using sw bB unfolding sweeping_def by blast
  then have fl: "fl_mem fl (b - 1) = Whitehd_hd (m (b - 1))" "\<And>i. i < ?n \<Longrightarrow> fl_mem fl (b + i) = m (b + i)"
    using b(2) by (simp_all add: swept_def colour_def)
  have "fl_mem fl (b - 1) = ?m (b - 1)" using fl(1) hd Whitehd_Blackhd [OF wh] by simp
  moreover have "{b - 1..<b + ?n} \<inter> fl_words as = {}" by (rule sweeping_live_apart [OF sw bB b(2)])
  moreover have "forwards ?m (?m (b + i)) (m (b + i))" if "i < ?n" "scanned ?m b" for i
    using mo b(1) that unfolding mem_ok_def by blast
  moreover have "m (b + i) = ?m (b + i)" if i: "i < ?n" "\<not> scanned ?m b" "b \<notin> set W" for i
  proof -
    have w: "b + i \<in> fl_words (chunk_blocks cs)" using i(1) by (intro fl_wordsI [OF bB]) auto
    have "b + i \<notin> headers L \<union> scan_words ?m L \<union> wk s0 W"
    proof
      assume "b + i \<in> headers L \<union> scan_words ?m L \<union> wk s0 W"
      moreover have "b + i \<notin> headers L" using graph_okD(6) [OF g _ b(1) i(1)] by (auto simp: headers_def)
      moreover have "b + i \<noteq> weak_list_head_addr s0" using w heap_okD(3) [OF ok] by metis
      ultimately obtain c j where c: "b + i = c + j" "j < Wosize_bp ?m c" "c \<in> L \<and> scanned ?m c \<or> c \<in> set W"
        unfolding scan_words_def weak_words_def by blast
      have cB: "(c, Wosize_bp ?m c) \<in> set (chunk_blocks cs)" using c(3) heap_okD(4,5) [OF ok] by blast
      have "b = c" using c(1,2) i(1) by (intro heap_ok_meet [OF ok bB cB, of "b + i"]) linarith+
      then show False using c(3) i(2,3) by blast
    qed
    then show ?thesis using mo unfolding mem_ok_def by blast
  qed
  ultimately show ?thesis using fl(2) unfolding kept_def by (metis (no_types, lifting))
qed

lemma cycle_spec:
  assumes "cycle_ready env s cs L W"
  obtains s' as where "caml_finish_major_cycle env s = Some s'" and "caml_gc_phase s' = Phase_idle" and "fl_ok (heap s') as"
    and "\<And>b. reachable env (gmem s) b \<Longrightarrow> kept (gmem s) (gmem s') W (fl_words as) b"
    and "\<And>b n. (b, n) \<in> set (chunk_blocks cs) \<Longrightarrow> b \<notin> L \<Longrightarrow> 1 \<le> n \<Longrightarrow> {b - 1..<b + n} \<subseteq> fl_words as"
proof -
  have ok: "heap_ok env s cs L W" and idle: "caml_gc_phase s = Phase_idle" and st: "gray_vals s = []" and fin: "\<forall>x \<in> set (final_table s). final_ok env L x"
    using assms unfolding cycle_ready_def by blast+
  let ?R = "root_targets env (gmem s)"
  obtain s1 where s1: "mark_all env (start_cycle env s) = Some s1" "marked env s L W ?R s1"
    using mark_all_spec [OF ok root_targets_live [OF ok] start_cycle_inv [OF ok st fin]] by blast
  have mo: "marked_mem s L W (gmem s1)" and ph: "caml_gc_phase s1 = Phase_sweep" using s1(2) by (simp_all add: marked_def)
  obtain bs cs1 where sw: "sweep_inv (gmem s1) s1 [] bs cs1 []" and cs: "cs = (caml_heap_start s, bs) # cs1"
    using marked_sweep_inv [OF ok s1(2)] by blast
  obtain s' as where s': "sweep_all env s1 = Some s'" "caml_gc_phase s' = Phase_idle" "sweeping (gmem s1) (heap s') ([] @ bs @ chunk_blocks cs1) [] as"
    using sweep_all_spec [OF sw ph] by blast
  have S: "sweeping (gmem s1) (heap s') (chunk_blocks cs) [] as" using s'(3) by (simp add: cs)
  show thesis
  proof (rule that)
    show "caml_finish_major_cycle env s = Some s'" using s1(1) s'(1) idle by (simp add: caml_finish_major_cycle_def)
    show "fl_ok (heap s') as" using S by (simp add: sweeping_def)
    show "kept (gmem s) (gmem s') W (fl_words as) b" if "reachable env (gmem s) b" for b
      using kept_black [OF ok mo S] reachable_black [OF ok s1(2) that] by blast
    show "{b - 1..<b + n} \<subseteq> fl_words as" if b: "(b, n) \<in> set (chunk_blocks cs)" "b \<notin> L" "1 \<le> n" for b n
    proof -
      have "swept (gmem s1) (gmem s') (fl_words as) (b, n)" using S b(1) unfolding sweeping_def by blast
      moreover have "colour (gmem s1) b = colour (gmem s) b" using marked_mem_header [OF ok mo b(1,2)] by (simp add: colour_def)
      ultimately show ?thesis using heap_okD(2) [OF ok b(1)] b(3) by (auto simp: swept_def colour_def split: if_splits)
    qed
  qed (rule s'(2))
qed

section \<open>A small heap\<close>

text \<open>
  One chunk with a root block, a dead block, a string, a free block and a weak
  array that points to the dead block.
\<close>

definition sample_heap_memory :: memory where
  "sample_heap_memory = (\<lambda>a. 0)(
     2 := val_of_ptr 18, 4 := val_of_ptr 21, 8 := 104,
     10 := Make_header 2 0 Caml_white, 11 := val_of_ptr 16, 12 := 3,
     13 := Make_header 1 0 Caml_white, 14 := 5,
     15 := Make_header 1 252 Caml_white, 16 := 77,
     17 := Make_header 2 0 Caml_blue,
     20 := Make_header 2 251 Caml_white, 22 := val_of_ptr 14)"

definition sample_env :: gc_env where
  "sample_env = \<lparr>Is_in_heap = (\<lambda>v. 80 \<le> v \<and> v < 184), Is_in_value_area = (\<lambda>v. 80 \<le> v \<and> v < 184), caml_weak_none = 800,
     gc_roots = [val_of_ptr 11, 7], realloc_succeeds = (\<lambda>n. True), has_finalizer = (\<lambda>v. False)\<rparr>"

definition sample_gc :: gc where
  "sample_gc = \<lparr>heap = \<lparr>fl_mem = sample_heap_memory, Fl_head = 2, fl_prev = 2, fl_last = 0, caml_fl_merge = 2,
       caml_fl_cur_size = 3, last_fragment = 0, flp = (\<lambda>i. 0), flp_size = 0, beyond = 0, policy = 0, caml_gc_sweep_hp = 0\<rparr>,
     gray_vals = [], gray_vals_size = 4, heap_is_pure = True, markhp = 0, mark_chunk = 0, mark_limit = 0, weak_prev = 0,
     weak_list_head_addr = 4, caml_gc_phase = Phase_idle, caml_gc_subphase = Subphase_main, caml_heap_start = 10,
     caml_stat_heap_size = 104, caml_stat_major_collections = 0, caml_fl_size_at_phase_change = 0, final_table = [], to_do = [],
     finalized = []\<rparr>"

definition sample_chunks :: "(ptr \<times> (ptr \<times> nat) list) list" where
  "sample_chunks = [(10, [(11, 2), (14, 1), (16, 1), (18, 2), (21, 2)])]"

lemma sample_headers:
  "Color_hd (Make_header 2 0 Caml_white) = Caml_white" "Color_hd (Make_header 1 0 Caml_white) = Caml_white"
  "Color_hd (Make_header 1 252 Caml_white) = Caml_white" "Color_hd (Make_header 2 0 Caml_blue) = Caml_blue"
  "Color_hd (Make_header 2 251 Caml_white) = Caml_white"
  "unat (Wosize_hd (Make_header 2 0 Caml_white)) = 2" "unat (Wosize_hd (Make_header 1 0 Caml_white)) = 1"
  "unat (Wosize_hd (Make_header 1 252 Caml_white)) = 1" "unat (Wosize_hd (Make_header 2 0 Caml_blue)) = 2"
  "unat (Wosize_hd (Make_header 2 251 Caml_white)) = 2" "unat (Wosize_hd 0) = 0"
  "Tag_hd (Make_header 2 0 Caml_white) = 0" "Tag_hd (Make_header 1 252 Caml_white) = 252" "Tag_hd (Make_header 2 251 Caml_white) = 251"
  by code_simp+

lemma sample_values:
  "Op_val (val_of_ptr 11) = 11" "Op_val (val_of_ptr 16) = 16" "Op_val (val_of_ptr 18) = 18" "Op_val 0 = 0"
  "Is_block (val_of_ptr 11)" "Is_block (val_of_ptr 16)" "\<not> Is_block 3" "\<not> Is_block 7"
  "80 \<le> val_of_ptr 11 \<and> val_of_ptr 11 < 184" "80 \<le> val_of_ptr 16 \<and> val_of_ptr 16 < 184"
  "unat (104 :: u64) div 8 = 13"
  by code_simp+

lemma sample_words:
  "sample_heap_memory (Suc 0) = 0" "sample_heap_memory 2 = val_of_ptr 18" "sample_heap_memory 4 = val_of_ptr 21" "sample_heap_memory 8 = 104"
  "sample_heap_memory 9 = 0" "sample_heap_memory 10 = Make_header 2 0 Caml_white" "sample_heap_memory 11 = val_of_ptr 16"
  "sample_heap_memory 12 = 3" "sample_heap_memory 13 = Make_header 1 0 Caml_white" "sample_heap_memory 15 = Make_header 1 252 Caml_white"
  "sample_heap_memory 17 = Make_header 2 0 Caml_blue" "sample_heap_memory 18 = 0" "sample_heap_memory 20 = Make_header 2 251 Caml_white"
  "sample_heap_memory 21 = 0"
  by (simp_all add: sample_heap_memory_def)

lemma sample_fields:
  "gmem sample_gc = sample_heap_memory" "Fl_head (heap sample_gc) = 2" "weak_list_head_addr sample_gc = 4" "caml_heap_start sample_gc = 10"
  "caml_fl_cur_size (heap sample_gc) = 3" "caml_fl_merge (heap sample_gc) = 2" "fl_prev (heap sample_gc) = 2"
  "caml_gc_phase sample_gc = Phase_idle" "gray_vals sample_gc = []" "final_table sample_gc = []"
  by (simp_all add: sample_gc_def)

lemmas sample_simps = sample_fields sample_words sample_chunks_def sample_env_def sample_headers sample_values
  colour_def Wosize_bp_def scanned_def pointer_def target_def Hd_val_def Chunk_size_def Chunk_next_def Next_bp_def

lemma sample_ready: "cycle_ready sample_env sample_gc sample_chunks {11, 16} [21]"
proof -
  let ?m = "gmem sample_gc" and ?bs = "chunk_blocks sample_chunks"
  have "blocks_ok ?m 2 4 ?bs" by (simp add: blocks_ok_def spaced_def sample_simps)
  moreover have "chunks_ok ?m 2 4 10 sample_chunks" by (auto simp: chunks_ok_def chunk_heads_def sample_simps)
  moreover have "live_ok sample_env ?m ?bs {11, 16}"
  proof -
    have two: "(\<forall>i < 2 :: nat. P i) \<longleftrightarrow> P 0 \<and> P (Suc 0)" for P by (auto simp: less_2_cases_iff)
    show ?thesis by (simp add: live_ok_def two sample_simps)
  qed
  moreover have "weak_ok ?m 4 ?bs [21]" by (simp add: weak_ok_def sample_simps)
  moreover have "fl_ok (heap sample_gc) (blues ?m ?bs)"
    by (simp add: fl_ok_def fl_list_def blues_def spaced_def nonempty_def sample_simps)
  ultimately have "heap_ok sample_env sample_gc sample_chunks {11, 16} [21]"
    unfolding heap_ok_def Let_def by (simp only: sample_fields)
  then show ?thesis by (simp add: cycle_ready_def sample_fields)
qed

lemma sample_reachable: "reachable sample_env (gmem sample_gc) 16"
proof -
  have "reachable sample_env (gmem sample_gc) (target (gmem sample_gc) (val_of_ptr 11))"
    by (rule reachable_root) (simp_all add: sample_simps)
  then have "reachable sample_env (gmem sample_gc) 11" by (simp add: sample_simps)
  then have "reachable sample_env (gmem sample_gc) (target (gmem sample_gc) (gmem sample_gc (11 + 0)))"
    by (rule reachable_field) (simp_all add: sample_simps)
  then show ?thesis by (simp add: sample_simps)
qed

section \<open>What a cycle guarantees\<close>

text \<open>
  C1: Running a major cycle to its end from an idle, well-formed heap returns
  with an idle collector and a well-formed free list, and keeps every block that
  the roots reached at the start: its header is unchanged, no word of it is in
  the free list, each pointer field still holds its value or what its forward
  blocks lead to, and the data of a block without pointers is intact. This holds
  whatever the size of the mark stack and whether or not it can grow.
\<close>

theorem major_cycle_keeps_reachable:
  assumes "cycle_ready env s cs L W"
  shows "\<exists>s' as. caml_finish_major_cycle env s = Some s' \<and> caml_gc_phase s' = Phase_idle \<and> fl_ok (heap s') as \<and>
    (\<forall>b. reachable env (gmem s) b \<longrightarrow> kept (gmem s) (gmem s') W (fl_words as) b)"
  by (rule cycle_spec [OF assms]) blast

theorem major_cycle_keeps_reachable_witness:
  "\<exists>s' as. caml_finish_major_cycle sample_env sample_gc = Some s' \<and> caml_gc_phase s' = Phase_idle \<and> fl_ok (heap s') as \<and>
    kept (gmem sample_gc) (gmem s') [21] (fl_words as) 16"
  using major_cycle_keeps_reachable [OF sample_ready] sample_reachable by blast

text \<open>
  C3: A major cycle gives back every block of the heap outside any set that
  contains the roots and the values with finalisers and is closed under the
  pointers of its blocks: all its words, its header included, end up in the free
  list, unless it is a lone header.
\<close>

theorem major_cycle_frees_garbage:
  assumes "cycle_ready env s cs L W" and "(b, n) \<in> set (chunk_blocks cs)" and "b \<notin> L" and "1 \<le> n"
  shows "\<exists>s' as. caml_finish_major_cycle env s = Some s' \<and> fl_ok (heap s') as \<and> {b - 1..<b + n} \<subseteq> fl_words as"
  by (rule cycle_spec [OF assms(1)]) (use assms(2-4) in blast)

theorem major_cycle_frees_garbage_witness:
  "\<exists>s' as. caml_finish_major_cycle sample_env sample_gc = Some s' \<and> fl_ok (heap s') as \<and> {13..<15} \<subseteq> fl_words as"
proof -
  have "(14, 1) \<in> set (chunk_blocks sample_chunks)" "14 \<notin> {11, 16 :: nat}" by (simp_all add: sample_chunks_def)
  from major_cycle_frees_garbage [OF sample_ready this] show ?thesis by simp
qed

text \<open>
  C4: A slice of marking with any amount of work returns. Either marking is over
  and no live block is gray, or the invariant of the phase still holds, and then
  a slice that had work to do has decreased the measure of the phase.
\<close>

theorem mark_slice_progresses:
  assumes "heap_ok env s0 cs L W" and "R \<subseteq> L" and "phase_inv env s0 cs L W R rest ws vs k s"
  shows "\<exists>s'. mark_slice env work s = Some s' \<and> (marked env s0 L W R s' \<or>
    (\<exists>rest' ws' vs' k'. phase_inv env s0 cs L W R rest' ws' vs' k' s' \<and>
       (if work > 0 then (progress L vs' k' s', progress L vs k s) \<in> progress_order else s' = s)))"
  by (rule mark_slice_spec [OF assms])

theorem mark_slice_progresses_witness:
  "\<exists>s'. mark_slice sample_env 5 (start_cycle sample_env sample_gc) = Some s'"
proof -
  have ok: "heap_ok sample_env sample_gc sample_chunks {11, 16} [21]" and st: "gray_vals sample_gc = []" and fin: "\<forall>x \<in> set (final_table sample_gc). final_ok sample_env {11, 16} x"
    using sample_ready unfolding cycle_ready_def by blast+
  from mark_slice_progresses [OF ok root_targets_live [OF ok] start_cycle_inv [OF ok st fin], of 5] show ?thesis by blast
qed

end
