(* ===== verification/Page_Table.thy ===== *)
theory Page_Table
  imports Mlvalues
begin

text \<open>
  The page table of \<^verbatim>\<open>memory.c\<close> on 64-bit machines: a hash table with linear
  probing from pages to kinds of memory. Its entries are the address of a page
  with the kind in the low bits. The allocator is a parameter that tells whether
  \<^verbatim>\<open>calloc\<close> succeeds. The table is shown to be a map from pages to kinds that
  lookup, modification and growth respect, and every loop to return.
\<close>

unbundle bit_operations_syntax

record page_table =
  pt_size :: nat
  pt_shift :: nat
  pt_mask :: nat
  pt_occupancy :: nat
  pt_entries :: "nat \<Rightarrow> u64"

abbreviation "Page_log \<equiv> (12 :: nat)"
abbreviation "Page_size \<equiv> (4096 :: u64)"

abbreviation "In_heap \<equiv> (1 :: u64)"
abbreviation "In_young \<equiv> (2 :: u64)"
abbreviation "In_static_data \<equiv> (4 :: u64)"

definition Page :: "u64 \<Rightarrow> u64" where
  "Page p = drop_bit Page_log p"

definition Page_mask :: u64 where
  "Page_mask = push_bit Page_log (- 1)"

definition Page_entry_matches :: "u64 \<Rightarrow> u64 \<Rightarrow> bool" where
  "Page_entry_matches entry addr = (((entry XOR addr) AND Page_mask) = 0)"

definition HASH_FACTOR :: u64 where
  "HASH_FACTOR = 11400714819323198486"

definition Hash :: "page_table \<Rightarrow> u64 \<Rightarrow> nat" where
  "Hash t v = unat (drop_bit (pt_shift t) (v * HASH_FACTOR))"

partial_function (option) lookup_loop :: "page_table \<Rightarrow> u64 \<Rightarrow> nat \<Rightarrow> u64 option" where
  "lookup_loop t addr h =
     (let e = pt_entries t h
      in if Page_entry_matches e addr then Some (e AND 0xFF)
         else if e = 0 then Some 0
         else lookup_loop t addr ((h + 1) AND pt_mask t))"

definition caml_page_table_lookup :: "page_table \<Rightarrow> u64 \<Rightarrow> u64 option" where
  "caml_page_table_lookup t addr = lookup_loop t addr (Hash t (Page addr))"

text \<open>The table is sized for a load between a quarter and a half.\<close>

function size_loop :: "nat \<Rightarrow> nat \<Rightarrow> nat \<Rightarrow> nat \<times> nat" where
  "size_loop pagesize sz sh = (if 0 < sz \<and> sz < 2 * pagesize then size_loop pagesize (2 * sz) (sh - 1) else (sz, sh))"
  by auto
termination by (relation "measure (\<lambda>(pagesize, sz, sh). 2 * pagesize - sz)") auto

declare size_loop.simps [simp del]

definition caml_page_table_initialize :: "(nat \<Rightarrow> bool) \<Rightarrow> u64 \<Rightarrow> page_table option" where
  "caml_page_table_initialize calloc bytesize =
     (let (sz, sh) = size_loop (unat (Page bytesize)) 1 64
      in if calloc sz then Some \<lparr>pt_size = sz, pt_shift = sh, pt_mask = sz - 1, pt_occupancy = 0, pt_entries = (\<lambda>i. 0)\<rparr> else None)"

partial_function (option) find_empty :: "page_table \<Rightarrow> nat \<Rightarrow> nat option" where
  "find_empty t h = (if pt_entries t h \<noteq> 0 then find_empty t ((h + 1) AND pt_mask t) else Some h)"

primrec rehash :: "page_table \<Rightarrow> u64 list \<Rightarrow> page_table option" where
  "rehash t [] = Some t"
| "rehash t (e # es) =
     (if e = 0 then rehash t es
      else Option.bind (find_empty t (Hash t (Page e))) (\<lambda>h. rehash (t\<lparr>pt_entries := (pt_entries t)(h := e)\<rparr>) es))"

text \<open>A result code beside the table; \<open>None\<close> is a loop that does not return.\<close>

definition caml_page_table_resize :: "(nat \<Rightarrow> bool) \<Rightarrow> page_table \<Rightarrow> (int \<times> page_table) option" where
  "caml_page_table_resize calloc old =
     (if \<not> calloc (2 * pt_size old) then Some (-1, old)
      else let t = \<lparr>pt_size = 2 * pt_size old, pt_shift = pt_shift old - 1, pt_mask = 2 * pt_size old - 1,
                    pt_occupancy = pt_occupancy old, pt_entries = (\<lambda>i. 0)\<rparr>
           in map_option (Pair 0) (rehash t (map (pt_entries old) [0..<pt_size old])))"

partial_function (option) modify_loop :: "page_table \<Rightarrow> u64 \<Rightarrow> u64 \<Rightarrow> u64 \<Rightarrow> nat \<Rightarrow> page_table option" where
  "modify_loop t page toclear toset h =
     (if pt_entries t h = 0
      then Some (t\<lparr>pt_entries := (pt_entries t)(h := page OR toset), pt_occupancy := pt_occupancy t + 1\<rparr>)
      else if Page_entry_matches (pt_entries t h) page
      then Some (t\<lparr>pt_entries := (pt_entries t)(h := (pt_entries t h AND NOT toclear) OR toset)\<rparr>)
      else modify_loop t page toclear toset ((h + 1) AND pt_mask t))"

definition caml_page_table_modify :: "(nat \<Rightarrow> bool) \<Rightarrow> u64 \<Rightarrow> u64 \<Rightarrow> u64 \<Rightarrow> page_table \<Rightarrow> (int \<times> page_table) option" where
  "caml_page_table_modify calloc page toclear toset t =
     Option.bind (if pt_occupancy t * 2 \<ge> pt_size t then caml_page_table_resize calloc t else Some (0, t))
       (\<lambda>(r, t1). if r \<noteq> 0 then Some (-1, t1)
         else map_option (Pair 0) (modify_loop t1 page toclear toset (Hash t1 (Page page))))"

partial_function (option) range_loop ::
  "(u64 \<Rightarrow> page_table \<Rightarrow> (int \<times> page_table) option) \<Rightarrow> u64 \<Rightarrow> u64 \<Rightarrow> page_table \<Rightarrow> (int \<times> page_table) option" where
  "range_loop modify p pend t =
     (if p \<le> pend
      then Option.bind (modify p t) (\<lambda>(r, t1). if r \<noteq> 0 then Some (-1, t1) else range_loop modify (p + Page_size) pend t1)
      else Some (0, t))"

definition caml_page_table_add :: "(nat \<Rightarrow> bool) \<Rightarrow> u64 \<Rightarrow> u64 \<Rightarrow> u64 \<Rightarrow> page_table \<Rightarrow> (int \<times> page_table) option" where
  "caml_page_table_add calloc kind start stop t =
     range_loop (\<lambda>p. caml_page_table_modify calloc p 0 kind) (start AND Page_mask) ((stop - 1) AND Page_mask) t"

definition caml_page_table_remove :: "(nat \<Rightarrow> bool) \<Rightarrow> u64 \<Rightarrow> u64 \<Rightarrow> u64 \<Rightarrow> page_table \<Rightarrow> (int \<times> page_table) option" where
  "caml_page_table_remove calloc kind start stop t =
     range_loop (\<lambda>p. caml_page_table_modify calloc p kind 0) (start AND Page_mask) ((stop - 1) AND Page_mask) t"

section \<open>Pages\<close>

lemma Page_bits: "Page e = Page a \<longleftrightarrow> (\<forall>n \<ge> 12. bit e n = bit a n)"
proof
  assume h: "\<forall>n \<ge> 12. bit e n = bit a n"
  show "Page e = Page a" by (rule bit_word_eqI) (use h in \<open>auto simp: Page_def bit_simps\<close>)
next
  assume "Page e = Page a"
  then have "bit (Page e) (n - 12) = bit (Page a) (n - 12)" for n by simp
  then have "bit e (12 + (n - 12)) = bit a (12 + (n - 12))" for n by (simp add: Page_def bit_simps)
  then show "\<forall>n \<ge> 12. bit e n = bit a n" by (metis le_add_diff_inverse)
qed

lemma Page_entry_matches_iff: "Page_entry_matches e a \<longleftrightarrow> Page e = Page a"
proof -
  have "Page_entry_matches e a \<longleftrightarrow> (\<forall>n. \<not> bit ((e XOR a) AND Page_mask) n)"
    unfolding Page_entry_matches_def by (auto intro: bit_word_eqI)
  also have "\<dots> \<longleftrightarrow> (\<forall>n. n < 64 \<longrightarrow> 12 \<le> n \<longrightarrow> bit e n = bit a n)" by (auto simp: Page_mask_def bit_simps)
  also have "\<dots> \<longleftrightarrow> (\<forall>n \<ge> 12. bit e n = bit a n)"
  proof -
    have "n < 64" if "bit (w :: u64) n" for w n using bit_imp_le_length [OF that] by simp
    then show ?thesis by blast
  qed
  finally show ?thesis unfolding Page_bits .
qed

lemma byte_bits: "b \<le> 0xFF \<Longrightarrow> 12 \<le> n \<Longrightarrow> \<not> bit (b :: u64) n"
proof -
  assume b: "b \<le> 0xFF" and n: "12 \<le> n"
  have "unat b < 2 ^ 8" using b by (simp add: word_le_nat_alt)
  also have "\<dots> \<le> 2 ^ n" using n by (intro power_increasing) auto
  finally have "\<not> bit (unat b) n" by (simp add: bit_iff_odd)
  then show ?thesis by (simp add: bit_unsigned_iff)
qed

lemma word_bit_length: "bit (w :: u64) n \<Longrightarrow> n < 64"
  using bit_imp_le_length by fastforce

lemma Page_modify: "toset \<le> 0xFF \<Longrightarrow> toclear \<le> 0xFF \<Longrightarrow> Page ((e AND NOT toclear) OR toset) = Page e"
  unfolding Page_bits using byte_bits word_bit_length by (auto simp: bit_simps)

lemma Page_or: "toset \<le> 0xFF \<Longrightarrow> Page (e OR toset) = Page e"
  unfolding Page_bits using byte_bits by (auto simp: bit_simps)

section \<open>Probing\<close>

definition slot :: "page_table \<Rightarrow> u64 \<Rightarrow> nat \<Rightarrow> nat" where
  "slot t p j = (Hash t p + j) mod pt_size t"

definition pt_shape :: "page_table \<Rightarrow> bool" where
  "pt_shape t \<longleftrightarrow> (\<exists>k. 1 \<le> k \<and> k \<le> 63 \<and> pt_size t = 2 ^ k \<and> pt_shift t = 64 - k) \<and> pt_mask t = pt_size t - 1"

text \<open>Pages occur once, and every entry is reached from its hash through used slots.\<close>

definition pt_chained :: "page_table \<Rightarrow> bool" where
  "pt_chained t \<longleftrightarrow>
     (\<forall>i < pt_size t. \<forall>j < pt_size t. pt_entries t i \<noteq> 0 \<longrightarrow> pt_entries t j \<noteq> 0 \<longrightarrow> Page (pt_entries t i) = Page (pt_entries t j) \<longrightarrow> i = j) \<and>
     (\<forall>i < pt_size t. pt_entries t i \<noteq> 0 \<longrightarrow>
        (\<exists>j. slot t (Page (pt_entries t i)) j = i \<and> (\<forall>j' < j. pt_entries t (slot t (Page (pt_entries t i)) j') \<noteq> 0)))"

definition used :: "page_table \<Rightarrow> nat set" where
  "used t = {i. i < pt_size t \<and> pt_entries t i \<noteq> 0}"

definition pt_ok :: "page_table \<Rightarrow> bool" where
  "pt_ok t \<longleftrightarrow> pt_shape t \<and> pt_chained t \<and> card (used t) \<le> pt_occupancy t \<and> 2 * pt_occupancy t \<le> pt_size t"

text \<open>The data of a page.\<close>

definition pt_map :: "page_table \<Rightarrow> u64 \<Rightarrow> u64" where
  "pt_map t p =
     (case filter (\<lambda>i. pt_entries t i \<noteq> 0 \<and> Page (pt_entries t i) = p) [0..<pt_size t] of
        [] \<Rightarrow> 0 | i # is \<Rightarrow> pt_entries t i AND 0xFF)"

text \<open>
  At most \<open>k\<close> entries have been added, and the table has grown only if it is at
  least a quarter full.
\<close>

definition pt_grown :: "nat \<Rightarrow> page_table \<Rightarrow> page_table \<Rightarrow> bool" where
  "pt_grown k t t' \<longleftrightarrow> pt_occupancy t \<le> pt_occupancy t' \<and> pt_occupancy t' \<le> pt_occupancy t + k \<and> pt_size t \<le> pt_size t'
     \<and> (pt_size t' = pt_size t \<or> pt_size t' \<le> 4 * pt_occupancy t')"

text \<open>Why growing fails: the table is half full and the allocator does not give a table of twice the size.\<close>

definition pt_no_room :: "(nat \<Rightarrow> bool) \<Rightarrow> page_table \<Rightarrow> bool" where
  "pt_no_room calloc t \<longleftrightarrow> pt_size t \<le> 2 * pt_occupancy t \<and> \<not> calloc (2 * pt_size t)"

lemma pt_grown_refl: "pt_grown k t t"
  by (simp add: pt_grown_def)

lemma pt_grown_trans: "pt_grown j t t1 \<Longrightarrow> pt_grown k t1 t2 \<Longrightarrow> pt_grown (j + k) t t2"
  by (auto simp: pt_grown_def)

lemma pt_shapeD:
  assumes "pt_shape t"
  shows "0 < pt_size t" and "(h + 1) AND pt_mask t = (h + 1) mod pt_size t" and "Hash t v < pt_size t" and "2 \<le> pt_size t" "even (pt_size t)"
proof -
  obtain k where k: "1 \<le> k" "k \<le> 63" "pt_size t = 2 ^ k" "pt_shift t = 64 - k" "pt_mask t = 2 ^ k - 1"
    using assms by (auto simp: pt_shape_def)
  show "0 < pt_size t" "2 \<le> pt_size t" "even (pt_size t)" using k self_le_power [of 2 k] by auto
  show "(h + 1) AND pt_mask t = (h + 1) mod pt_size t"
    unfolding k mask_eq_exp_minus_1 [symmetric] take_bit_eq_mask [symmetric] by (rule take_bit_eq_mod)
  have "unat (drop_bit (64 - k) (v * HASH_FACTOR)) < 2 ^ k"
  proof -
    have "unat (v * HASH_FACTOR) < 2 ^ (64 - k) * 2 ^ k" using unsigned_less [of "v * HASH_FACTOR"] k(2) by (simp add: power_add [symmetric])
    then show ?thesis unfolding unat_drop_bit_eq unfolding drop_bit_eq_div by (simp add: less_mult_imp_div_less mult.commute)
  qed
  then show "Hash t v < pt_size t" by (simp add: Hash_def k)
qed

lemma slot_step:
  assumes "pt_shape t"
  shows "(slot t p j + 1) AND pt_mask t = slot t p (Suc j)" and "slot t p 0 = Hash t p" and "slot t p j < pt_size t"
  using pt_shapeD [OF assms] by (simp_all add: slot_def mod_Suc_eq)

text \<open>Probing for a page stops at its entry or, when it has none, at a free slot.\<close>

definition probed :: "page_table \<Rightarrow> u64 \<Rightarrow> nat \<Rightarrow> bool" where
  "probed t p j \<longleftrightarrow> (pt_entries t (slot t p j) = 0 \<or> Page (pt_entries t (slot t p j)) = p) \<and>
     (\<forall>j' < j. pt_entries t (slot t p j') \<noteq> 0 \<and> Page (pt_entries t (slot t p j')) \<noteq> p)"

lemma probed_exists:
  assumes "pt_shape t" and "i < pt_size t" "pt_entries t i = 0"
  obtains j where "probed t p j"
proof -
  let ?stop = "\<lambda>j. pt_entries t (slot t p j) = 0 \<or> Page (pt_entries t (slot t p j)) = p"
  have "slot t p (i + pt_size t - Hash t p) = i"
    using pt_shapeD(3) [OF assms(1), of p] assms(2) by (simp add: slot_def)
  then have ex: "\<exists>j. ?stop j" using assms(3) by metis
  then obtain j where "?stop j" "\<forall>j' < j. \<not> ?stop j'" unfolding exists_least_iff [of ?stop] by blast
  then show thesis by (intro that [of j]) (simp add: probed_def)
qed

lemma probed_entry:
  assumes "pt_chained t" and "probed t p j" and i: "i < pt_size t" "pt_entries t i \<noteq> 0" "Page (pt_entries t i) = p" and sh: "pt_shape t"
  shows "slot t p j = i"
proof -
  obtain n where n: "slot t p n = i" "\<forall>j' < n. pt_entries t (slot t p j') \<noteq> 0" using assms(1) i unfolding pt_chained_def by blast
  have "j \<le> n"
  proof (rule ccontr)
    assume "\<not> j \<le> n"
    then show False using assms(2) n(1) i(3) unfolding probed_def by auto
  qed
  show ?thesis
  proof (cases "j = n")
    case False
    then have "pt_entries t (slot t p j) \<noteq> 0" using n(2) \<open>j \<le> n\<close> by simp
    then have "Page (pt_entries t (slot t p j)) = p" using assms(2) by (simp add: probed_def)
    then show ?thesis using assms(1) i slot_step(3) [OF sh] \<open>pt_entries t (slot t p j) \<noteq> 0\<close> unfolding pt_chained_def by blast
  qed (use n in simp)
qed

lemma pt_map_probed:
  assumes "pt_chained t" and "pt_shape t" and pr: "probed t p j"
  shows "pt_map t p = pt_entries t (slot t p j) AND 0xFF"
proof -
  let ?P = "\<lambda>i. pt_entries t i \<noteq> 0 \<and> Page (pt_entries t i) = p"
  have *: "\<forall>i \<in> set (filter ?P [0..<pt_size t]). i = slot t p j" using probed_entry [OF assms(1) pr _ _ _ assms(2)] by auto
  show ?thesis
  proof (cases "filter ?P [0..<pt_size t]")
    case Nil
    then have "\<not> ?P (slot t p j)" using slot_step(3) [OF assms(2), of p j] by (auto simp: filter_empty_conv)
    then have "pt_entries t (slot t p j) = 0" using pr by (auto simp: probed_def)
    then show ?thesis by (simp add: pt_map_def Nil)
  next
    case (Cons i "is")
    then have "i = slot t p j" using * by simp
    then show ?thesis by (simp add: pt_map_def Cons)
  qed
qed

lemma free_slot:
  assumes "pt_shape t" and "card (used t) < pt_size t"
  obtains i where "i < pt_size t" and "pt_entries t i = 0"
proof -
  have "used t \<noteq> {0..<pt_size t}"
  proof
    assume "used t = {0..<pt_size t}"
    then show False using assms(2) by simp
  qed
  moreover have "used t \<subseteq> {0..<pt_size t}" by (auto simp: used_def)
  ultimately obtain i where "i \<in> {0..<pt_size t}" "i \<notin> used t" by blast
  then show thesis by (intro that [of i]) (simp_all add: used_def)
qed

lemma lookup_loop_probed:
  assumes sh: "pt_shape t" and "probed t (Page addr) j" and "i \<le> j"
  shows "lookup_loop t addr (slot t (Page addr) i) = Some (pt_entries t (slot t (Page addr) j) AND 0xFF)"
  using assms(3)
proof (induction "j - i" arbitrary: i)
  case 0
  then show ?case using assms(2) by (subst lookup_loop.simps) (auto simp: Page_entry_matches_iff probed_def)
next
  case (Suc n)
  then have "i < j" by simp
  then have "pt_entries t (slot t (Page addr) i) \<noteq> 0" "Page (pt_entries t (slot t (Page addr) i)) \<noteq> Page addr"
    using assms(2) by (auto simp: probed_def)
  then have "lookup_loop t addr (slot t (Page addr) i) = lookup_loop t addr (slot t (Page addr) (Suc i))"
    by (subst lookup_loop.simps) (simp add: Page_entry_matches_iff slot_step(1) [OF sh, unfolded Suc_eq_plus1 [symmetric], simplified] flip: Suc_eq_plus1)
  also have "\<dots> = Some (pt_entries t (slot t (Page addr) j) AND 0xFF)" using Suc by (intro Suc.hyps(1)) auto
  finally show ?case .
qed

lemma modify_loop_probed:
  assumes sh: "pt_shape t" and "probed t (Page page) j" and "i \<le> j"
  shows "modify_loop t page toclear toset (slot t (Page page) i) = modify_loop t page toclear toset (slot t (Page page) j)"
  using assms(3)
proof (induction "j - i" arbitrary: i)
  case (Suc n)
  then have "i < j" by simp
  then have "pt_entries t (slot t (Page page) i) \<noteq> 0" "Page (pt_entries t (slot t (Page page) i)) \<noteq> Page page"
    using assms(2) by (auto simp: probed_def)
  then have "modify_loop t page toclear toset (slot t (Page page) i) = modify_loop t page toclear toset (slot t (Page page) (Suc i))"
    by (subst modify_loop.simps) (simp add: Page_entry_matches_iff slot_step(1) [OF sh, unfolded Suc_eq_plus1 [symmetric], simplified] flip: Suc_eq_plus1)
  also have "\<dots> = modify_loop t page toclear toset (slot t (Page page) j)" using Suc by (intro Suc.hyps(1)) auto
  finally show ?case .
qed simp

lemma find_empty_probed:
  assumes sh: "pt_shape t" and "\<forall>j' < j. pt_entries t (slot t p j') \<noteq> 0" "pt_entries t (slot t p j) = 0" and "i \<le> j"
  shows "find_empty t (slot t p i) = Some (slot t p j)"
  using assms(4)
proof (induction "j - i" arbitrary: i)
  case 0
  then show ?case using assms(3) by (subst find_empty.simps) simp
next
  case (Suc n)
  then have "pt_entries t (slot t p i) \<noteq> 0" using assms(2) by simp
  then have "find_empty t (slot t p i) = find_empty t (slot t p (Suc i))"
    by (subst find_empty.simps) (simp add: slot_step(1) [OF sh, unfolded Suc_eq_plus1 [symmetric], simplified] flip: Suc_eq_plus1)
  also have "\<dots> = Some (slot t p j)" using Suc by (intro Suc.hyps(1)) auto
  finally show ?case .
qed

lemma pt_ok_free: "pt_ok t \<Longrightarrow> pt_shape t \<and> pt_chained t \<and> card (used t) < pt_size t"
  using pt_shapeD(1) by (fastforce simp: pt_ok_def)

lemma pt_ok_probed:
  assumes "pt_ok t"
  obtains j where "probed t p j"
  using free_slot probed_exists pt_ok_free [OF assms] by metis

lemma lookup_spec:
  assumes ok: "pt_ok t"
  shows "caml_page_table_lookup t addr = Some (pt_map t (Page addr))"
proof -
  obtain j where j: "probed t (Page addr) j" using pt_ok_probed [OF ok] .
  have sh: "pt_shape t" "pt_chained t" using ok by (simp_all add: pt_ok_def)
  show ?thesis
    using lookup_loop_probed [OF sh(1) j, of 0] pt_map_probed [OF sh(2,1) j]
    by (simp add: caml_page_table_lookup_def slot_step(2) [OF sh(1)])
qed

text \<open>Writing the entry of a page at the slot where probing for it stops.\<close>

lemma slot_entries [simp]: "slot (t\<lparr>pt_entries := f\<rparr>) = slot t" "slot (t\<lparr>pt_occupancy := n\<rparr>) = slot t"
  by (auto simp: slot_def Hash_def fun_eq_iff)

lemma pt_map_occupancy [simp]: "pt_map (t\<lparr>pt_occupancy := n\<rparr>) q = pt_map t q"
  by (simp add: pt_map_def cong: list.case_cong)

lemma pt_write:
  assumes sh: "pt_shape t" and ch: "pt_chained t" and pr: "probed t p j" and e: "e \<noteq> 0" "Page e = p"
  defines "t' \<equiv> t\<lparr>pt_entries := (pt_entries t)(slot t p j := e)\<rparr>"
  shows "pt_shape t'" and "pt_chained t'" and "pt_map t' q = (if q = p then e AND 0xFF else pt_map t q)"
    and "used t' = insert (slot t p j) (used t)"
proof -
  let ?s = "slot t p j"
  have s: "?s < pt_size t" by (rule slot_step(3) [OF sh])
  show sh': "pt_shape t'" using sh by (simp add: pt_shape_def t'_def)
  show "used t' = insert ?s (used t)" using s e(1) by (auto simp: used_def t'_def)
  have other: "Page (pt_entries t i) \<noteq> p" if "i < pt_size t" "i \<noteq> ?s" "pt_entries t i \<noteq> 0" for i
    using probed_entry [OF ch pr that(1,3) _ sh] that(2) by metis
  have nz: "pt_entries t' i \<noteq> 0" if "pt_entries t i \<noteq> 0" for i using that e(1) by (simp add: t'_def)
  have sl: "slot t' = slot t" by (simp add: t'_def)
  show ch': "pt_chained t'"
    unfolding pt_chained_def
  proof (intro conjI allI impI)
    fix i k assume "i < pt_size t'" "k < pt_size t'" "pt_entries t' i \<noteq> 0" "pt_entries t' k \<noteq> 0" "Page (pt_entries t' i) = Page (pt_entries t' k)"
    then show "i = k"
      using other ch e(2) unfolding pt_chained_def t'_def by (cases "i = ?s"; cases "k = ?s") auto
  next
    fix i assume i: "i < pt_size t'" "pt_entries t' i \<noteq> 0"
    show "\<exists>n. slot t' (Page (pt_entries t' i)) n = i \<and> (\<forall>j' < n. pt_entries t' (slot t' (Page (pt_entries t' i)) j') \<noteq> 0)"
    proof (cases "i = ?s")
      case True
      then have "slot t' (Page (pt_entries t' i)) j = i" "\<forall>j' < j. pt_entries t' (slot t' (Page (pt_entries t' i)) j') \<noteq> 0"
        using pr e nz by (simp_all add: t'_def probed_def)
      then show ?thesis by blast
    next
      case False
      then have i': "i < pt_size t" "pt_entries t i \<noteq> 0" "pt_entries t' i = pt_entries t i" using i by (simp_all add: t'_def)
      then obtain n where "slot t (Page (pt_entries t i)) n = i" "\<forall>j' < n. pt_entries t (slot t (Page (pt_entries t i)) j') \<noteq> 0"
        using ch unfolding pt_chained_def by blast
      then show ?thesis unfolding sl i'(3) using nz by blast
    qed
  qed
  show "pt_map t' q = (if q = p then e AND 0xFF else pt_map t q)"
  proof (cases "q = p")
    case True
    have "probed t' p j" using pr e nz by (auto simp: probed_def t'_def)
    from pt_map_probed [OF ch' sh' this] show ?thesis using True by (simp add: t'_def)
  next
    case False
    have "filter (\<lambda>i. pt_entries t' i \<noteq> 0 \<and> Page (pt_entries t' i) = q) [0..<pt_size t'] =
        filter (\<lambda>i. pt_entries t i \<noteq> 0 \<and> Page (pt_entries t i) = q) [0..<pt_size t]"
      using False e pr by (auto simp: t'_def probed_def intro!: filter_cong)
    moreover have "pt_entries t' i = pt_entries t i" if "i \<in> set (filter (\<lambda>i. pt_entries t i \<noteq> 0 \<and> Page (pt_entries t i) = q) [0..<pt_size t])" for i
      using that False pr by (auto simp: t'_def probed_def)
    ultimately show ?thesis
      using False by (cases "filter (\<lambda>i. pt_entries t i \<noteq> 0 \<and> Page (pt_entries t i) = q) [0..<pt_size t]") (simp_all add: pt_map_def)
  qed
qed

lemma data_or: "(page :: u64) AND NOT Page_mask = 0 \<Longrightarrow> toset \<le> 0xFF \<Longrightarrow> (page OR toset) AND 0xFF = toset"
proof -
  assume p: "page AND NOT Page_mask = 0" and t: "toset \<le> 0xFF"
  have m: "(0xFF :: u64) = mask 8" by (simp add: mask_eq_exp_minus_1)
  have "bit (page AND NOT Page_mask) n = bit (0 :: u64) n" for n using p by simp
  then have "n < 64 \<longrightarrow> bit page n \<longrightarrow> \<not> n < 12" for n by (simp add: Page_mask_def bit_simps)
  then have "\<not> (bit page n \<and> n < 12)" for n using word_bit_length [of page n] by blast
  then have pb: "\<not> bit page n" if "n < 12" for n using that by blast
  have tb: "\<not> bit toset n" if "8 \<le> n" for n
  proof -
    have "unat toset < 2 ^ 8" using t by (simp add: word_le_nat_alt)
    also have "\<dots> \<le> 2 ^ n" using that by (intro power_increasing) auto
    finally have "\<not> bit (unat toset) n" by (simp add: bit_iff_odd)
    then show ?thesis by (simp add: bit_unsigned_iff)
  qed
  show ?thesis unfolding m by (rule bit_word_eqI) (use pb tb in \<open>auto simp: bit_simps not_le [symmetric]\<close>)
qed

lemma data_modify: "toset \<le> 0xFF \<Longrightarrow> ((e AND NOT toclear) OR toset) AND 0xFF = ((e AND 0xFF) AND NOT toclear) OR (toset :: u64)"
proof -
  assume "toset \<le> 0xFF"
  then have "(0 OR toset) AND 0xFF = toset" by (intro data_or) simp_all
  then have t: "toset AND 0xFF = toset" by simp
  have "((e AND NOT toclear) OR toset) AND 0xFF = ((e AND 0xFF) AND NOT toclear) OR (toset AND 0xFF)"
    by (simp add: bit.conj_disj_distrib2 ac_simps)
  then show ?thesis unfolding t .
qed

lemma modify_loop_spec:
  assumes ok: "pt_ok t" and room: "2 * pt_occupancy t < pt_size t" and pg: "page AND NOT Page_mask = 0" "Page page \<noteq> 0"
    and ts: "toset \<le> 0xFF" "toclear \<le> 0xFF"
  shows "\<exists>t'. modify_loop t page toclear toset (Hash t (Page page)) = Some t' \<and> pt_ok t' \<and> pt_grown 1 t t' \<and>
    (\<forall>q. pt_map t' q = (if q = Page page then (pt_map t q AND NOT toclear) OR toset else pt_map t q))"
proof -
  have sh: "pt_shape t" and ch: "pt_chained t" and cd: "card (used t) \<le> pt_occupancy t" using ok by (simp_all add: pt_ok_def)
  obtain j where j: "probed t (Page page) j" using pt_ok_probed [OF ok] .
  let ?s = "slot t (Page page) j"
  let ?e = "if pt_entries t ?s = 0 then page OR toset else (pt_entries t ?s AND NOT toclear) OR toset"
  let ?t = "t\<lparr>pt_entries := (pt_entries t)(?s := ?e)\<rparr>"
  have pe: "Page ?e = Page page" using j Page_or [OF ts(1)] Page_modify [OF ts] by (auto simp: probed_def)
  have "?e \<noteq> 0"
  proof
    assume "?e = 0"
    then have "Page page = Page 0" using pe by simp
    then show False using pg(2) by (simp add: Page_def)
  qed
  note W = pt_write [OF sh ch j this pe]
  have d: "?e AND 0xFF = (pt_map t (Page page) AND NOT toclear) OR toset"
    using data_or [OF pg(1) ts(1)] data_modify [OF ts(1)] pt_map_probed [OF ch sh j] by auto
  define t' where "t' = ?t\<lparr>pt_occupancy := (if pt_entries t ?s = 0 then pt_occupancy t + 1 else pt_occupancy t)\<rparr>"
  have "modify_loop t page toclear toset ?s = Some t'"
    using j by (subst modify_loop.simps) (auto simp: t'_def probed_def Page_entry_matches_iff)
  then have "modify_loop t page toclear toset (Hash t (Page page)) = Some t'"
    using modify_loop_probed [OF sh j, of 0] slot_step(2) [OF sh] by simp
  moreover have "pt_ok t'"
  proof -
    have s: "?s < pt_size t" by (rule slot_step(3) [OF sh])
    have "finite (used t)" by (simp add: used_def)
    then have "card (used ?t) \<le> pt_occupancy t'"
      unfolding W(4) using cd s by (cases "?s \<in> used t") (auto simp: t'_def used_def insert_absorb card_insert_if)
    moreover have "2 * pt_occupancy t' \<le> pt_size t'" using room pt_shapeD(5) [OF sh] by (auto simp: t'_def elim!: evenE)
    moreover have "used t' = used ?t" "pt_shape t' = pt_shape ?t" "pt_chained t' = pt_chained ?t"
      by (simp_all add: t'_def used_def pt_shape_def pt_chained_def)
    ultimately show ?thesis using W(1,2) by (simp add: pt_ok_def)
  qed
  moreover have "pt_grown 1 t t'" by (simp add: t'_def pt_grown_def)
  moreover have "pt_map t' q = pt_map ?t q" for q by (simp add: t'_def)
  ultimately show ?thesis using W(3) d by auto
qed

section \<open>Growing the table\<close>

definition entry_of :: "u64 list \<Rightarrow> u64 \<Rightarrow> u64" where
  "entry_of es q = (case filter (\<lambda>e. e \<noteq> 0 \<and> Page e = q) es of [] \<Rightarrow> 0 | e # _ \<Rightarrow> e AND 0xFF)"

lemma pt_map_entries: "pt_map t q = entry_of (map (pt_entries t) [0..<pt_size t]) q"
  by (simp add: pt_map_def entry_of_def filter_map comp_def split: list.splits)

definition pages :: "u64 list \<Rightarrow> u64 list" where
  "pages es = map Page (filter (\<lambda>e. e \<noteq> 0) es)"

lemma pages_simps [simp]: "pages [] = []" "pages (e # es) = (if e = 0 then pages es else Page e # pages es)"
  by (simp_all add: pages_def)

lemma entry_of_Cons: "entry_of (e # es) q = (if e \<noteq> 0 \<and> Page e = q then e AND 0xFF else entry_of es q)"
  by (simp add: entry_of_def)

lemma entry_of_none: "q \<notin> set (pages es) \<Longrightarrow> entry_of es q = 0"
  by (subgoal_tac "filter (\<lambda>e. e \<noteq> 0 \<and> Page e = q) es = []") (auto simp: entry_of_def pages_def filter_empty_conv)

lemma rehash_spec:
  assumes "pt_shape t" and "pt_chained t" and "card (used t) + length (pages es) < pt_size t" and "distinct (pages es)"
    and "\<And>i. i < pt_size t \<Longrightarrow> pt_entries t i \<noteq> 0 \<Longrightarrow> Page (pt_entries t i) \<notin> set (pages es)"
  shows "\<exists>t'. rehash t es = Some t' \<and> pt_shape t' \<and> pt_chained t' \<and> card (used t') = card (used t) + length (pages es) \<and>
    pt_size t' = pt_size t \<and> pt_occupancy t' = pt_occupancy t \<and>
    (\<forall>q. pt_map t' q = (if q \<in> set (pages es) then entry_of es q else pt_map t q))"
  using assms
proof (induction es arbitrary: t)
  case (Cons e es)
  show ?case
  proof (cases "e = 0")
    case True
    then have e: "pages (e # es) = pages es" "entry_of (e # es) = entry_of es" "rehash t (e # es) = rehash t es"
      by (simp_all add: entry_of_Cons fun_eq_iff)
    show ?thesis unfolding e by (rule Cons.IH) (use Cons.prems in \<open>simp_all only: e\<close>)
  next
    case False
    let ?p = "Page e"
    have "card (used t) < pt_size t" using Cons.prems(3) by simp
    then obtain j where j: "probed t ?p j" using free_slot [OF Cons.prems(1)] probed_exists [OF Cons.prems(1)] by metis
    let ?s = "slot t ?p j"
    have sl: "slot t ?p n < pt_size t" for n by (rule slot_step(3) [OF Cons.prems(1)])
    have z: "pt_entries t ?s = 0" using j sl [of j] Cons.prems(5) [of ?s] False by (auto simp: probed_def)
    have f: "find_empty t (Hash t ?p) = Some ?s"
      using find_empty_probed [OF Cons.prems(1) _ z, of 0] j slot_step(2) [OF Cons.prems(1), of ?p] by (auto simp: probed_def)
    let ?t = "t\<lparr>pt_entries := (pt_entries t)(?s := e)\<rparr>"
    note W = pt_write [OF Cons.prems(1,2) j False refl]
    have u: "card (used ?t) = Suc (card (used t))"
      unfolding W(4) using z by (subst card_insert_disjoint) (auto simp: used_def)
    have "\<exists>t'. rehash ?t es = Some t' \<and> pt_shape t' \<and> pt_chained t' \<and> card (used t') = card (used ?t) + length (pages es) \<and>
      pt_size t' = pt_size ?t \<and> pt_occupancy t' = pt_occupancy ?t \<and>
      (\<forall>q. pt_map t' q = (if q \<in> set (pages es) then entry_of es q else pt_map ?t q))"
    proof (rule Cons.IH [OF W(1,2)])
      show "card (used ?t) + length (pages es) < pt_size ?t" using Cons.prems(3) False u by simp
      show "distinct (pages es)" using Cons.prems(4) False by simp
      show "Page (pt_entries ?t i) \<notin> set (pages es)" if "i < pt_size ?t" "pt_entries ?t i \<noteq> 0" for i
        using that Cons.prems(4,5) False by (auto split: if_splits)
    qed
    moreover have "?p \<notin> set (pages es)" using Cons.prems(4) False by simp
    ultimately show ?thesis using f False u W(3) by (auto simp: entry_of_Cons)
  qed
qed simp

lemma resize_spec:
  assumes ok: "pt_ok t" and calloc: "\<And>n. calloc n \<Longrightarrow> n \<le> 2 ^ 61"
  shows "\<exists>r t'. caml_page_table_resize calloc t = Some (r, t') \<and> pt_ok t' \<and> pt_map t' = pt_map t \<and> pt_occupancy t' = pt_occupancy t \<and>
    (if calloc (2 * pt_size t) then r = 0 \<and> pt_size t' = 2 * pt_size t else r = -1 \<and> t' = t)"
proof (cases "calloc (2 * pt_size t)")
  case False
  then show ?thesis using ok by (simp add: caml_page_table_resize_def)
next
  case True
  have sh: "pt_shape t" and ch: "pt_chained t" and cd: "card (used t) \<le> pt_occupancy t" "2 * pt_occupancy t \<le> pt_size t"
    using ok by (simp_all add: pt_ok_def)
  define t1 where "t1 = \<lparr>pt_size = 2 * pt_size t, pt_shift = pt_shift t - 1, pt_mask = 2 * pt_size t - 1,
                    pt_occupancy = pt_occupancy t, pt_entries = (\<lambda>i. 0)\<rparr>"
  let ?es = "map (pt_entries t) [0..<pt_size t]"
  have sh1: "pt_shape t1"
  proof -
    obtain k where k: "1 \<le> k" "pt_size t = 2 ^ k" "pt_shift t = 64 - k" using sh by (auto simp: pt_shape_def)
    have "(2 :: nat) ^ Suc k \<le> 2 ^ 61" using calloc [OF True] k(2) by simp
    then have "Suc k \<le> 61" using power_increasing_iff [of "2 :: nat" "Suc k" 61] by simp
    then show ?thesis unfolding pt_shape_def using k by (auto simp: t1_def intro!: exI [of _ "Suc k"])
  qed
  have ln: "length (pages ?es) = card (used t)"
  proof -
    have "length (pages ?es) = length (filter (\<lambda>i. pt_entries t i \<noteq> 0) [0..<pt_size t])" by (simp add: pages_def filter_map comp_def)
    also have "\<dots> = card (set (filter (\<lambda>i. pt_entries t i \<noteq> 0) [0..<pt_size t]))" by (rule distinct_card [symmetric]) simp
    also have "set (filter (\<lambda>i. pt_entries t i \<noteq> 0) [0..<pt_size t]) = used t" by (auto simp: used_def)
    finally show ?thesis .
  qed
  have dist: "distinct (pages ?es)"
    using ch by (auto simp: pages_def filter_map comp_def distinct_map inj_on_def pt_chained_def)
  have u1: "used t1 = {}" by (simp add: used_def t1_def)
  have "pt_chained t1" by (simp add: pt_chained_def t1_def)
  from rehash_spec [OF sh1 this _ dist] obtain t' where t': "rehash t1 ?es = Some t'" "pt_shape t'" "pt_chained t'"
    "card (used t') = card (used t)" "pt_size t' = 2 * pt_size t" "pt_occupancy t' = pt_occupancy t"
    "\<And>q. pt_map t' q = (if q \<in> set (pages ?es) then entry_of ?es q else pt_map t1 q)"
    using u1 ln cd pt_shapeD(1) [OF sh] by (auto simp: t1_def)
  have "pt_map t1 q = 0" for q by (simp add: pt_map_def t1_def)
  then have "pt_map t' = pt_map t" using t'(7) entry_of_none by (auto simp: fun_eq_iff pt_map_entries [of t])
  moreover have "caml_page_table_resize calloc t = Some (0, t')"
    using True t'(1) unfolding caml_page_table_resize_def Let_def t1_def [symmetric] by simp
  ultimately show ?thesis using True t' cd by (simp add: pt_ok_def)
qed

lemma modify_spec:
  assumes ok: "pt_ok t" and calloc: "\<And>n. calloc n \<Longrightarrow> n \<le> 2 ^ 61" and pg: "page AND NOT Page_mask = 0" "Page page \<noteq> 0"
    and ts: "toset \<le> 0xFF" "toclear \<le> 0xFF"
  shows "\<exists>r t'. caml_page_table_modify calloc page toclear toset t = Some (r, t') \<and> pt_ok t' \<and> pt_grown 1 t t' \<and>
    (if r = 0 then \<forall>q. pt_map t' q = (if q = Page page then (pt_map t q AND NOT toclear) OR toset else pt_map t q)
     else r = -1 \<and> t' = t \<and> pt_no_room calloc t)"
proof (cases "pt_occupancy t * 2 \<ge> pt_size t")
  case False
  then show ?thesis using modify_loop_spec [OF ok _ pg ts] by (auto simp: caml_page_table_modify_def mult.commute)
next
  case True
  obtain r t1 where t1: "caml_page_table_resize calloc t = Some (r, t1)" "pt_ok t1" "pt_map t1 = pt_map t" "pt_occupancy t1 = pt_occupancy t"
    "if calloc (2 * pt_size t) then r = 0 \<and> pt_size t1 = 2 * pt_size t else r = -1 \<and> t1 = t"
    using resize_spec [OF ok calloc] by blast
  show ?thesis
  proof (cases "calloc (2 * pt_size t)")
    case False
    then show ?thesis using True t1 by (simp add: caml_page_table_modify_def pt_no_room_def pt_grown_refl mult.commute)
  next
    case c: True
    have "2 * pt_occupancy t \<le> pt_size t" "0 < pt_size t" using ok pt_shapeD(1) by (auto simp: pt_ok_def)
    then have "2 * pt_occupancy t1 < pt_size t1" using t1(4,5) c by simp
    note m = modify_loop_spec [OF t1(2) this pg ts]
    have "pt_grown 0 t t1" using t1(4,5) c True by (simp add: pt_grown_def)
    then have "pt_grown 1 t t'" if "pt_grown 1 t1 t'" for t' using pt_grown_trans [OF _ that, of 0 t] by simp
    then show ?thesis using m True t1 c by (auto simp: caml_page_table_modify_def)
  qed
qed

section \<open>Ranges of pages\<close>

abbreviation aligned :: "u64 \<Rightarrow> bool" where
  "aligned p \<equiv> p AND NOT Page_mask = 0"

lemma Page_div: "unat (Page p) = unat p div 4096"
  unfolding Page_def unat_drop_bit_eq by (simp add: drop_bit_eq_div)

lemma Page_mask_div: "unat (p AND Page_mask) = unat p div 4096 * 4096"
proof -
  have e: "p AND Page_mask = push_bit 12 (Page p)" by (rule bit_word_eqI) (auto simp: Page_mask_def Page_def bit_simps)
  have "unat p < 2 ^ 64" by (rule order_less_le_trans [OF unsigned_less]) simp
  then have "unat (Page p) * 4096 < 2 ^ 64" unfolding Page_div by (rule le_less_trans [OF div_times_less_eq_dividend])
  then have "unat (4096 * Page p) = 4096 * unat (Page p)" by (subst unat_mult_lem [THEN iffD1]) (simp_all add: mult.commute)
  then show ?thesis unfolding e push_bit_eq_mult by (simp add: Page_div mult.commute)
qed

lemma aligned_iff: "aligned p \<longleftrightarrow> unat p mod 4096 = 0"
proof -
  have "p = (p AND Page_mask) OR (p AND NOT Page_mask)" by (rule bit_word_eqI) (auto simp: bit_simps)
  then have "aligned p \<Longrightarrow> p AND Page_mask = p" by simp
  moreover have "p AND Page_mask = p \<Longrightarrow> aligned p" by (metis bit.conj_cancel_right and.assoc bit.conj_zero_right)
  ultimately have "aligned p \<longleftrightarrow> p AND Page_mask = p" by blast
  also have "\<dots> \<longleftrightarrow> unat p div 4096 * 4096 = unat p" using Page_mask_div [of p] by (metis word_unat_eq_iff)
  also have "\<dots> \<longleftrightarrow> unat p mod 4096 = 0" using div_mult_mod_eq [of "unat p" 4096] by (metis add_cancel_right_right)
  finally show ?thesis .
qed

lemma aligned_le: "aligned p \<Longrightarrow> aligned q \<Longrightarrow> Page p \<le> Page q \<longleftrightarrow> p \<le> q"
proof -
  assume "aligned p" "aligned q"
  then obtain a b where "unat p = 4096 * a" "unat q = 4096 * b" unfolding aligned_iff by (metis mod_0_imp_dvd dvdE)
  then show ?thesis unfolding word_le_nat_alt Page_div by simp
qed

definition range_result :: "u64 \<Rightarrow> u64 \<Rightarrow> u64 \<Rightarrow> u64 \<Rightarrow> page_table \<Rightarrow> page_table \<Rightarrow> bool" where
  "range_result lo hi toclear toset t t' \<longleftrightarrow>
     (\<forall>q. pt_map t' q = (if lo \<le> q \<and> q \<le> hi then (pt_map t q AND NOT toclear) OR toset else pt_map t q))"

lemma range_loop_spec:
  assumes "pt_ok t" and calloc: "\<And>n. calloc n \<Longrightarrow> n \<le> 2 ^ 61" and "aligned p" "Page p \<noteq> 0"
    and e: "aligned pend" "unat pend + 4096 < 2 ^ 64" and ts: "toset \<le> 0xFF" "toclear \<le> 0xFF"
  shows "\<exists>r t'. range_loop (\<lambda>p. caml_page_table_modify calloc p toclear toset) p pend t = Some (r, t') \<and> pt_ok t' \<and>
    pt_grown (unat (Page pend) + 1 - unat (Page p)) t t' \<and>
    (if r = 0 then range_result (Page p) (Page pend) toclear toset t t' else r = -1 \<and> pt_no_room calloc t')"
  using assms(1,3,4)
proof (induction "unat pend + 4096 - unat p" arbitrary: p t rule: less_induct)
  case less
  show ?case
  proof (cases "p \<le> pend")
    case False
    then have "\<not> Page p \<le> Page pend" using aligned_le [OF less.prems(2) e(1)] by simp
    then show ?thesis using False less.prems(1) by (subst range_loop.simps) (auto simp: range_result_def pt_grown_refl)
  next
    case True
    obtain r t1 where m: "caml_page_table_modify calloc p toclear toset t = Some (r, t1)" "pt_ok t1" "pt_grown 1 t t1"
      "if r = 0 then \<forall>q. pt_map t1 q = (if q = Page p then (pt_map t q AND NOT toclear) OR toset else pt_map t q)
       else r = -1 \<and> t1 = t \<and> pt_no_room calloc t"
      using modify_spec [OF less.prems(1) calloc less.prems(2,3) ts] by blast
    show ?thesis
    proof (cases "r = 0")
      case False
      then show ?thesis using True m by (subst range_loop.simps) (auto simp: pt_grown_refl)
    next
      case r: True
      let ?p = "p + Page_size"
      have le: "unat p \<le> unat pend" using True by (simp add: word_le_nat_alt)
      then have u: "unat ?p = unat p + 4096" using e(2) by (simp add: unat_add_lem [THEN iffD1])
      have al: "aligned ?p" using less.prems(2) unfolding aligned_iff u by simp
      have pp: "unat (Page ?p) = unat (Page p) + 1" unfolding Page_div u by simp
      then have p0: "Page ?p \<noteq> 0" by auto
      have "unat pend + 4096 - unat ?p < unat pend + 4096 - unat p" using u le by simp
      from less.hyps [OF this m(2) al p0] obtain r' t' where L: "range_loop (\<lambda>p. caml_page_table_modify calloc p toclear toset) ?p pend t1 = Some (r', t')" "pt_ok t'"
        "pt_grown (unat (Page pend) + 1 - unat (Page ?p)) t1 t'" "if r' = 0 then range_result (Page ?p) (Page pend) toclear toset t1 t' else r' = -1 \<and> pt_no_room calloc t'"
        by blast
      have "range_result (Page p) (Page pend) toclear toset t t'" if "r' = 0"
      proof -
        have o: "Page p \<le> q \<longleftrightarrow> q = Page p \<or> Page ?p \<le> q" for q
          unfolding word_le_nat_alt word_unat_eq_iff pp by linarith
        have n: "\<not> Page ?p \<le> Page p" unfolding word_le_nat_alt pp by simp
        have n': "Page p \<le> Page pend" using True aligned_le [OF less.prems(2) e(1)] by simp
        have m1: "pt_map t1 q = (if q = Page p then (pt_map t q AND NOT toclear) OR toset else pt_map t q)" for q using m(4) r by simp
        have l1: "pt_map t' q = (if Page ?p \<le> q \<and> q \<le> Page pend then (pt_map t1 q AND NOT toclear) OR toset else pt_map t1 q)" for q
          using L(4) that by (simp add: range_result_def)
        show ?thesis unfolding range_result_def l1 m1 o using n n' by simp
      qed
      moreover have "pt_grown (unat (Page pend) + 1 - unat (Page p)) t t'"
      proof -
        have "unat (Page p) \<le> unat (Page pend)"
          using True aligned_le [OF less.prems(2) e(1)] by (simp add: word_le_nat_alt)
        then have "unat (Page pend) + 1 - unat (Page p) = 1 + (unat (Page pend) + 1 - unat (Page ?p))" unfolding pp by simp
        then show ?thesis using pt_grown_trans [OF m(3) L(3)] by simp
      qed
      ultimately show ?thesis using True m(1) r L by (subst range_loop.simps) auto
    qed
  qed
qed

lemma lookup_range:
  assumes "pt_ok t" "pt_ok t'" and "range_result lo hi toclear toset t t'" and "caml_page_table_lookup t a = Some d"
  shows "caml_page_table_lookup t' a = Some (if lo \<le> Page a \<and> Page a \<le> hi then (d AND NOT toclear) OR toset else d)"
  using assms(3,4) lookup_spec [OF assms(1)] lookup_spec [OF assms(2)] by (simp add: range_result_def)

lemma range_bounds:
  assumes "start < stop" and "unat stop + 4096 \<le> 2 ^ 64"
  shows "aligned (a AND Page_mask)" and "Page (a AND Page_mask) = Page a" and "unat ((stop - 1) AND Page_mask) + 4096 < 2 ^ 64"
proof -
  show "aligned (a AND Page_mask)" by (rule bit_word_eqI) (auto simp: bit_simps)
  show "Page (a AND Page_mask) = Page a" unfolding Page_bits using word_bit_length by (auto simp: Page_mask_def bit_simps)
  have "stop \<noteq> 0" using assms(1) by auto
  then have "unat (stop - 1) < unat stop" by (simp add: unat_minus_one unat_gt_0)
  moreover have "unat ((stop - 1) AND Page_mask) \<le> unat (stop - 1)" unfolding Page_mask_div by simp
  ultimately show "unat ((stop - 1) AND Page_mask) + 4096 < 2 ^ 64" using assms(2) by simp
qed

lemma size_loop_spec:
  assumes "sz = 2 ^ k" and "sh = 64 - k" and "2 ^ k < 4 * pagesize \<or> k = 0" and "pagesize < 2 ^ 52" and "1 \<le> pagesize"
  obtains k' where "size_loop pagesize sz sh = (2 ^ k', 64 - k')" and "1 \<le> k'" and "k' \<le> 54" and "2 * pagesize \<le> 2 ^ k'"
  using assms
proof (induction pagesize sz sh arbitrary: k thesis rule: size_loop.induct)
  case (1 pagesize sz sh)
  show ?case
  proof (cases "sz < 2 * pagesize")
    case True
    have "size_loop pagesize sz sh = size_loop pagesize (2 * sz) (sh - 1)"
      using True 1(3) by (subst size_loop.simps) simp
    moreover have "2 ^ Suc k < 4 * pagesize" using True 1(3) by simp
    ultimately show ?thesis using 1(1) [of _ "Suc k"] 1(2-) True by auto
  next
    case False
    have "size_loop pagesize sz sh = (sz, sh)" using False by (subst size_loop.simps) simp
    moreover have "2 ^ k < (2 :: nat) ^ 54" using 1(5,6) by auto
    then have "k < 54" using power_less_imp_less_exp [of "2 :: nat" k 54] by simp
    moreover have "1 \<le> k" using False 1(3,7) by (cases k) auto
    ultimately show ?thesis using 1(2) [of k] 1(3,4) False by auto
  qed
qed

text \<open>A table made for at least one page is empty and has room.\<close>

lemma initialize_spec:
  assumes "caml_page_table_initialize calloc bytesize = Some t" and "4096 \<le> unat bytesize"
  shows "pt_ok t" and "pt_map t q = 0"
proof -
  let ?n = "unat (Page bytesize)"
  have "unat bytesize < 2 ^ 64" by (rule order_less_le_trans [OF unsigned_less]) simp
  then have n: "1 \<le> ?n" "?n < 2 ^ 52" using assms(2) div_le_mono [of 4096 "unat bytesize" 4096] unfolding Page_div by (simp_all add: div_less_iff_less_mult less_mult_imp_div_less)
  obtain k where k: "size_loop ?n 1 64 = (2 ^ k, 64 - k)" "1 \<le> k" "k \<le> 54"
    by (rule size_loop_spec [of 1 0 64 ?n]) (use n in auto)
  have t: "t = \<lparr>pt_size = 2 ^ k, pt_shift = 64 - k, pt_mask = 2 ^ k - 1, pt_occupancy = 0, pt_entries = (\<lambda>i. 0)\<rparr>"
    using assms(1) unfolding caml_page_table_initialize_def k(1) by (simp split: if_splits)
  show "pt_ok t" using k(2,3) by (auto simp: t pt_ok_def pt_shape_def pt_chained_def used_def)
  show "pt_map t q = 0" by (simp add: t pt_map_def)
qed

lemma range_spec:
  assumes "pt_ok t" and "\<And>n. calloc n \<Longrightarrow> n \<le> 2 ^ 61" and "toset \<le> 0xFF" and "toclear \<le> 0xFF"
    and "start < stop" and "Page start \<noteq> 0" and "unat stop + 4096 \<le> 2 ^ 64"
  shows "\<exists>r t'. range_loop (\<lambda>p. caml_page_table_modify calloc p toclear toset) (start AND Page_mask) ((stop - 1) AND Page_mask) t = Some (r, t') \<and>
    pt_ok t' \<and> pt_grown (unat (Page (stop - 1)) + 1 - unat (Page start)) t t' \<and>
    (if r = 0 then range_result (Page start) (Page (stop - 1)) toclear toset t t' else r = -1 \<and> pt_no_room calloc t')"
proof -
  note B = range_bounds [OF assms(5,7)]
  have "Page (start AND Page_mask) \<noteq> 0" using assms(6) B(2) by simp
  from range_loop_spec [where calloc = calloc, OF assms(1,2) B(1) this B(1,3) assms(3,4)] show ?thesis unfolding B(2) .
qed

text \<open>
  C31: Registering a range of addresses in the page table returns, however often
  the table has to grow on the way. On success, every address on a page of the
  range has the new kind in addition to the kinds it had, and no other address
  changes its classification. A failure is one of the allocator: the table it
  leaves is half full, and the allocator refused a table of twice that size.
  In both cases the table stays well formed, gains at most one entry for each
  page of the range, and has not grown beyond four times its entries. The
  allocator gives at most the address space, and the range does not touch the
  first or the last page.
\<close>

theorem page_table_add_correct:
  assumes "pt_ok t" and "\<And>n. calloc n \<Longrightarrow> n \<le> 2 ^ 61" and "kind \<le> 0xFF"
    and "start < stop" and "Page start \<noteq> 0" and "unat stop + 4096 \<le> 2 ^ 64"
  shows "\<exists>r t'. caml_page_table_add calloc kind start stop t = Some (r, t') \<and> pt_ok t' \<and>
    pt_grown (unat (Page (stop - 1)) + 1 - unat (Page start)) t t' \<and>
    (if r = 0
     then \<forall>a. \<exists>d. caml_page_table_lookup t a = Some d \<and>
       caml_page_table_lookup t' a = Some (if Page start \<le> Page a \<and> Page a \<le> Page (stop - 1) then d OR kind else d)
     else r = -1 \<and> pt_no_room calloc t')"
proof -
  obtain r t' where L: "caml_page_table_add calloc kind start stop t = Some (r, t')" "pt_ok t'"
    "pt_grown (unat (Page (stop - 1)) + 1 - unat (Page start)) t t'"
    "if r = 0 then range_result (Page start) (Page (stop - 1)) 0 kind t t' else r = -1 \<and> pt_no_room calloc t'"
    using range_spec [where calloc = calloc and toclear = 0, OF assms(1-3) word_zero_le assms(4-6)] unfolding caml_page_table_add_def by blast
  have "caml_page_table_lookup t' a = Some (if Page start \<le> Page a \<and> Page a \<le> Page (stop - 1) then pt_map t (Page a) OR kind else pt_map t (Page a))"
    if "r = 0" for a
    using lookup_range [OF assms(1) L(2) _ lookup_spec [OF assms(1)]] L(4) that by simp
  then show ?thesis using L lookup_spec [OF assms(1)] by auto
qed

definition sample_page_table :: page_table where
  "sample_page_table = \<lparr>pt_size = 2, pt_shift = 63, pt_mask = 1, pt_occupancy = 0, pt_entries = (\<lambda>i. 0)\<rparr>"

lemma sample_page_table_ok: "pt_ok sample_page_table"
  by (auto simp: sample_page_table_def pt_ok_def pt_shape_def pt_chained_def used_def intro!: exI [of _ 1])

text \<open>Four pages in a table of two slots, which grows: the allocator gives up to 1000 slots, so it succeeds.\<close>

theorem page_table_add_correct_witness:
  "\<exists>t'. caml_page_table_add (\<lambda>n. n \<le> 1000) In_heap 0x10000 0x14000 sample_page_table = Some (0, t') \<and> pt_ok t'
     \<and> caml_page_table_lookup t' 0x13008 = Some In_heap \<and> caml_page_table_lookup t' 0x14000 = Some 0"
proof -
  have pages: "Page 0x10000 = 16" "Page (0x14000 - 1) = 19" "Page 0x13008 = 19" "Page 0x14000 = 20" by code_simp+
  have empty: "caml_page_table_lookup sample_page_table a = Some 0" for a
    unfolding lookup_spec [OF sample_page_table_ok] by (simp add: pt_map_def sample_page_table_def)
  obtain r t' where L: "caml_page_table_add (\<lambda>n. n \<le> 1000) In_heap 0x10000 0x14000 sample_page_table = Some (r, t')" "pt_ok t'"
    "pt_grown 4 sample_page_table t'"
    "if r = 0 then \<forall>a. \<exists>d. caml_page_table_lookup sample_page_table a = Some d \<and>
       caml_page_table_lookup t' a = Some (if 16 \<le> Page a \<and> Page a \<le> 19 then d OR In_heap else d)
     else r = -1 \<and> pt_no_room (\<lambda>n. n \<le> 1000) t'"
    using page_table_add_correct [where calloc = "\<lambda>n. n \<le> 1000" and kind = In_heap and start = "0x10000" and stop = "0x14000", OF sample_page_table_ok]
    unfolding pages by fastforce
  have "\<not> pt_no_room (\<lambda>n. n \<le> 1000) t'" using L(3) by (auto simp: pt_grown_def pt_no_room_def sample_page_table_def)
  then have "r = 0" using L(4) by presburger
  then show ?thesis using L(1,2,4) empty pages by simp
qed

lemma or_and_not:
  assumes "(d :: u64) AND k = 0"
  shows "(d OR k) AND NOT k = d"
proof (rule bit_word_eqI)
  fix n assume "n < LENGTH(64)"
  have "\<not> bit (d AND k) n" using assms by simp
  then show "bit ((d OR k) AND NOT k) n = bit d n" using \<open>n < LENGTH(64)\<close> by (auto simp: bit_simps)
qed

text \<open>
  Removing a range after registering it gives back the classification of
  every address, when no page of the range had the kind before.
\<close>

lemma page_table_add_remove:
  assumes "pt_ok t" and "\<And>n. calloc n \<Longrightarrow> n \<le> 2 ^ 61" and "kind \<le> 0xFF"
    and "start < stop" and "Page start \<noteq> 0" and "unat stop + 4096 \<le> 2 ^ 64"
    and "\<And>a d. start \<le> a \<Longrightarrow> caml_page_table_lookup t a = Some d \<Longrightarrow> d AND kind = 0"
    and "caml_page_table_add calloc kind start stop t = Some (0, t1)" and "caml_page_table_remove calloc kind start stop t1 = Some (0, t2)"
  shows "caml_page_table_lookup t2 a = caml_page_table_lookup t a"
proof -
  have 1: "pt_ok t1" "range_result (Page start) (Page (stop - 1)) 0 kind t t1"
    using range_spec [where calloc = calloc and toclear = 0, OF assms(1-3) word_zero_le assms(4-6)] assms(8) unfolding caml_page_table_add_def by auto
  have 2: "pt_ok t2" "range_result (Page start) (Page (stop - 1)) kind 0 t1 t2"
    using range_spec [where calloc = calloc and toset = 0, OF 1(1) assms(2) word_zero_le assms(3-6)] assms(9) unfolding caml_page_table_remove_def by auto
  have l: "caml_page_table_lookup t a = Some (pt_map t (Page a))" by (rule lookup_spec [OF assms(1)])
  show ?thesis
  proof (cases "Page start \<le> Page a \<and> Page a \<le> Page (stop - 1)")
    case True
    obtain a' where a': "start \<le> a'" "Page a' = Page a"
    proof (cases "start \<le> a")
      case False
      then have "Page a \<le> Page start" by (simp add: word_le_nat_alt Page_div div_le_mono)
      then show thesis using that [of start] True by auto
    qed (use that in blast)
    have "pt_map t (Page a) AND kind = 0" using assms(7) [OF a'(1)] lookup_spec [OF assms(1), of a'] a'(2) by simp
    then have "((pt_map t (Page a) OR kind) AND NOT kind) = pt_map t (Page a)"
      by (rule or_and_not)
    then show ?thesis using True 1 2 l lookup_spec [OF 2(1), of a] by (simp add: range_result_def)
  qed (use 1 2 l lookup_spec [OF 2(1), of a] in \<open>auto simp: range_result_def\<close>)
qed

end
