(* ===== verification/Spec2Isabelle.thy ===== *)
theory Spec2Isabelle
  imports Bng_Contract Nat_Stubs Mlvalues Int64 Interp_Arith Interp_Methods Interp_Refine Callback Parsing Major_Cycle Page_Table
begin

text \<open>
  Verification of the C runtime of a reentrant OCaml system, in which every
  function takes the runtime context as an argument (names ending in \<^verbatim>\<open>_r\<close>). Paths
  below are relative to \<^verbatim>\<open>src/\<close>; the names of definitions are those of the code
  without that suffix.

  \<^bold>\<open>Machine.\<close> A 64-bit little-endian machine. \<open>memory\<close> maps word indices to
  64-bit words, pointers into it are word indices with 0 for the null pointer,
  and a value of type \<^verbatim>\<open>value\<close> is a word: a tagged integer or eight times the index
  of a block. Where C arithmetic may overflow it is done on words of its width;
  sizes and offsets that the code cannot make overflow are natural numbers or
  integers. Errors and exceptions are values of sum or option types. Loops are
  structural where the code counts, and \<^theory_text>\<open>partial_function\<close> on options where the
  code could run for ever; then not returning is \<open>None\<close> and termination is proved.
  No fuel is used anywhere; the digits of the 64-bit formatter are bounded by the
  24 characters of its buffer, and shown never to exceed it.

  \<^bold>\<open>Values.\<close> \<open>Mlvalues\<close> has the representation of values and headers of
  \<^verbatim>\<open>byterun/mlvalues.h\<close> and \<^verbatim>\<open>byterun/gc.h\<close>: tagging, header fields and colours, and
  the round trips between them. Everything below rests on it.

  \<^bold>\<open>Arithmetic.\<close> \<open>Bng_Digit\<close>, \<open>Bng\<close> translate the digit macros and the generic table
  of \<^verbatim>\<open>otherlibs/num/bng.c\<close>; \<open>Bng_Arith\<close>, \<open>Bng_Mult\<close>, \<open>Bng_Division\<close> relate runs of
  digits to the numbers they denote. \<open>Bng_Contract\<close> states the contract of
  \<^verbatim>\<open>struct bng_operations\<close> as a locale, interprets it on the generic table and
  derives the properties of addition, subtraction, multiplication, squaring and
  long division. \<open>Nat_Stubs\<close> has the primitives of \<^verbatim>\<open>otherlibs/num/nat_stubs.c\<close> on
  top, with hashing and the wire format. \<open>Ints\<close> has the literal parser, compared
  with an independent reading of literals, and the 32-bit and native integers of
  \<^verbatim>\<open>byterun/ints.c\<close>; \<open>Int64_Emul\<close> and \<open>Int64\<close> the two implementations of 64-bit
  integers, \<^verbatim>\<open>int64_emul.h\<close> and \<^verbatim>\<open>int64_native.h\<close>, and the proof that the first
  refines the second for the arithmetic, comparison, parsing and hashing
  primitives of \<^verbatim>\<open>ints.c\<close> and the formatter of \<^verbatim>\<open>int64_format.h\<close>; the conversions
  from and to native integers and floats are not covered.

  \<^bold>\<open>Interpreter.\<close> \<open>Runtime\<close> has the part of the context that running code uses,
  small allocation, the write barrier and the predefined exceptions
  (\<^verbatim>\<open>memory.h\<close>, \<^verbatim>\<open>memory.c\<close>, \<^verbatim>\<open>alloc.c\<close>, \<^verbatim>\<open>fail.c\<close>); the minor collector, the large
  allocator and the primitives are parameters. \<open>Stacks\<close> is \<^verbatim>\<open>stacks.c\<close>, with
  relocation of the pointers into the stack and of the trap frames. \<open>Interp\<close> has one definition for each group of
  instructions of \<^verbatim>\<open>interp.c\<close>. \<open>Interp_Refine\<close> gives an abstract machine whose
  stack is a list and the simulation by the concrete one; \<open>Interp_Arith\<close> shows that
  the integer instructions, the fused branches included, are 63-bit arithmetic; \<open>Interp_Control\<close> treats exceptions,
  \<open>Interp_Partial\<close> partial applications, and \<open>Interp_Methods\<close> method lookup with
  and without cache (also \<^verbatim>\<open>obj.c\<close>). \<open>Callback\<close> enters the interpreter from C and
  has the table of named values (\<^verbatim>\<open>callback.c\<close>).

  \<^bold>\<open>Lexers and parsers.\<close> \<open>Lexing\<close> and \<open>Parsing\<close> are the table-driven engines
  \<^verbatim>\<open>lexing.c\<close> and \<^verbatim>\<open>parsing.c\<close>: longest match, refilling of the buffer, agreement of
  the two lexer engines; refinement of the LR automaton, termination for all
  tables, and error recovery. The tables are arbitrary functions.

  \<^bold>\<open>Memory management.\<close> \<open>Freelist\<close> is \<^verbatim>\<open>freelist.c\<close> with both allocation policies;
  \<open>Freelist_Chain\<close> describes the list in memory, \<open>Freelist_Alloc\<close> proves next-fit
  allocation and \<open>Freelist_Merge\<close> the merging of swept blocks. \<open>Major_Gc\<close> is the
  marking and sweeping of \<^verbatim>\<open>major_gc.c\<close> with \<^verbatim>\<open>caml_final_update_r\<close> of \<^verbatim>\<open>finalise.c\<close>; the
  roots, the classification of addresses and the success of \<^verbatim>\<open>realloc\<close> are
  parameters, in the record \<open>gc_env\<close>. \<open>Major_Sweep\<close> has the invariant of sweeping
  and its termination. \<open>Major_Mark\<close> has the tricolour invariant against the graph
  at the start of the cycle and what scanning a block does to it, \<open>Major_Heap\<close> the
  heap a cycle starts from and the rescan after an overflow of the mark stack,
  \<open>Major_Phase\<close> the weak and finalisation subphases and the termination of the
  phase, and \<open>Major_Cycle\<close> puts the phases together: reachable blocks survive
  unchanged and everything else is given back to the free list. \<open>Page_Table\<close> is
  the hash table of \<^verbatim>\<open>memory.c\<close> that classifies addresses on 64-bit machines, as a
  map from pages to kinds that growth and ranges of modifications respect; the
  collector takes the classification as a parameter.

  \<^bold>\<open>Assumptions on the initial heap.\<close> \<open>heap_ok\<close> says that the chunks are cut into
  blocks, all white or free, that the free list is the list of the free blocks,
  that some set of blocks contains the targets of the roots and of its own
  fields, and that the weak arrays are linked through their first fields. The
  collector is run without the mutator in between, as \<^verbatim>\<open>caml_finish_major_cycle_r\<close>
  does.

  \<^bold>\<open>Not modelled.\<close> The minor collector, compaction, the extension of the
  heap by chunks, and the pacing of collector slices, which is computed in floating
  point. Marshalling, channels, structural comparison and hashing, strings,
  arrays, digests, floating-point primitives, global roots, weak-array primitives
  and the splitting of contexts. Loading of bytecode, dynamic linking, signals,
  the debugger, backtraces and the system interface, which consist of calls of the
  operating system. The native-code runtime, which depends on generated code, and
  the assembly versions of the digit operations. The libraries for Unix, Windows,
  graphics, Tk, threads, big arrays and regular expressions, and the parser
  generator. Threaded-code dispatch, tracing and the checks of the debugging build
  are left out of the modelled files.
\<close>

end
